(* ===== verification/Prelude.thy ===== *)
theory Prelude
  imports Complex_Main "HOL-Library.Word" "HOL-Library.AList"
begin

text \<open>
  What every component of the development shares: the machine integers of the Rust code, the
  outcome of a computation that may return an error or panic, the state-passing procedures in
  which the \<open>async fn(&mut self)\<close> methods are written, the relation calculus in which facts such
  as "this field never decreases" are proved for whole handlers, the little-endian encoding of
  \<open>u64::to_le_bytes\<close>, and the generic lemmas on lists and maps.
\<close>

section \<open>Machine integers\<close>

text \<open>
  Unsigned arithmetic wraps around: the binaries are built with \<open>cargo build --release\<close>, whose
  default profile has no overflow checks.
\<close>

type_synonym u8 = "8 word"
type_synonym u16 = "16 word"
type_synonym u32 = "32 word"
type_synonym u64 = "64 word"
type_synonym u128 = "128 word"
type_synonym bytes = "u8 list"

text \<open>\<open>std::net::SocketAddr\<close>: the octets of the IP address and the port.\<close>

type_synonym socket_addr = "bytes \<times> u16"

section \<open>Outcomes and procedures\<close>

text \<open>
  A Rust computation returns a value, returns early with an error (\<open>?\<close>, \<open>ensure!\<close>, \<open>bail!\<close>),
  panics (\<open>expect\<close>, \<open>unwrap\<close>, \<open>panic!\<close>, an index out of range, a remainder by zero), or does
  not return at all. Mutations made before an error or a panic stay made, so a procedure yields
  the state in every case.
\<close>

datatype ('e, 'a) outcome = Ok 'a | Err 'e | Panic string | Diverge

type_synonym ('s, 'e, 'a) proc = "'s \<Rightarrow> ('e, 'a) outcome \<times> 's"

definition ret :: "'a \<Rightarrow> ('s, 'e, 'a) proc" where
  "ret a s = (Ok a, s)"

definition fail :: "'e \<Rightarrow> ('s, 'e, 'a) proc" where
  "fail e s = (Err e, s)"

definition panic :: "string \<Rightarrow> ('s, 'e, 'a) proc" where
  "panic m s = (Panic m, s)"

definition bnd :: "('s, 'e, 'a) proc \<Rightarrow> ('a \<Rightarrow> ('s, 'e, 'b) proc) \<Rightarrow> ('s, 'e, 'b) proc" where
  "bnd m f s = (case m s of
      (Ok a, s') \<Rightarrow> f a s'
    | (Err e, s') \<Rightarrow> (Err e, s')
    | (Panic p, s') \<Rightarrow> (Panic p, s')
    | (Diverge, s') \<Rightarrow> (Diverge, s'))"

definition sq :: "('s, 'e, unit) proc \<Rightarrow> ('s, 'e, 'b) proc \<Rightarrow> ('s, 'e, 'b) proc" where
  "sq m k = bnd m (\<lambda>_. k)"

definition gets :: "('s \<Rightarrow> 'a) \<Rightarrow> ('s, 'e, 'a) proc" where
  "gets f s = (Ok (f s), s)"

definition modify :: "('s \<Rightarrow> 's) \<Rightarrow> ('s, 'e, unit) proc" where
  "modify f s = (Ok (), f s)"

text \<open>A method call on a field of the state.\<close>

definition zoom :: "('s \<Rightarrow> 't) \<Rightarrow> ('t \<Rightarrow> 's \<Rightarrow> 's) \<Rightarrow> ('t, 'e, 'a) proc \<Rightarrow> ('s, 'e, 'a) proc" where
  "zoom get upd m s = (case m (get s) of (r, t) \<Rightarrow> (r, upd t s))"

text \<open>
  \<open>tx.send(x).await.expect(msg)\<close> of a handler that has sent \<open>ds\<close>: it panics if the receiving end is closed, which it is
  once the task that has it has ended.
\<close>

definition channel_send :: "string \<Rightarrow> bool \<Rightarrow> 'd \<Rightarrow> ('d list, 'e, unit) proc" where
  "channel_send msg gone x = (if gone then panic msg else modify (\<lambda>ds. ds @ [x]))"

lemma channel_send_open [simp]:
  "channel_send msg False x = modify (\<lambda>ds. ds @ [x])" "channel_send msg True x = panic msg"
  by (simp_all add: channel_send_def)

text \<open>The \<open>?\<close> operator on a \<open>Result\<close>, and \<open>ensure!(cond, e)\<close> of \<open>error.rs\<close>.\<close>

definition lift_result :: "'e + 'a \<Rightarrow> ('s, 'e, 'a) proc" where
  "lift_result r s = (case r of Inl e \<Rightarrow> (Err e, s) | Inr a \<Rightarrow> (Ok a, s))"

definition ensure :: "bool \<Rightarrow> 'e \<Rightarrow> 'e + unit" where
  "ensure c e = (if \<not> c then Inl e else Inr ())"

text \<open>Sequencing of \<open>Result\<close>s in code that mutates nothing.\<close>

definition and_then :: "'e + 'a \<Rightarrow> ('a \<Rightarrow> 'e + 'b) \<Rightarrow> 'e + 'b" where
  "and_then r f = (case r of Inl e \<Rightarrow> Inl e | Inr a \<Rightarrow> f a)"

definition map_err :: "('e \<Rightarrow> 'f) \<Rightarrow> 'e + 'a \<Rightarrow> 'f + 'a" where
  "map_err g r = (case r of Inl e \<Rightarrow> Inl (g e) | Inr a \<Rightarrow> Inr a)"

named_theorems proc_simps "evaluation of procedures"

lemma run_proc [proc_simps]:
  "ret a s = (Ok a, s)" "fail e s = (Err e, s)" "panic p s = (Panic p, s)"
  "gets f s = (Ok (f s), s)" "modify g s = (Ok (), g s)"
  "lift_result (Inl e) s = (Err e, s)" "lift_result (Inr a) s = (Ok a, s)"
  by (simp_all add: ret_def fail_def panic_def gets_def modify_def lift_result_def)

lemma run_bnd [proc_simps]:
  "m s = (Ok a, s') \<Longrightarrow> bnd m f s = f a s'"
  "m s = (Err e, s') \<Longrightarrow> bnd m f s = (Err e, s')"
  "m s = (Panic p, s') \<Longrightarrow> bnd m f s = (Panic p, s')"
  "m s = (Diverge, s') \<Longrightarrow> bnd m f s = (Diverge, s')"
  by (simp_all add: bnd_def)

lemma run_sq [proc_simps]:
  "m s = (Ok (), s') \<Longrightarrow> sq m k s = k s'"
  "m s = (Err e, s') \<Longrightarrow> sq m k s = (Err e, s')"
  "m s = (Panic p, s') \<Longrightarrow> sq m k s = (Panic p, s')"
  "m s = (Diverge, s') \<Longrightarrow> sq m k s = (Diverge, s')"
  by (simp_all add: sq_def bnd_def)

lemma bnd_gets [proc_simps]: "bnd (gets g) f s = f (g s) s"
  by (simp add: bnd_def gets_def)

lemma sq_modify [proc_simps]: "sq (modify g) k s = k (g s)"
  by (simp add: sq_def bnd_def modify_def)

lemma bnd_ret [proc_simps]: "bnd (ret a) f s = f a s"
  by (simp add: bnd_def ret_def)

lemma sq_ret [proc_simps]: "sq (ret ()) k s = k s"
  by (simp add: sq_def bnd_def ret_def)

lemma bnd_Ok_cases:
  assumes "bnd m f s = (r, t)"
  obtains (ok) a s' where "m s = (Ok a, s')" and "f a s' = (r, t)"
    | (stop) r' where "m s = (r', t)" and "\<And>a. r' \<noteq> Ok a" and "\<And>a. r \<noteq> Ok a"
  using assms by (cases "m s"; cases "fst (m s)") (auto simp: bnd_def)

lemma ensure_Inr [simp]: "ensure c e = Inr u \<longleftrightarrow> c"
  by (simp add: ensure_def)

lemma ensure_Inl [simp]: "ensure c e = Inl e' \<longleftrightarrow> \<not> c \<and> e' = e"
  by (auto simp: ensure_def)

lemma and_then_Inr [simp]:
  "and_then r f = Inr b \<longleftrightarrow> (\<exists>a. r = Inr a \<and> f a = Inr b)"
  by (cases r) (auto simp: and_then_def)

lemma and_then_simps [simp]: "and_then (Inl e) f = Inl e" "and_then (Inr a) f = f a"
  by (simp_all add: and_then_def)

lemma map_err_Inr [simp]: "map_err g r = Inr a \<longleftrightarrow> r = Inr a"
  by (cases r) (auto simp: map_err_def)

lemma map_err_Inl_iff [simp]: "map_err g r = Inl e \<longleftrightarrow> (\<exists>e'. r = Inl e' \<and> e = g e')"
  by (cases r) (auto simp: map_err_def)

section \<open>What a procedure keeps and yields\<close>

text \<open>
  \<open>keeps R m\<close>: whatever the outcome of \<open>m\<close>, the state before and the state after are related by
  \<open>R\<close>. For a preorder \<open>R\<close> (a field that only grows, a field that stays) this is compositional, which
  the locale \<open>step_relation\<close> states once.

  \<open>leads B P I m J Q\<close>: from a state in \<open>I\<close>, the procedure \<open>m\<close> ends in \<open>J\<close> whatever its outcome, with a
  value in \<open>Q\<close> when it is \<open>Ok\<close> and a message in \<open>P\<close> when it panics, provided that the state at the end
  is in \<open>B\<close>; \<open>yields B P I m Q\<close> is the case of an invariant, \<open>J = I\<close>. The proviso \<open>B\<close> is a condition
  that, once it has failed, fails for ever (the log of what was signed stays within what is known to have
  been signed at the end of a run); the locale \<open>guarded\<close> has it hold backwards along a step relation.
\<close>

definition keeps :: "('s \<Rightarrow> 's \<Rightarrow> bool) \<Rightarrow> ('s, 'e, 'a) proc \<Rightarrow> bool" where
  "keeps R m \<longleftrightarrow> (\<forall>s. R s (snd (m s)))"

definition leads ::
    "('s \<Rightarrow> bool) \<Rightarrow> string set \<Rightarrow> ('s \<Rightarrow> bool) \<Rightarrow> ('s, 'e, 'a) proc \<Rightarrow> ('s \<Rightarrow> bool) \<Rightarrow> ('a \<Rightarrow> bool) \<Rightarrow> bool" where
  "leads B P I m J Q \<longleftrightarrow> (\<forall>s r t. m s = (r, t) \<longrightarrow> B t \<longrightarrow> I s \<longrightarrow>
     J t \<and> (\<forall>a. r = Ok a \<longrightarrow> Q a) \<and> (\<forall>p. r = Panic p \<longrightarrow> p \<in> P))"

abbreviation yields ::
    "('s \<Rightarrow> bool) \<Rightarrow> string set \<Rightarrow> ('s \<Rightarrow> bool) \<Rightarrow> ('s, 'e, 'a) proc \<Rightarrow> ('a \<Rightarrow> bool) \<Rightarrow> bool" where
  "yields B P I m Q \<equiv> leads B P I m I Q"

lemma keepsI: "(\<And>s. R s (snd (m s))) \<Longrightarrow> keeps R m"
  by (simp add: keeps_def)

lemma keepsD: "keeps R m \<Longrightarrow> m s = (r, t) \<Longrightarrow> R s t"
  unfolding keeps_def by (metis snd_conv)

lemma keeps_modify: "(\<And>s. R s (f s)) \<Longrightarrow> keeps R (modify f)"
  by (simp add: keeps_def modify_def)

lemma leadsI:
  assumes "\<And>s r t. m s = (r, t) \<Longrightarrow> B t \<Longrightarrow> I s \<Longrightarrow>
      J t \<and> (\<forall>a. r = Ok a \<longrightarrow> Q a) \<and> (\<forall>p. r = Panic p \<longrightarrow> p \<in> P)"
  shows "leads B P I m J Q"
  using assms unfolding leads_def by blast

lemma leadsD:
  assumes "leads B P I m J Q" and "m s = (r, t)" and "B t" and "I s"
  shows "J t" and "r = Ok a \<Longrightarrow> Q a" and "r = Panic p \<Longrightarrow> p \<in> P"
  using assms unfolding leads_def by blast+

lemma leads_mono:
  "leads B P I m J Q \<Longrightarrow> (\<And>s. I' s \<Longrightarrow> I s) \<Longrightarrow> (\<And>s. J s \<Longrightarrow> J' s) \<Longrightarrow> leads B P I' m J' Q"
  unfolding leads_def by blast

lemma yields_weaken:
  "leads B P I m J Q \<Longrightarrow> (\<And>a. Q a \<Longrightarrow> Q' a) \<Longrightarrow> P \<subseteq> P' \<Longrightarrow> leads B P' I m J Q'"
  unfolding leads_def by blast

lemma yields_any: "leads B P I m J Q \<Longrightarrow> leads B P I m J (\<lambda>_. True)"
  by (rule yields_weaken) auto

lemma yields_modify: "(\<And>s. I s \<Longrightarrow> B (f s) \<Longrightarrow> I (f s)) \<Longrightarrow> yields B P I (modify f) (\<lambda>_. True)"
  by (rule leadsI) (auto simp: modify_def)

lemma yields_pure:
  "Q a \<Longrightarrow> yields B P I (ret a) Q"
  "yields B P I (fail e) Q"
  "msg \<in> P \<Longrightarrow> yields B P I (panic msg) Q"
  "(\<And>s. I s \<Longrightarrow> Q (f s)) \<Longrightarrow> yields B P I (gets f) Q"
  "(\<And>a. x = Inr a \<Longrightarrow> Q a) \<Longrightarrow> yields B P I (lift_result x) Q"
  by (auto simp: leads_def ret_def fail_def panic_def gets_def lift_result_def split: sum.splits)

text \<open>A value that was read is one of a state in the invariant; a \<open>Result\<close> is \<open>Ok\<close> after \<open>?\<close>.\<close>

lemma yields_bnd_pure:
  "(\<And>s. I s \<Longrightarrow> leads B P I (f (g s)) J Q) \<Longrightarrow> leads B P I (bnd (gets g) f) J Q"
  "leads B P I (f a) J Q \<Longrightarrow> leads B P I (bnd (ret a) f) J Q"
  "(\<And>a. x = Inr a \<Longrightarrow> yields B P I (f a) Q) \<Longrightarrow> yields B P I (bnd (lift_result x) f) Q"
  "(y = Inr () \<Longrightarrow> yields B P I k Q) \<Longrightarrow> yields B P I (sq (lift_result y) k) Q"
  "leads B P I k J Q \<Longrightarrow> leads B P I (sq (ret ()) k) J Q"
  by (auto simp: leads_def bnd_def sq_def gets_def ret_def lift_result_def split: sum.splits)

text \<open>What was read stays known until the state changes.\<close>

lemma leads_gets:
  "(\<And>a. leads B P (\<lambda>s. I s \<and> g s = a) (f a) J Q) \<Longrightarrow> leads B P I (bnd (gets g) f) J Q"
  by (auto simp: leads_def bnd_def gets_def)

lemma leads_pure:
  "(\<And>s. I s \<Longrightarrow> J s) \<Longrightarrow> Q a \<Longrightarrow> leads B P I (ret a) J Q"
  "(\<And>s. I s \<Longrightarrow> J s) \<Longrightarrow> leads B P I (fail e) J Q"
  "(\<And>s. I s \<Longrightarrow> J s) \<Longrightarrow> msg \<in> P \<Longrightarrow> leads B P I (panic msg) J Q"
  by (auto simp: leads_def ret_def fail_def panic_def)

lemma yields_if:
  "(c \<Longrightarrow> leads B P I m J Q) \<Longrightarrow> (\<not> c \<Longrightarrow> leads B P I k J Q) \<Longrightarrow> leads B P I (if c then m else k) J Q"
  by simp

lemma yields_option:
  "(x = None \<Longrightarrow> leads B P I m J Q) \<Longrightarrow> (\<And>a. x = Some a \<Longrightarrow> leads B P I (k a) J Q) \<Longrightarrow>
   leads B P I (case x of None \<Rightarrow> m | Some a \<Rightarrow> k a) J Q"
  by (cases x) auto

lemma yields_prod:
  "(\<And>a b. x = (a, b) \<Longrightarrow> leads B P I (k a b) J Q) \<Longrightarrow> leads B P I (case x of (a, b) \<Rightarrow> k a b) J Q"
  by (cases x) auto

lemmas yields_rules = yields_if yields_option yields_prod yields_bnd_pure yields_pure

locale step_relation =
  fixes R :: "'s \<Rightarrow> 's \<Rightarrow> bool"
  assumes rel_refl: "R s s"
    and rel_trans: "R s t \<Longrightarrow> R t u \<Longrightarrow> R s u"
begin

lemma keeps_pure: "keeps R (ret a)" "keeps R (fail e)" "keeps R (panic p)" "keeps R (gets f)"
    "keeps R (lift_result x)"
  by (auto simp: keeps_def ret_def fail_def panic_def gets_def lift_result_def rel_refl split: sum.split)

lemma keeps_bnd: "keeps R m \<Longrightarrow> (\<And>a. keeps R (f a)) \<Longrightarrow> keeps R (bnd m f)"
  unfolding keeps_def bnd_def
  by (auto split: prod.split outcome.split) (metis rel_trans snd_conv)+

lemma keeps_sq: "keeps R m \<Longrightarrow> keeps R k \<Longrightarrow> keeps R (sq m k)"
  unfolding sq_def by (rule keeps_bnd)

lemma keeps_if: "(c \<Longrightarrow> keeps R m) \<Longrightarrow> (\<not> c \<Longrightarrow> keeps R k) \<Longrightarrow> keeps R (if c then m else k)"
  by simp

lemma keeps_option:
  "(x = None \<Longrightarrow> keeps R m) \<Longrightarrow> (\<And>a. x = Some a \<Longrightarrow> keeps R (k a)) \<Longrightarrow>
   keeps R (case x of None \<Rightarrow> m | Some a \<Rightarrow> k a)"
  by (cases x) auto

lemma keeps_prod: "(\<And>a b. x = (a, b) \<Longrightarrow> keeps R (k a b)) \<Longrightarrow> keeps R (case x of (a, b) \<Rightarrow> k a b)"
  by (cases x) auto

lemmas keeps_rules = keeps_pure keeps_bnd keeps_sq keeps_if keeps_option keeps_prod

end

locale guarded = step_relation R for R :: "'s \<Rightarrow> 's \<Rightarrow> bool" +
  fixes B :: "'s \<Rightarrow> bool"
  assumes guard_back: "R s t \<Longrightarrow> B t \<Longrightarrow> B s"
begin

lemma leads_bnd:
  assumes m: "leads B P I m K Q" and f: "\<And>a. Q a \<Longrightarrow> leads B P K (f a) J Q'"
    and kept: "\<And>a. keeps R (f a)" and stop: "\<And>s. K s \<Longrightarrow> J s"
  shows "leads B P I (bnd m f) J Q'"
proof (rule leadsI)
  fix s r t assume run: "bnd m f s = (r, t)" and B: "B t" and "I s"
  obtain r' s' where ms: "m s = (r', s')" by (cases "m s")
  have cont: "r' = Ok a \<Longrightarrow> f a s' = (r, t)" for a
    using run ms by (simp add: bnd_def)
  have "B s'"
  proof (cases r')
    case (Ok a)
    with cont guard_back [OF keepsD [OF kept] B] show ?thesis by blast
  qed (use run ms B in \<open>auto simp: bnd_def\<close>)
  with m ms \<open>I s\<close> have *: "K s'" "\<And>a. r' = Ok a \<Longrightarrow> Q a" "\<And>p. r' = Panic p \<Longrightarrow> p \<in> P"
    unfolding leads_def by blast+
  show "J t \<and> (\<forall>a. r = Ok a \<longrightarrow> Q' a) \<and> (\<forall>p. r = Panic p \<longrightarrow> p \<in> P)"
  proof (cases r')
    case (Ok a)
    with cont *(1,2) f [of a] B show ?thesis unfolding leads_def by blast
  qed (use run ms * stop in \<open>auto simp: bnd_def\<close>)
qed

lemma leads_sq:
  "leads B P I m K (\<lambda>_. True) \<Longrightarrow> leads B P K k J Q \<Longrightarrow> keeps R k \<Longrightarrow> (\<And>s. K s \<Longrightarrow> J s) \<Longrightarrow> leads B P I (sq m k) J Q"
  unfolding sq_def by (rule leads_bnd)

text \<open>A call that cannot fail needs to say nothing of what holds when it does.\<close>

lemma leads_sq_total:
  assumes m: "leads B P I m K (\<lambda>_. True)" and k: "leads B P K k J Q" and kept: "keeps R k"
    and total: "\<And>s. fst (m s) = Ok ()"
  shows "leads B P I (sq m k) J Q"
proof (rule leadsI)
  fix s r t assume run: "sq m k s = (r, t)" and B: "B t" and "I s"
  obtain s' where ms: "m s = (Ok (), s')" using total [of s] by (cases "m s") simp
  then have "k s' = (r, t)" using run by (simp add: run_sq)
  note run_k = this
  have "B s'" by (rule guard_back [OF keepsD [OF kept run_k] B])
  then have "K s'" by (rule leadsD(1) [OF m ms _ \<open>I s\<close>])
  then show "J t \<and> (\<forall>a. r = Ok a \<longrightarrow> Q a) \<and> (\<forall>p. r = Panic p \<longrightarrow> p \<in> P)"
    using leadsD [OF k run_k B] by simp
qed

lemma yields_bnd:
  "yields B P I m Q \<Longrightarrow> (\<And>a. Q a \<Longrightarrow> yields B P I (f a) Q') \<Longrightarrow> (\<And>a. keeps R (f a)) \<Longrightarrow> yields B P I (bnd m f) Q'"
  by (rule leads_bnd)

lemma yields_sq:
  "yields B P I m (\<lambda>_. True) \<Longrightarrow> yields B P I k Q \<Longrightarrow> keeps R k \<Longrightarrow> yields B P I (sq m k) Q"
  by (rule leads_sq)

end

section \<open>Little-endian encoding\<close>

text \<open>\<open>u64::to_le_bytes\<close>: eight bytes, least significant first.\<close>

definition le_bytes :: "u64 \<Rightarrow> bytes" where
  "le_bytes w = map (\<lambda>i. ucast (drop_bit (8 * i) w)) [0..<8]"

lemma length_le_bytes [simp]: "length (le_bytes w) = 8"
  by (simp add: le_bytes_def)

lemma bit_le_bytes: "n < 64 \<Longrightarrow> bit w n = bit (le_bytes w ! (n div 8)) (n mod 8)"
  by (simp add: le_bytes_def bit_ucast_iff bit_drop_bit_eq less_mult_imp_div_less)

lemma le_bytes_inj [simp]: "le_bytes v = le_bytes w \<longleftrightarrow> v = w"
proof
  assume eq: "le_bytes v = le_bytes w"
  show "v = w"
  proof (rule bit_word_eqI)
    fix n assume "n < LENGTH(64)"
    then have n: "n < 64" by simp
    show "bit v n = bit w n"
      by (simp add: bit_le_bytes [OF n] eq)
  qed
qed simp

section \<open>Lists and maps\<close>

lemma concat_inj:
  assumes "\<And>x. x \<in> set xs \<union> set ys \<Longrightarrow> length (f x) = n" and "0 < n"
    and "concat (map f xs) = concat (map f ys)"
  shows "map f xs = map f ys"
  using assms
proof (induction xs arbitrary: ys)
  case Nil
  then show ?case by (cases ys) auto
next
  case (Cons x xs)
  have "f x \<noteq> []" using Cons.prems(1) [of x] Cons.prems(2) by auto
  then obtain y zs where ys: "ys = y # zs"
    using Cons.prems(3) by (cases ys) auto
  have "f x = f y \<and> concat (map f xs) = concat (map f zs)"
    using Cons.prems by (simp add: ys append_eq_append_conv)
  with Cons show ?case by (simp add: ys)
qed

lemma length_concat_const:
  "(\<And>x. x \<in> set xs \<Longrightarrow> length (f x) = n) \<Longrightarrow> length (concat (map f xs)) = n * length xs"
  by (induction xs) auto

text \<open>Sums of machine integers that do not overflow.\<close>

lemma unat_add_no_overflow:
  fixes a b :: "'w::len word"
  assumes "unat a + unat b < 2 ^ LENGTH('w)"
  shows "unat (a + b) = unat a + unat b"
  using assms by (simp add: unat_word_ariths)

lemma unat_of_nat_small: "n < 2 ^ LENGTH('w) \<Longrightarrow> unat (of_nat n :: 'w::len word) = n"
  by (simp add: unsigned_of_nat take_bit_nat_eq_self)

lemma unat_sum_list:
  fixes ws :: "'w::len word list"
  assumes "sum_list (map unat ws) < 2 ^ LENGTH('w)"
  shows "unat (sum_list ws) = sum_list (map unat ws)"
  using assms by (induction ws) (simp_all add: unat_add_no_overflow)

lemma sum_list_map_distinct:
  assumes "distinct (map fst xs)"
  shows "(\<Sum>k\<in>set (map fst xs). case map_of xs k of None \<Rightarrow> 0 | Some v \<Rightarrow> f v)
     = sum_list (map (\<lambda>(k, v). f v) xs)"
  using assms
proof (induction xs)
  case Nil
  then show ?case by simp
next
  case (Cons x xs)
  obtain k v where x: "x = (k, v)" by (cases x)
  have "(\<Sum>j\<in>set (map fst xs). case map_of (x # xs) j of None \<Rightarrow> 0 | Some v \<Rightarrow> f v)
      = (\<Sum>j\<in>set (map fst xs). case map_of xs j of None \<Rightarrow> 0 | Some v \<Rightarrow> f v)"
    using Cons.prems by (intro sum.cong) (auto simp: x)
  with Cons show ?case by (simp add: x)
qed

lemma distinct_map_of_mem:
  "distinct (map fst xs) \<Longrightarrow> (k, v) \<in> set xs \<longleftrightarrow> map_of xs k = Some v"
  by (auto dest: map_of_SomeD)

end
