(* ===== verification/Crypto.thy ===== *)
theory Crypto
  imports Prelude "HOL-Library.List_Lexorder"
begin

text \<open>
  \<open>crypto/src/lib.rs\<close>: digests, public keys, secret keys and signatures, the two signature checks
  (\<open>Signature::verify\<close> and \<open>Signature::verify_batch\<close>), the signature service, and the base64 text
  form of keys. The crates \<open>ed25519_dalek\<close> (with its SHA-512) and \<open>base64\<close> are parameters: a
  record of the functions the code calls, whose values of type \<open>'k\<close> are dalek's own signature,
  public-key and keypair objects.
\<close>

section \<open>Data\<close>

datatype digest = Digest (digest_bytes: bytes)

datatype public_key = PublicKey (public_key_bytes: bytes)

datatype secret_key = SecretKey (secret_key_bytes: bytes)

record signature =
  part1 :: bytes
  part2 :: bytes

definition digest_default :: digest where
  "digest_default = Digest (replicate 32 0)"

definition public_key_default :: public_key where
  "public_key_default = PublicKey (replicate 32 0)"

definition signature_default :: signature where
  "signature_default = \<lparr>part1 = replicate 32 0, part2 = replicate 32 0\<rparr>"

text \<open>The array lengths of the Rust types, as predicates.\<close>

definition digest_wf :: "digest \<Rightarrow> bool" where
  "digest_wf d \<longleftrightarrow> length (digest_bytes d) = 32"

definition public_key_wf :: "public_key \<Rightarrow> bool" where
  "public_key_wf k \<longleftrightarrow> length (public_key_bytes k) = 32"

definition signature_wf :: "signature \<Rightarrow> bool" where
  "signature_wf s \<longleftrightarrow> length (part1 s) = 32 \<and> length (part2 s) = 32"

text \<open>\<open>PublicKey\<close> derives \<open>Ord\<close>: the lexicographic order of its bytes.\<close>

instantiation public_key :: linorder
begin

definition less_eq_public_key :: "public_key \<Rightarrow> public_key \<Rightarrow> bool" where
  "less_eq_public_key k l \<longleftrightarrow> public_key_bytes k \<le> public_key_bytes l"

definition less_public_key :: "public_key \<Rightarrow> public_key \<Rightarrow> bool" where
  "less_public_key k l \<longleftrightarrow> public_key_bytes k < public_key_bytes l"

instance
  by standard
    (auto simp: less_eq_public_key_def less_public_key_def less_le_not_le
      intro: public_key.expand)

end

text \<open>\<open>impl TryFrom<&[u8]> for Digest\<close>: the slice must have 32 bytes.\<close>

definition digest_try_from :: "bytes \<Rightarrow> digest option" where
  "digest_try_from item = (if length item = 32 then Some (Digest item) else None)"

section \<open>The dalek and base64 crates\<close>

datatype crypto_error = CryptoError

record 'k dalek =
  sha512 :: "bytes \<Rightarrow> bytes"
  sig_from_bytes :: "bytes \<Rightarrow> crypto_error + 'k"
  pk_from_bytes :: "bytes \<Rightarrow> crypto_error + 'k"
  verify_strict :: "'k \<Rightarrow> bytes \<Rightarrow> 'k \<Rightarrow> crypto_error + unit"
  dalek_verify_batch :: "bytes list \<Rightarrow> 'k list \<Rightarrow> 'k list \<Rightarrow> crypto_error + unit"
  keypair_from_bytes :: "bytes \<Rightarrow> crypto_error + 'k"
  keypair_sign :: "'k \<Rightarrow> bytes \<Rightarrow> bytes"

text \<open>\<open>base64::DecodeError\<close> and the two functions of the crate.\<close>

datatype decode_error = InvalidByte nat u8 | InvalidLength | InvalidLastSymbol nat u8

record base64 =
  b64_encode :: "bytes \<Rightarrow> string"
  b64_decode :: "string \<Rightarrow> decode_error + bytes"

text \<open>
  \<open>Digest(hasher.finalize().as_slice()[..32].try_into().unwrap())\<close>: the first 32 bytes of the
  64 that SHA-512 yields.
\<close>

definition hash32 :: "'k dalek \<Rightarrow> bytes \<Rightarrow> digest" where
  "hash32 D m = Digest (take 32 (sha512 D m))"

section \<open>Signatures\<close>

definition flatten :: "signature \<Rightarrow> bytes" where
  "flatten s = part1 s @ part2 s"

text \<open>\<open>Signature::new\<close>; \<open>None\<close> is the panic "Unable to load secret key".\<close>

definition signature_new :: "'k dalek \<Rightarrow> digest \<Rightarrow> secret_key \<Rightarrow> signature option" where
  "signature_new D d secret =
     (case keypair_from_bytes D (secret_key_bytes secret) of
        Inl _ \<Rightarrow> None
      | Inr keypair \<Rightarrow>
          (let sig = keypair_sign D keypair (digest_bytes d)
           in Some \<lparr>part1 = take 32 sig, part2 = take 32 (drop 32 sig)\<rparr>))"

definition signature_verify ::
    "'k dalek \<Rightarrow> signature \<Rightarrow> digest \<Rightarrow> public_key \<Rightarrow> crypto_error + unit" where
  "signature_verify D s d k =
     and_then (sig_from_bytes D (flatten s)) (\<lambda>signature.
     and_then (pk_from_bytes D (public_key_bytes k)) (\<lambda>key.
     verify_strict D key (digest_bytes d) signature))"

fun batch_collect ::
    "'k dalek \<Rightarrow> digest \<Rightarrow> (public_key \<times> signature) list \<Rightarrow> bytes list \<Rightarrow> 'k list \<Rightarrow> 'k list \<Rightarrow>
     crypto_error + bytes list \<times> 'k list \<times> 'k list" where
  "batch_collect D d [] messages signatures keys = Inr (messages, signatures, keys)"
| "batch_collect D d ((key, sig) # votes) messages signatures keys =
     and_then (sig_from_bytes D (flatten sig)) (\<lambda>s.
     and_then (pk_from_bytes D (public_key_bytes key)) (\<lambda>k.
     batch_collect D d votes (messages @ [digest_bytes d]) (signatures @ [s]) (keys @ [k])))"

definition verify_batch ::
    "'k dalek \<Rightarrow> digest \<Rightarrow> (public_key \<times> signature) list \<Rightarrow> crypto_error + unit" where
  "verify_batch D d votes =
     and_then (batch_collect D d votes [] [] []) (\<lambda>(messages, signatures, keys).
     dalek_verify_batch D messages signatures keys)"

text \<open>
  \<open>SignatureService::request_signature\<close>: the task of \<open>SignatureService::new\<close> answers each request
  with \<open>Signature::new(&digest, &secret)\<close>; if that panics the task is gone and so is the requester
  (\<open>None\<close>).
\<close>

definition request_signature :: "'k dalek \<Rightarrow> secret_key \<Rightarrow> digest \<Rightarrow> signature option" where
  "request_signature D secret d = signature_new D d secret"

section \<open>Text form of keys\<close>

definition public_key_encode_base64 :: "base64 \<Rightarrow> public_key \<Rightarrow> string" where
  "public_key_encode_base64 B k = b64_encode B (public_key_bytes k)"

text \<open>
  \<open>bytes[..32]\<close> panics on fewer than 32 bytes; on 32 or more, \<open>try_into\<close> of the 32-byte slice
  cannot fail, so the \<open>map_err\<close> after it is dead.
\<close>

definition public_key_decode_base64 :: "base64 \<Rightarrow> string \<Rightarrow> (decode_error, public_key) outcome" where
  "public_key_decode_base64 B s =
     (case b64_decode B s of
        Inl e \<Rightarrow> Err e
      | Inr bs \<Rightarrow>
          if length bs < 32 then Panic ''range end index out of range''
          else Ok (PublicKey (take 32 bs)))"

definition secret_key_encode_base64 :: "base64 \<Rightarrow> secret_key \<Rightarrow> string" where
  "secret_key_encode_base64 B k = b64_encode B (secret_key_bytes k)"

definition secret_key_decode_base64 :: "base64 \<Rightarrow> string \<Rightarrow> (decode_error, secret_key) outcome" where
  "secret_key_decode_base64 B s =
     (case b64_decode B s of
        Inl e \<Rightarrow> Err e
      | Inr bs \<Rightarrow>
          if length bs < 64 then Panic ''range end index out of range''
          else Ok (SecretKey (take 64 bs)))"

section \<open>Lemmas\<close>

lemma length_flatten: "signature_wf s \<Longrightarrow> length (flatten s) = 64"
  by (simp add: signature_wf_def flatten_def)

lemma flatten_inj:
  "signature_wf s \<Longrightarrow> signature_wf t \<Longrightarrow> flatten s = flatten t \<Longrightarrow> s = t"
  by (auto simp: signature_wf_def flatten_def intro!: signature.equality)

lemma flatten_signature_new:
  assumes "signature_new D d sk = Some s"
    and "keypair_from_bytes D (secret_key_bytes sk) = Inr kp"
    and "length (keypair_sign D kp (digest_bytes d)) = 64"
  shows "flatten s = keypair_sign D kp (digest_bytes d)" and "signature_wf s"
proof -
  let ?sig = "keypair_sign D kp (digest_bytes d)"
  have s: "s = \<lparr>part1 = take 32 ?sig, part2 = take 32 (drop 32 ?sig)\<rparr>"
    using assms(1,2) by (simp add: signature_new_def Let_def)
  have "take 32 (drop 32 ?sig) = drop 32 ?sig" using assms(3) by simp
  then show "flatten s = ?sig" by (simp add: s flatten_def)
  show "signature_wf s" using assms(3) by (simp add: s signature_wf_def)
qed

lemma batch_collect_Inr:
  assumes "batch_collect D d votes ms ss ks = Inr (ms', ss', ks')"
  shows "\<exists>sigs keys. ms' = ms @ map (\<lambda>_. digest_bytes d) votes \<and> ss' = ss @ sigs \<and> ks' = ks @ keys
    \<and> list_all2 (\<lambda>(_, sg) s. sig_from_bytes D (flatten sg) = Inr s) votes sigs
    \<and> list_all2 (\<lambda>(pk, _) k. pk_from_bytes D (public_key_bytes pk) = Inr k) votes keys"
  using assms
proof (induction votes arbitrary: ms ss ks)
  case Nil
  then show ?case by simp
next
  case (Cons v votes)
  obtain pk sg where v: "v = (pk, sg)" by (cases v)
  from Cons.prems obtain s k where sk: "sig_from_bytes D (flatten sg) = Inr s"
      "pk_from_bytes D (public_key_bytes pk) = Inr k"
    and rest: "batch_collect D d votes (ms @ [digest_bytes d]) (ss @ [s]) (ks @ [k]) = Inr (ms', ss', ks')"
    by (auto simp: v)
  from Cons.IH [OF rest] obtain sigs keys where
      "ms' = (ms @ [digest_bytes d]) @ map (\<lambda>_. digest_bytes d) votes"
      "ss' = (ss @ [s]) @ sigs" "ks' = (ks @ [k]) @ keys"
      "list_all2 (\<lambda>(_, sg) s. sig_from_bytes D (flatten sg) = Inr s) votes sigs"
      "list_all2 (\<lambda>(pk, _) k. pk_from_bytes D (public_key_bytes pk) = Inr k) votes keys"
    by blast
  then show ?case
    by (intro exI [of _ "s # sigs"] exI [of _ "k # keys"]) (simp add: v sk)
qed

lemma batch_collect_Inl:
  assumes "batch_collect D d votes ms ss ks = Inl e"
  shows "\<exists>(pk, sg) \<in> set votes.
    (\<exists>e. sig_from_bytes D (flatten sg) = Inl e) \<or> (\<exists>e. pk_from_bytes D (public_key_bytes pk) = Inl e)"
  using assms
proof (induction votes arbitrary: ms ss ks)
  case Nil
  then show ?case by simp
next
  case (Cons v votes)
  obtain pk sg where v: "v = (pk, sg)" by (cases v)
  show ?case
    using Cons
    by (cases "sig_from_bytes D (flatten sg)"; cases "pk_from_bytes D (public_key_bytes pk)")
      (auto simp: v)
qed

lemma signature_verify_parses:
  "signature_verify D s d k = Inr () \<Longrightarrow>
   \<exists>sg key. sig_from_bytes D (flatten s) = Inr sg \<and> pk_from_bytes D (public_key_bytes k) = Inr key
     \<and> verify_strict D key (digest_bytes d) sg = Inr ()"
  by (auto simp: signature_verify_def)

end
