(* ===== verification/Config.thy ===== *)
theory Config
  imports Crypto "HOL-Library.Multiset"
begin

text \<open>
  \<open>consensus/src/config.rs\<close>: the committee with its stakes, the quorum threshold and the address
  lookups. A \<open>HashMap\<close> is a list of pairs, its order standing for the unspecified iteration order;
  what depends on that order and what does not is proved. Stakes are \<open>u32\<close>, so the threshold
  wraps around. The quorum arithmetic that the certificates rest on is the locale \<open>stake_system\<close>.
\<close>

section \<open>Quorums of weighted members\<close>

locale stake_system =
  fixes ok :: "'c \<Rightarrow> bool"
    and members :: "'c \<Rightarrow> 'a set"
    and weight :: "'c \<Rightarrow> 'a \<Rightarrow> nat"
    and threshold :: "'c \<Rightarrow> nat"
  assumes finite_members: "ok c \<Longrightarrow> finite (members c)"
    and weight_outside: "ok c \<Longrightarrow> a \<notin> members c \<Longrightarrow> weight c a = 0"
    and two_thirds: "ok c \<Longrightarrow> 2 * (\<Sum>a\<in>members c. weight c a) < 3 * threshold c"
    and reachable_threshold:
      "ok c \<Longrightarrow> 0 < (\<Sum>a\<in>members c. weight c a) \<Longrightarrow> threshold c \<le> (\<Sum>a\<in>members c. weight c a)"
begin

lemma weight_restrict:
  assumes "ok c" and "finite A"
  shows "(\<Sum>a\<in>A. weight c a) = (\<Sum>a\<in>A \<inter> members c. weight c a)"
  using assms by (intro sum.mono_neutral_right) (auto simp: weight_outside)

lemma weight_le_total:
  assumes "ok c" and "finite A"
  shows "(\<Sum>a\<in>A. weight c a) \<le> (\<Sum>a\<in>members c. weight c a)"
  unfolding weight_restrict [OF assms] using assms by (intro sum_mono2) (auto simp: finite_members)

text \<open>Two quorums share more than a third of the stake, so a member outside any smaller set.\<close>

lemma quorum_intersection:
  assumes ok: "ok c" and fin: "finite A" "finite B" "finite F"
    and A: "threshold c \<le> (\<Sum>a\<in>A. weight c a)" and B: "threshold c \<le> (\<Sum>a\<in>B. weight c a)"
    and F: "3 * (\<Sum>a\<in>F. weight c a) < (\<Sum>a\<in>members c. weight c a)"
  shows "\<exists>a. a \<in> A \<and> a \<in> B \<and> a \<notin> F \<and> 0 < weight c a"
proof (rule ccontr)
  assume none: "\<not> ?thesis"
  let ?w = "\<lambda>S. \<Sum>a\<in>S. weight c a"
  have "?w (A \<inter> B) = ?w (A \<inter> B \<inter> F)"
    using fin none by (intro sum.mono_neutral_right) auto
  also have "\<dots> \<le> ?w F" using fin by (intro sum_mono2) auto
  finally have inter: "?w (A \<inter> B) \<le> ?w F" .
  have "?w A + ?w B = ?w (A \<union> B) + ?w (A \<inter> B)"
    using fin by (simp add: sum.union_inter)
  moreover have "?w (A \<union> B) \<le> ?w (members c)"
    using ok fin by (simp add: weight_le_total)
  ultimately show False using A B F inter two_thirds [OF ok] by linarith
qed

text \<open>After a quorum is set aside, what remains is no quorum.\<close>

lemma no_second_quorum:
  assumes ok: "ok c" and fin: "finite A" "finite B" and disj: "A \<inter> B = {}"
    and A: "threshold c \<le> (\<Sum>a\<in>A. weight c a)"
  shows "(\<Sum>a\<in>B. weight c a) < threshold c"
proof -
  have "(\<Sum>a\<in>A. weight c a) + (\<Sum>a\<in>B. weight c a) = (\<Sum>a\<in>A \<union> B. weight c a)"
    using fin disj by (simp add: sum.union_disjoint)
  also have "\<dots> \<le> (\<Sum>a\<in>members c. weight c a)" using ok fin by (simp add: weight_le_total)
  finally show ?thesis using A two_thirds [OF ok] by linarith
qed

end

section \<open>The committee of the consensus\<close>

type_synonym stake = u32

text \<open>\<open>Parameters\<close> and its defaults.\<close>

record parameters =
  timeout_delay :: u64
  sync_retry_delay :: u64

definition parameters_default :: parameters where
  "parameters_default = \<lparr>timeout_delay = 5000, sync_retry_delay = 10000\<rparr>"

record authority =
  authority_stake :: stake
  authority_address :: socket_addr

record committee =
  authorities :: "(public_key \<times> authority) list"
  epoch :: u128

definition committee_new :: "(public_key \<times> stake \<times> socket_addr) list \<Rightarrow> u128 \<Rightarrow> committee" where
  "committee_new info ep =
     \<lparr>authorities = fold (\<lambda>(name, stake, address).
        AList.update name \<lparr>authority_stake = stake, authority_address = address\<rparr>) info [],
      epoch = ep\<rparr>"

definition committee_size :: "committee \<Rightarrow> nat" where
  "committee_size c = length (authorities c)"

definition stake :: "committee \<Rightarrow> public_key \<Rightarrow> stake" where
  "stake c name = (case map_of (authorities c) name of None \<Rightarrow> 0 | Some x \<Rightarrow> authority_stake x)"

definition quorum_threshold :: "committee \<Rightarrow> stake" where
  "quorum_threshold c =
     (let total_votes = sum_list (map (\<lambda>(_, x). authority_stake x) (authorities c))
      in 2 * total_votes div 3 + 1)"

definition address :: "committee \<Rightarrow> public_key \<Rightarrow> socket_addr option" where
  "address c name = map_option authority_address (map_of (authorities c) name)"

definition broadcast_addresses :: "committee \<Rightarrow> public_key \<Rightarrow> (public_key \<times> socket_addr) list" where
  "broadcast_addresses c myself =
     map (\<lambda>(name, x). (name, authority_address x))
       (filter (\<lambda>(name, x). name \<noteq> myself) (authorities c))"

section \<open>Well-formed committees\<close>

definition names :: "committee \<Rightarrow> public_key set" where
  "names c = fst ` set (authorities c)"

definition total_stake :: "committee \<Rightarrow> nat" where
  "total_stake c = sum_list (map (\<lambda>(_, x). unat (authority_stake x)) (authorities c))"

text \<open>
  Distinct names (what a \<open>HashMap\<close> guarantees) and a total stake for which \<open>2 * total_votes\<close> does not
  overflow \<open>u32\<close> (what the code silently relies on).
\<close>

definition committee_ok :: "committee \<Rightarrow> bool" where
  "committee_ok c \<longleftrightarrow> distinct (map fst (authorities c)) \<and> 2 * total_stake c < 2 ^ 32"

lemma committee_new_distinct: "distinct (map fst (authorities (committee_new info ep)))"
proof -
  have "distinct (map fst (fold (\<lambda>(name, stake, address).
      AList.update name \<lparr>authority_stake = stake, authority_address = address\<rparr>) info xs))"
    if "distinct (map fst xs)" for xs :: "(public_key \<times> authority) list"
    using that by (induction info arbitrary: xs) (auto simp: distinct_update)
  then show ?thesis by (simp add: committee_new_def)
qed

lemma names_address: "b \<in> names C \<Longrightarrow> \<exists>addr. address C b = Some addr"
  using map_of_eq_None_iff [of "authorities C" b] by (auto simp: names_def address_def)

lemma stake_outside: "a \<notin> names c \<Longrightarrow> stake c a = 0"
  by (auto simp: names_def stake_def dest: map_of_SomeD split: option.split)
    (metis fst_conv image_eqI map_of_SomeD)

lemma stake_pos_names: "0 < stake c a \<Longrightarrow> a \<in> names c"
  using stake_outside [of a c] by fastforce

lemma sum_stake_names:
  assumes "distinct (map fst (authorities c))"
  shows "(\<Sum>a\<in>names c. unat (stake c a)) = total_stake c"
proof -
  have "(\<Sum>a\<in>names c. unat (stake c a))
      = (\<Sum>a\<in>set (map fst (authorities c)).
          case map_of (authorities c) a of None \<Rightarrow> 0 | Some x \<Rightarrow> unat (authority_stake x))"
    by (auto simp: names_def stake_def intro!: sum.cong split: option.split)
  also have "\<dots> = total_stake c"
    unfolding total_stake_def by (rule sum_list_map_distinct [OF assms])
  finally show ?thesis .
qed

lemma unat_sum_list_mod: "unat (sum_list (ws :: u32 list)) = sum_list (map unat ws) mod 2 ^ 32"
proof (induction ws)
  case (Cons w ws)
  then show ?case by (simp add: unat_word_ariths mod_simps)
qed simp

lemma unat_threshold_mod: "unat (quorum_threshold c) = 2 * total_stake c mod 2 ^ 32 div 3 + 1"
proof -
  let ?t = "sum_list (map (\<lambda>(_, x). authority_stake x) (authorities c))"
  have "unat ?t = total_stake c mod 2 ^ 32"
    by (simp only: unat_sum_list_mod) (simp add: total_stake_def case_prod_unfold comp_def)
  then have "unat (2 * ?t) = 2 * total_stake c mod 2 ^ 32"
    by (simp add: unat_word_ariths mod_mult_right_eq)
  then have d: "unat (2 * ?t div 3) = 2 * total_stake c mod 2 ^ 32 div 3"
    by (simp add: unat_div)
  have "2 * total_stake c mod 2 ^ 32 < 2 ^ 32" by simp
  then have "unat (2 * ?t div 3) + 1 < 2 ^ 32" unfolding d by simp
  then show ?thesis using d by (simp add: quorum_threshold_def unat_add_no_overflow)
qed

lemma unat_quorum_threshold:
  assumes "2 * total_stake c < 2 ^ 32"
  shows "unat (quorum_threshold c) = 2 * total_stake c div 3 + 1"
  using assms unat_threshold_mod [of c] by simp

lemma quorum_threshold_pos: "0 < unat (quorum_threshold c)"
proof -
  let ?t = "sum_list (map (\<lambda>(_, x). authority_stake x) (authorities c))"
  have "unat (2 * ?t) < 2 ^ 32" using unsigned_less [of "2 * ?t"] by simp
  then have "unat (2 * ?t div 3) + 1 < 2 ^ 32" by (simp add: unat_div)
  then show ?thesis by (simp add: quorum_threshold_def unat_add_no_overflow)
qed

interpretation qs: stake_system committee_ok names "\<lambda>c a. unat (stake c a)"
    "\<lambda>c. unat (quorum_threshold c)"
proof unfold_locales
  fix c :: committee assume ok: "committee_ok c"
  then have total: "(\<Sum>a\<in>names c. unat (stake c a)) = total_stake c"
    by (simp add: committee_ok_def sum_stake_names)
  from ok have th: "unat (quorum_threshold c) = 2 * total_stake c div 3 + 1"
    by (simp add: committee_ok_def unat_quorum_threshold)
  show "finite (names c)" by (simp add: names_def)
  show "2 * (\<Sum>a\<in>names c. unat (stake c a)) < 3 * unat (quorum_threshold c)"
    unfolding total th by presburger
  assume "0 < (\<Sum>a\<in>names c. unat (stake c a))"
  then show "unat (quorum_threshold c) \<le> (\<Sum>a\<in>names c. unat (stake c a))"
    unfolding total th by presburger
qed (simp add: stake_outside)

section \<open>Properties\<close>

lemma threshold_formula: "0 < (n::nat) \<Longrightarrow> 2 * n div 3 + 1 = n - (n - 1) div 3"
proof -
  assume "0 < n"
  define q r where "q = (n - 1) div 3" and "r = (n - 1) mod 3"
  have "n - 1 = 3 * q + r" unfolding q_def r_def by (rule mult_div_mod_eq [symmetric])
  with \<open>0 < n\<close> have n: "n = 3 * q + r + 1" by linarith
  have "r < 3" by (simp add: r_def)
  then consider "r = 0" | "r = 1" | "r = 2" by linarith
  then have "(2 * r + 2) div 3 = r" by cases simp_all
  moreover have "2 * n div 3 = 2 * q + (2 * r + 2) div 3"
    by (simp add: n distrib_left flip: div_mult_self3 [of 3 "2 * r + 2" "2 * q"])
  ultimately show ?thesis using \<open>n - 1 = 3 * q + r\<close> n by (simp flip: q_def)
qed

text \<open>
  C17. The threshold is what its comment claims: with total stake \<open>N\<close> it equals \<open>N - f\<close> for
  \<open>f = (N - 1) div 3\<close>, the largest number of faults below a third, it does not depend on the
  iteration order of the map, and two sets of authorities that reach it share an authority that is
  not among any set of authorities holding less than a third of the stake.
\<close>

theorem quorum_threshold_spec:
  assumes "committee_ok c" and "0 < total_stake c"
  shows "unat (quorum_threshold c) = total_stake c - (total_stake c - 1) div 3
    \<and> (\<forall>c' :: committee. mset (authorities c') = mset (authorities c) \<longrightarrow>
          quorum_threshold c' = quorum_threshold c)
    \<and> (\<forall>A B F. finite A \<and> finite B \<and> finite F
         \<and> unat (quorum_threshold c) \<le> (\<Sum>a\<in>A. unat (stake c a))
         \<and> unat (quorum_threshold c) \<le> (\<Sum>a\<in>B. unat (stake c a))
         \<and> 3 * (\<Sum>a\<in>F. unat (stake c a)) < total_stake c
         \<longrightarrow> (\<exists>a. a \<in> A \<and> a \<in> B \<and> a \<notin> F \<and> 0 < stake c a))"
proof (intro conjI allI impI)
  have "unat (quorum_threshold c) = 2 * total_stake c div 3 + 1"
    using assms(1) by (simp add: committee_ok_def unat_quorum_threshold)
  then show "unat (quorum_threshold c) = total_stake c - (total_stake c - 1) div 3"
    using threshold_formula [OF assms(2)] by simp
next
  fix c' :: committee assume "mset (authorities c') = mset (authorities c)"
  then have "sum_mset (image_mset (\<lambda>(_, x). authority_stake x) (mset (authorities c')))
      = sum_mset (image_mset (\<lambda>(_, x). authority_stake x) (mset (authorities c)))"
    by simp
  then show "quorum_threshold c' = quorum_threshold c"
    by (simp add: quorum_threshold_def sum_mset_sum_list flip: mset_map)
next
  fix A B F
  assume h: "finite A \<and> finite B \<and> finite F
      \<and> unat (quorum_threshold c) \<le> (\<Sum>a\<in>A. unat (stake c a))
      \<and> unat (quorum_threshold c) \<le> (\<Sum>a\<in>B. unat (stake c a))
      \<and> 3 * (\<Sum>a\<in>F. unat (stake c a)) < total_stake c"
  have total: "(\<Sum>a\<in>names c. unat (stake c a)) = total_stake c"
    using assms(1) by (simp add: committee_ok_def sum_stake_names)
  have "\<exists>a. a \<in> A \<and> a \<in> B \<and> a \<notin> F \<and> 0 < unat (stake c a)"
    using h assms(1) by (intro qs.quorum_intersection) (simp_all add: total)
  then show "\<exists>a. a \<in> A \<and> a \<in> B \<and> a \<notin> F \<and> 0 < stake c a"
    by (auto simp: word_less_nat_alt)
qed

text \<open>A committee for the witnesses: authorities 1 to \<open>n\<close>, of stake 1 each.\<close>

definition test_key :: "u8 \<Rightarrow> public_key" where
  "test_key i = PublicKey (i # replicate 31 0)"

lemma test_key_eq [simp]: "test_key i = test_key j \<longleftrightarrow> i = j"
  by (simp add: test_key_def)

definition test_committee :: committee where
  "test_committee =
     committee_new (map (\<lambda>i. (test_key i, 1, ([127, 0, 0, 1], ucast i))) [1, 2, 3, 4]) 1"

lemma test_committee_authorities:
  "authorities test_committee =
     map (\<lambda>i. (test_key i, \<lparr>authority_stake = 1, authority_address = ([127, 0, 0, 1], ucast i)\<rparr>))
       [1, 2, 3, 4]"
  by (simp add: test_committee_def committee_new_def test_key_def)

lemma test_committee_ok: "committee_ok test_committee" and test_committee_total: "total_stake test_committee = 4"
  by (simp_all add: committee_ok_def total_stake_def test_committee_authorities test_key_def)

theorem quorum_threshold_spec_witness: "unat (quorum_threshold test_committee) = 3"
  using conjunct1 [OF quorum_threshold_spec [OF test_committee_ok]]
  by (simp add: test_committee_total)

lemma third_less: "m + k \<le> n \<Longrightarrow> 3 \<le> k \<Longrightarrow> m div 3 < n div (3 :: nat)"
  using div_le_mono [of "m + 3" n 3] by simp

text \<open>
  C35. The exact domain of the threshold. The arithmetic is in \<open>u32\<close> and unchecked: the threshold is a third of twice the total stake,
  modulo \<open>2 ^ 32\<close>, plus one, so that it is the intended one if and only if the total stake is below \<open>2 ^ 31\<close>. From there on it
  is too low: a committee whose stakes sum to \<open>2 ^ 31\<close> has threshold 1, so that any two of its members, each alone, reach it, and
  quorums need not intersect.
\<close>

theorem quorum_threshold_domain:
  "unat (quorum_threshold c) = 2 * total_stake c mod 2 ^ 32 div 3 + 1
    \<and> (unat (quorum_threshold c) = 2 * total_stake c div 3 + 1 \<longleftrightarrow> total_stake c < 2 ^ 31)
    \<and> (2 ^ 31 \<le> total_stake c \<longrightarrow> unat (quorum_threshold c) < 2 * total_stake c div 3 + 1)
    \<and> (total_stake c = 2 ^ 31 \<longrightarrow> (\<forall>a. 0 < stake c a \<longrightarrow> quorum_threshold c \<le> stake c a))"
proof -
  have th: "unat (quorum_threshold c) = 2 * total_stake c mod 2 ^ 32 div 3 + 1"
    by (rule unat_threshold_mod)
  have low: "2 * total_stake c mod 2 ^ 32 div 3 < 2 * total_stake c div 3" if "2 ^ 31 \<le> total_stake c"
  proof -
    have "2 * total_stake c mod 2 ^ 32 + 2 ^ 32 \<le> 2 * total_stake c"
      using that mod_less_eq_dividend [of "2 * total_stake c - 2 ^ 32" "2 ^ 32"] by (simp add: le_mod_geq)
    then show ?thesis by (rule third_less) simp
  qed
  have "quorum_threshold c = 1" if "total_stake c = 2 ^ 31"
    using th that by (simp add: word_unat_eq_iff)
  moreover have "1 \<le> w" if "0 < w" for w :: u32 using that by (simp add: word_less_nat_alt word_le_nat_alt)
  moreover have "unat (quorum_threshold c) = 2 * total_stake c div 3 + 1 \<longleftrightarrow> total_stake c < 2 ^ 31"
    using th low by (cases "total_stake c < 2 ^ 31") auto
  ultimately show ?thesis using th low by auto
qed

theorem quorum_threshold_domain_witness:
  "quorum_threshold (committee_new [(test_key 1, 0x40000000, ([127, 0, 0, 1], 1)), (test_key 2, 0x40000000, ([127, 0, 0, 1], 2))] 1)
    \<le> stake (committee_new [(test_key 1, 0x40000000, ([127, 0, 0, 1], 1)), (test_key 2, 0x40000000, ([127, 0, 0, 1], 2))] 1) (test_key 2)"
proof -
  let ?c = "committee_new [(test_key 1, 0x40000000, ([127, 0, 0, 1], 1)), (test_key 2, 0x40000000, ([127, 0, 0, 1], 2))] 1"
  have "total_stake ?c = 2 ^ 31" "0 < stake ?c (test_key 2)"
    by (simp_all add: total_stake_def stake_def committee_new_def test_key_def)
  then show ?thesis using quorum_threshold_domain [of ?c] by blast
qed

end
