(* ===== verification/Leader.thy ===== *)
theory Leader
  imports Config
begin

text \<open>
  \<open>consensus/src/leader.rs\<close>: the round-robin leader election over the sorted keys of the committee.
\<close>

text \<open>
  \<open>keys[round as usize % self.committee.size()]\<close>: \<open>usize\<close> has 64 bits, and the remainder by zero
  panics on an empty committee (\<open>None\<close>).
\<close>

definition get_leader :: "committee \<Rightarrow> u64 \<Rightarrow> public_key option" where
  "get_leader c r =
     (let keys = sort (map fst (authorities c))
      in if committee_size c = 0 then None else Some (keys ! (unat r mod committee_size c)))"

lemma get_leader_Some: "authorities c \<noteq> [] \<Longrightarrow> \<exists>l. get_leader c r = Some l"
  by (simp add: get_leader_def committee_size_def)

lemma get_leader_member:
  assumes "get_leader c r = Some l"
  shows "l \<in> names c"
proof -
  from assms have "committee_size c \<noteq> 0" and l: "l = sort (map fst (authorities c)) ! (unat r mod committee_size c)"
    by (auto simp: get_leader_def split: if_splits)
  then have "unat r mod committee_size c < length (sort (map fst (authorities c)))"
    by (simp add: committee_size_def)
  then have "l \<in> set (sort (map fst (authorities c)))" unfolding l by (rule nth_mem)
  then show ?thesis by (simp add: names_def)
qed

lemma add_mod_cancel:
  assumes "(k + a) mod n = (k + b) mod n" and "a \<le> b" and "b < (n::nat)"
  shows "a = b"
proof -
  have "n dvd b - a"
    using assms(1,2) mod_eq_dvd_iff_nat [of "k + a" "k + b" n] by simp
  with assms(3) show ?thesis
    using assms(2) nat_dvd_not_less [of "b - a" n] by fastforce
qed

lemma add_mod_unique:
  assumes "(j::nat) < n"
  shows "\<exists>!i. i < n \<and> (k + i) mod n = j"
proof -
  have inj: "inj_on (\<lambda>i. (k + i) mod n) {..<n}"
  proof (rule inj_onI)
    fix a b assume ab: "a \<in> {..<n}" "b \<in> {..<n}" and eq: "(k + a) mod n = (k + b) mod n"
    from linear [of a b] show "a = b"
    proof
      assume "a \<le> b"
      with eq show ?thesis by (rule add_mod_cancel) (use ab in blast)
    next
      assume "b \<le> a"
      with eq [symmetric] have "b = a" by (rule add_mod_cancel) (use ab in blast)
      then show ?thesis by (rule sym)
    qed
  qed
  have "(\<lambda>i. (k + i) mod n) ` {..<n} = {..<n}"
    by (rule endo_inj_surj [OF finite_lessThan _ inj]) (use assms in auto)
  with assms have "j \<in> (\<lambda>i. (k + i) mod n) ` {..<n}" by blast
  then have "\<exists>i. i < n \<and> (k + i) mod n = j" by blast
  then show ?thesis
  proof (rule ex_ex1I)
    fix a b assume "a < n \<and> (k + a) mod n = j" and "b < n \<and> (k + b) mod n = j"
    then show "a = b" using inj_onD [OF inj, of a b] lessThan_iff by metis
  qed
qed

section \<open>Properties\<close>

text \<open>
  All nodes elect the same leader: the result depends on the set of members only, not on the
  iteration order of the \<open>HashMap\<close>, and is always a member.
\<close>

theorem leader_agreement:
  assumes "mset (map fst (authorities c)) = mset (map fst (authorities c'))"
  shows "get_leader c r = get_leader c' r
    \<and> (\<forall>l. get_leader c r = Some l \<longrightarrow> l \<in> names c)"
proof -
  have "sort (map fst (authorities c)) = sort (map fst (authorities c'))"
    using assms by (intro properties_for_sort) simp_all
  moreover have "committee_size c = committee_size c'"
    using arg_cong [OF assms, of size] by (simp add: committee_size_def)
  ultimately show ?thesis using get_leader_member by (auto simp: get_leader_def)
qed

theorem leader_agreement_witness:
  "get_leader test_committee 6 = get_leader (test_committee\<lparr>authorities := rev (authorities test_committee)\<rparr>) 6"
  by (rule leader_agreement [THEN conjunct1]) (simp flip: rev_map)

text \<open>
  Round-robin: in every window of as many consecutive rounds as there are authorities (that does
  not run past the largest \<open>u64\<close>) each authority leads exactly one round.
\<close>

theorem leader_round_robin:
  assumes "distinct (map fst (authorities c))" and "a \<in> names c"
    and "unat r + committee_size c \<le> 2 ^ 64"
  shows "\<exists>!i. i < committee_size c \<and> get_leader c (r + of_nat i) = Some a"
proof -
  let ?keys = "sort (map fst (authorities c))"
  have len: "length ?keys = committee_size c" and dist: "distinct ?keys"
    using assms(1) by (simp_all add: committee_size_def)
  have "a \<in> set ?keys" using assms(2) by (simp add: names_def)
  then obtain j where j: "j < committee_size c" and a: "a = ?keys ! j"
    by (metis in_set_conv_nth len)
  have leads: "get_leader c (r + of_nat i) = Some a \<longleftrightarrow> (unat r + i) mod committee_size c = j"
    if i: "i < committee_size c" for i
  proof -
    have "unat (of_nat i :: u64) = i" using i assms(3) by (simp add: unat_of_nat)
    then have "unat (r + of_nat i) = unat r + i"
      using i assms(3) by (simp add: unat_add_no_overflow)
    moreover have "(unat r + i) mod committee_size c < length ?keys" using j len by auto
    ultimately show ?thesis
      using j len dist by (auto simp: get_leader_def a nth_eq_iff_index_eq)
  qed
  from add_mod_unique [OF j, of "unat r"] show ?thesis by (metis leads)
qed

theorem leader_round_robin_witness:
  "\<exists>!i. i < committee_size test_committee \<and> get_leader test_committee (10 + of_nat i) = Some (test_key 2)"
  by (rule leader_round_robin)
    (auto simp: test_committee_authorities names_def committee_size_def test_key_def)

end
