(* ===== verification/Store.thy ===== *)
theory Store
  imports Prelude "HOL-Library.Multiset"
begin

text \<open>
  \<open>store/src/lib.rs\<close>: the task that owns the database and serves the commands of all clones of a
  \<open>Store\<close> handle, in the order of its channel. The \<open>rocksdb\<close> crate is a parameter. A oneshot
  sender is a number; a reply names the sender it goes to. The interface the other components use
  (what is read after a write) is the locale \<open>block_store\<close>.
\<close>

section \<open>The rocksdb crate\<close>

datatype store_error = StoreError

record 'db rocksdb =
  db_put :: "'db \<Rightarrow> bytes \<Rightarrow> bytes \<Rightarrow> 'db \<times> (store_error + unit)"
  db_get :: "'db \<Rightarrow> bytes \<Rightarrow> store_error + bytes option"

text \<open>
  Documented behaviour on a disk without I/O errors: \<open>put\<close> and \<open>get\<close> succeed, \<open>get\<close> returns what
  was last put, other keys are untouched.
\<close>

definition rocksdb_ok :: "'db rocksdb \<Rightarrow> bool" where
  "rocksdb_ok R \<longleftrightarrow>
     (\<forall>d k v. snd (db_put R d k v) = Inr ()) \<and>
     (\<forall>d k. \<exists>x. db_get R d k = Inr x) \<and>
     (\<forall>d k v. db_get R (fst (db_put R d k v)) k = Inr (Some v)) \<and>
     (\<forall>d k v k'. k' \<noteq> k \<longrightarrow> db_get R (fst (db_put R d k v)) k' = db_get R d k')"

section \<open>State and commands\<close>

type_synonym sender = nat

datatype store_command =
    Write bytes bytes
  | Read bytes sender
  | NotifyRead bytes sender

datatype store_reply =
    ReadReply sender "store_error + bytes option"
  | NotifyReply sender "store_error + bytes"

record 'db store =
  db :: 'db
  obligations :: "bytes \<rightharpoonup> sender list"

definition store_new :: "'db \<Rightarrow> 'db store" where
  "store_new d = \<lparr>db = d, obligations = Map.empty\<rparr>"

text \<open>One iteration of the loop of \<open>Store::new\<close>: the new state and the replies, in order.\<close>

fun store_serve ::
    "'db rocksdb \<Rightarrow> 'db store \<Rightarrow> store_command \<Rightarrow> 'db store \<times> store_reply list" where
  "store_serve R s (Write key value) =
     (let s' = s\<lparr>db := fst (db_put R (db s) key value)\<rparr>
      in case obligations s key of
           Some senders \<Rightarrow>
             (s'\<lparr>obligations := (obligations s)(key := None)\<rparr>,
              map (\<lambda>x. NotifyReply x (Inr value)) senders)
         | None \<Rightarrow> (s', []))"
| "store_serve R s (Read key sender) = (s, [ReadReply sender (db_get R (db s) key)])"
| "store_serve R s (NotifyRead key sender) =
     (case db_get R (db s) key of
        Inr None \<Rightarrow>
          (s\<lparr>obligations := (obligations s)(key \<mapsto>
             (case obligations s key of None \<Rightarrow> [] | Some q \<Rightarrow> q) @ [sender])\<rparr>, [])
      | Inr (Some value) \<Rightarrow> (s, [NotifyReply sender (Inr value)])
      | Inl e \<Rightarrow> (s, [NotifyReply sender (Inl e)]))"

fun store_run ::
    "'db rocksdb \<Rightarrow> 'db store \<Rightarrow> store_command list \<Rightarrow> 'db store \<times> store_reply list" where
  "store_run R s [] = (s, [])"
| "store_run R s (c # cs) =
     (let (s', rs) = store_serve R s c; (s'', rs') = store_run R s' cs in (s'', rs @ rs'))"

text \<open>
  The client calls. \<open>Store::write\<close> sends a \<open>Write\<close>; what it makes the task send to waiting clients
  is \<open>store_write_replies\<close>. \<open>Store::read\<close> sends a \<open>Read\<close> and waits for its reply, which leaves the
  state as it is.
\<close>

definition store_write :: "'db rocksdb \<Rightarrow> bytes \<Rightarrow> bytes \<Rightarrow> 'db store \<Rightarrow> 'db store" where
  "store_write R key value s = fst (store_serve R s (Write key value))"

definition store_write_replies ::
    "'db rocksdb \<Rightarrow> bytes \<Rightarrow> bytes \<Rightarrow> 'db store \<Rightarrow> store_reply list" where
  "store_write_replies R key value s = snd (store_serve R s (Write key value))"

definition store_read :: "'db rocksdb \<Rightarrow> bytes \<Rightarrow> 'db store \<Rightarrow> store_error + bytes option" where
  "store_read R key s = db_get R (db s) key"

lemma store_read_serve: "store_serve R s (Read k x) = (s, [ReadReply x (store_read R k s)])"
  by (simp add: store_read_def)

section \<open>The interface: read after write\<close>

locale block_store =
  fixes put :: "bytes \<Rightarrow> bytes \<Rightarrow> 's \<Rightarrow> 's"
    and look :: "bytes \<Rightarrow> 's \<Rightarrow> store_error + bytes option"
    and invar :: "'s \<Rightarrow> bool"
  assumes read_write: "invar s \<Longrightarrow> look k (put k v s) = Inr (Some v)"
    and read_write_other: "invar s \<Longrightarrow> k' \<noteq> k \<Longrightarrow> look k' (put k v s) = look k' s"
    and read_total: "invar s \<Longrightarrow> \<exists>x. look k s = Inr x"
    and invar_write: "invar s \<Longrightarrow> invar (put k v s)"
begin

lemma read_write_if: "invar s \<Longrightarrow> look k' (put k v s) = (if k' = k then Inr (Some v) else look k' s)"
  by (simp add: read_write read_write_other)

text \<open>Keys once present stay present, and values once written under their own key stay.\<close>

lemma read_present_mono:
  "invar s \<Longrightarrow> look k' s = Inr (Some v') \<Longrightarrow> \<exists>v''. look k' (put k v s) = Inr (Some v'')"
  by (simp add: read_write_if)

lemma invar_fold: "invar s \<Longrightarrow> invar (fold (\<lambda>(k, v). put k v) kvs s)"
  by (induction kvs arbitrary: s) (auto simp: invar_write)

lemma read_fold:
  "invar s \<Longrightarrow> look k (fold (\<lambda>(k, v). put k v) kvs s) =
     (case map_of (rev kvs) k of Some v \<Rightarrow> Inr (Some v) | None \<Rightarrow> look k s)"
proof (induction kvs rule: rev_induct)
  case Nil
  then show ?case by simp
next
  case (snoc kv kvs)
  then show ?case by (cases kv) (auto simp: read_write_if invar_fold)
qed

end

interpretation st: block_store "store_write R" "store_read R" "\<lambda>s. rocksdb_ok R" for R
  by unfold_locales
    (auto simp: store_write_def store_read_def rocksdb_ok_def Let_def split: option.split)

section \<open>Waiting readers\<close>

text \<open>The senders a state still owes a reply, and those a list of replies serves.\<close>

definition owed :: "'db store \<Rightarrow> bytes \<Rightarrow> sender list" where
  "owed s k = (case obligations s k of None \<Rightarrow> [] | Some q \<Rightarrow> q)"

fun notified :: "store_reply list \<Rightarrow> sender list" where
  "notified [] = []"
| "notified (NotifyReply x _ # rs) = x # notified rs"
| "notified (ReadReply _ _ # rs) = notified rs"

fun requested :: "store_command list \<Rightarrow> (bytes \<times> sender) list" where
  "requested [] = []"
| "requested (NotifyRead k x # cs) = (k, x) # requested cs"
| "requested (_ # cs) = requested cs"

lemma notified_append [simp]: "notified (rs @ rs') = notified rs @ notified rs'"
  by (induction rs rule: notified.induct) auto

lemma notified_map [simp]: "notified (map (\<lambda>x. NotifyReply x r) xs) = xs"
  by (induction xs) auto

text \<open>
  Only keys that are absent are waited for, and no registered queue is empty: what makes
  \<open>obligations.remove(&key)\<close> at the first write the moment at which every waiter is served.
\<close>

definition store_inv :: "'db rocksdb \<Rightarrow> 'db store \<Rightarrow> bool" where
  "store_inv R s \<longleftrightarrow>
     (\<forall>k q. obligations s k = Some q \<longrightarrow> q \<noteq> [] \<and> db_get R (db s) k = Inr None)"

lemma store_inv_new: "store_inv R (store_new d)"
  by (simp add: store_inv_def store_new_def)

lemma store_serve_inv:
  assumes "rocksdb_ok R" and "store_inv R s"
  shows "store_inv R (fst (store_serve R s c))"
proof (cases c)
  case (Write key v)
  have "db_get R (fst (db_put R (db s) key v)) k = Inr None" if "obligations s k = Some q" "k \<noteq> key \<or> obligations s key = None"
    for k q
  proof -
    have "k \<noteq> key" using that by auto
    with assms that(1) show ?thesis by (simp add: store_inv_def rocksdb_ok_def)
  qed
  with assms(2) show ?thesis
    by (auto simp: Write store_inv_def Let_def split: option.splits if_splits)
next
  case (NotifyRead key x)
  with assms(2) show ?thesis
    by (auto simp: store_inv_def split: option.splits sum.splits if_splits)
qed (use assms(2) in simp)

lemma store_run_inv:
  "rocksdb_ok R \<Longrightarrow> store_inv R s \<Longrightarrow> store_inv R (fst (store_run R s cs))"
  by (induction cs arbitrary: s)
    (auto simp: split_beta Let_def store_serve_inv)

text \<open>Every sender of a key that is being waited for is either served or still owed, once.\<close>

definition owed_count :: "'db store \<Rightarrow> sender \<Rightarrow> bytes set \<Rightarrow> nat" where
  "owed_count s x K = (\<Sum>k\<in>K. count_list (owed s k) x)"

lemma count_list_append [simp]: "count_list (xs @ ys) x = count_list xs x + count_list ys x"
  by (induction xs) auto

lemma owed_serve:
  "owed (fst (store_serve R s c)) k =
    (case c of
       Write k' v \<Rightarrow> if k = k' then [] else owed s k
     | Read k' x \<Rightarrow> owed s k
     | NotifyRead k' x \<Rightarrow>
         if k = k' \<and> db_get R (db s) k' = Inr None then owed s k @ [x] else owed s k)"
  by (cases c) (auto simp: owed_def Let_def split: option.splits sum.splits)

lemma notified_serve:
  "notified (snd (store_serve R s c)) =
    (case c of
       Write k v \<Rightarrow> owed s k
     | Read k x \<Rightarrow> []
     | NotifyRead k x \<Rightarrow> if db_get R (db s) k = Inr None then [] else [x])"
  by (cases c) (auto simp: owed_def Let_def split: option.splits sum.splits)

fun command_key :: "store_command \<Rightarrow> bytes" where
  "command_key (Write k _) = k"
| "command_key (Read k _) = k"
| "command_key (NotifyRead k _) = k"

lemma owed_count_serve:
  assumes "finite K" and "command_key c \<in> K"
  shows "count_list (notified (snd (store_serve R s c))) x
      + owed_count (fst (store_serve R s c)) x K
    = owed_count s x K + count_list (map snd (requested [c])) x"
proof (cases c)
  case (Write k v)
  with assms have k: "k \<in> K" by simp
  have "owed_count s x K = count_list (owed s k) x + owed_count s x (K - {k})"
    unfolding owed_count_def using assms(1) k by (rule sum.remove)
  moreover have "owed_count (fst (store_serve R s c)) x K
      = count_list (owed (fst (store_serve R s c)) k) x
        + owed_count (fst (store_serve R s c)) x (K - {k})"
    unfolding owed_count_def using assms(1) k by (rule sum.remove)
  moreover have "owed_count (fst (store_serve R s c)) x (K - {k}) = owed_count s x (K - {k})"
    unfolding owed_count_def by (rule sum.cong) (auto simp: owed_serve Write simp del: store_serve.simps)
  ultimately show ?thesis by (simp add: notified_serve owed_serve Write del: store_serve.simps)
next
  case (Read k y)
  then show ?thesis by (simp add: owed_count_def owed_def)
next
  case (NotifyRead k y)
  with assms have k: "k \<in> K" by simp
  let ?t = "fst (store_serve R s c)"
  have "owed_count s x K = count_list (owed s k) x + owed_count s x (K - {k})"
    unfolding owed_count_def using assms(1) k by (rule sum.remove)
  moreover have "owed_count ?t x K = count_list (owed ?t k) x + owed_count ?t x (K - {k})"
    unfolding owed_count_def using assms(1) k by (rule sum.remove)
  moreover have "owed_count ?t x (K - {k}) = owed_count s x (K - {k})"
    unfolding owed_count_def by (rule sum.cong) (auto simp: owed_serve NotifyRead simp del: store_serve.simps)
  ultimately show ?thesis by (auto simp: notified_serve owed_serve NotifyRead simp del: store_serve.simps)
qed

lemma requested_Cons: "requested (c # cs) = requested [c] @ requested cs"
  by (cases c) auto

lemma owed_count_run:
  assumes "finite K" and "command_key ` set cs \<subseteq> K"
  shows "count_list (notified (snd (store_run R s cs))) x + owed_count (fst (store_run R s cs)) x K
    = owed_count s x K + count_list (map snd (requested cs)) x"
  using assms(2)
proof (induction cs arbitrary: s)
  case Nil
  then show ?case by simp
next
  case (Cons c cs)
  obtain s' rs where serve: "store_serve R s c = (s', rs)" by (cases "store_serve R s c")
  obtain s'' rs' where run: "store_run R s' cs = (s'', rs')" by (cases "store_run R s' cs")
  have IH: "count_list (notified rs') x + owed_count s'' x K
      = owed_count s' x K + count_list (map snd (requested cs)) x"
    using Cons.IH [of s'] Cons.prems by (simp add: run)
  have "count_list (notified rs) x + owed_count s' x K
      = owed_count s x K + count_list (map snd (requested [c])) x"
    using owed_count_serve [OF assms(1), of c R s x] Cons.prems by (simp add: serve)
  with IH show ?case
    by (simp add: serve run requested_Cons [of c cs])
qed

section \<open>A database without errors\<close>

text \<open>An instance of the parameter, for the witnesses: the database as a finite map.\<close>

definition map_rocksdb :: "(bytes \<rightharpoonup> bytes) rocksdb" where
  "map_rocksdb = \<lparr>db_put = (\<lambda>d k v. (d(k \<mapsto> v), Inr ())), db_get = (\<lambda>d k. Inr (d k))\<rparr>"

lemma map_rocksdb_ok: "rocksdb_ok map_rocksdb"
  by (simp add: rocksdb_ok_def map_rocksdb_def)

section \<open>Properties\<close>

text \<open>
  C34. Every \<open>notify_read\<close> is answered at most once, and exactly once unless it is still waiting: in
  any run of the store task from an empty table, the replies sent to a requester plus its entries
  in the obligations equal its requests; nothing is lost, duplicated or sent to someone else,
  whatever the database does.
\<close>

theorem notify_read_conservation:
  "count_list (notified (snd (store_run R (store_new d) cs))) x
     + (\<Sum>k\<in>command_key ` set cs. count_list (owed (fst (store_run R (store_new d) cs)) k) x)
   = count_list (map snd (requested cs)) x"
proof -
  have "owed_count (store_new d) x (command_key ` set cs) = 0"
    by (simp add: owed_count_def owed_def store_new_def)
  then show ?thesis
    using owed_count_run [of "command_key ` set cs" cs R "store_new d" x]
    by (simp add: owed_count_def)
qed

text \<open>
  No lost wake-up: on a database without errors, once a key is present nobody waits for it, and
  the write that makes it present answers every waiter, in the order of their requests, with the
  value written.
\<close>

theorem write_wakes_all_waiters:
  assumes "rocksdb_ok R"
  shows "(\<forall>k v. store_read R k (fst (store_run R (store_new d) cs)) = Inr (Some v) \<longrightarrow>
            owed (fst (store_run R (store_new d) cs)) k = [])
       \<and> store_write_replies R k v (fst (store_run R (store_new d) cs))
           = map (\<lambda>x. NotifyReply x (Inr v)) (owed (fst (store_run R (store_new d) cs)) k)
       \<and> owed (store_write R k v (fst (store_run R (store_new d) cs))) k = []"
proof -
  let ?s = "fst (store_run R (store_new d) cs)"
  have "store_inv R ?s" by (rule store_run_inv [OF assms store_inv_new])
  then have "\<forall>k v. store_read R k ?s = Inr (Some v) \<longrightarrow> owed ?s k = []"
    by (auto simp: store_inv_def store_read_def owed_def split: option.split)
  moreover have "owed (store_write R k v ?s) k = []"
    by (simp add: store_write_def owed_serve del: store_serve.simps)
  moreover have "store_write_replies R k v ?s = map (\<lambda>x. NotifyReply x (Inr v)) (owed ?s k)"
    by (simp add: store_write_replies_def owed_def Let_def split: option.split)
  ultimately show ?thesis by blast
qed

theorem write_wakes_all_waiters_witness:
  "store_write_replies map_rocksdb [1] [2]
     (fst (store_run map_rocksdb (store_new Map.empty) [NotifyRead [1] 7, NotifyRead [1] 8]))
   = [NotifyReply 7 (Inr [2]), NotifyReply 8 (Inr [2])]"
  using write_wakes_all_waiters [OF map_rocksdb_ok, of Map.empty
      "[NotifyRead [1] 7, NotifyRead [1] 8]" "[1]" "[2]"]
  by (simp add: owed_def map_rocksdb_def store_new_def)

end
