(* ===== verification/Messages.thy ===== *)
theory Messages
  imports Config Store
begin

text \<open>
  \<open>consensus/src/messages.rs\<close> and \<open>consensus/src/error.rs\<close>: blocks, votes, quorum certificates (QC),
  timeouts and timeout certificates (TC), with their digests and their \<open>verify\<close> methods. The
  lemmas say what a verified certificate guarantees and what the digests bind.
\<close>

section \<open>Errors\<close>

datatype consensus_error =
    NetworkError
  | SerializationError
  | StoreFailure store_error
  | NotInCommittee public_key
  | InvalidSignature crypto_error
  | AuthorityReuse public_key
  | UnknownAuthority public_key
  | QCRequiresQuorum
  | TCRequiresQuorum
  | MalformedBlock digest
  | WrongLeader digest public_key u64
  | InvalidPayload

section \<open>Data\<close>

record qc =
  qc_hash :: digest
  qc_round :: u64
  qc_votes :: "(public_key \<times> signature) list"

record tc =
  tc_round :: u64
  tc_votes :: "(public_key \<times> signature \<times> u64) list"

record block =
  block_qc :: qc
  block_tc :: "tc option"
  block_author :: public_key
  block_round :: u64
  block_payload :: "digest list"
  block_signature :: signature

record vote =
  vote_hash :: digest
  vote_round :: u64
  vote_author :: public_key
  vote_signature :: signature

record timeout =
  timeout_high_qc :: qc
  timeout_round :: u64
  timeout_author :: public_key
  timeout_signature :: signature

definition qc_genesis :: qc where
  "qc_genesis = \<lparr>qc_hash = digest_default, qc_round = 0, qc_votes = []\<rparr>"

text \<open>\<open>impl PartialEq for QC\<close>: the votes are not compared.\<close>

definition qc_eq :: "qc \<Rightarrow> qc \<Rightarrow> bool" where
  "qc_eq p q \<longleftrightarrow> qc_hash p = qc_hash q \<and> qc_round p = qc_round q"

definition qc_timeout :: "qc \<Rightarrow> bool" where
  "qc_timeout q \<longleftrightarrow> qc_hash q = digest_default \<and> qc_round q \<noteq> 0"

definition block_genesis :: block where
  "block_genesis =
     \<lparr>block_qc = qc_genesis, block_tc = None, block_author = public_key_default, block_round = 0,
      block_payload = [], block_signature = signature_default\<rparr>"

definition parent :: "block \<Rightarrow> digest" where
  "parent b = qc_hash (block_qc b)"

section \<open>Digests\<close>

definition block_preimage :: "block \<Rightarrow> bytes" where
  "block_preimage b =
     public_key_bytes (block_author b) @ le_bytes (block_round b)
       @ concat (map digest_bytes (block_payload b)) @ digest_bytes (qc_hash (block_qc b))"

definition block_digest :: "'k dalek \<Rightarrow> block \<Rightarrow> digest" where
  "block_digest D b = hash32 D (block_preimage b)"

definition vote_preimage :: "digest \<Rightarrow> u64 \<Rightarrow> bytes" where
  "vote_preimage h r = digest_bytes h @ le_bytes r"

definition vote_digest :: "'k dalek \<Rightarrow> vote \<Rightarrow> digest" where
  "vote_digest D v = hash32 D (vote_preimage (vote_hash v) (vote_round v))"

definition qc_digest :: "'k dalek \<Rightarrow> qc \<Rightarrow> digest" where
  "qc_digest D q = hash32 D (vote_preimage (qc_hash q) (qc_round q))"

definition timeout_preimage :: "u64 \<Rightarrow> u64 \<Rightarrow> bytes" where
  "timeout_preimage r high_qc_round = le_bytes r @ le_bytes high_qc_round"

definition timeout_digest :: "'k dalek \<Rightarrow> timeout \<Rightarrow> digest" where
  "timeout_digest D t =
     hash32 D (timeout_preimage (timeout_round t) (qc_round (timeout_high_qc t)))"

section \<open>Construction\<close>

text \<open>\<open>None\<close>: the signature service is gone.\<close>

definition block_new ::
    "'k dalek \<Rightarrow> qc \<Rightarrow> tc option \<Rightarrow> public_key \<Rightarrow> u64 \<Rightarrow> digest list \<Rightarrow> secret_key \<Rightarrow> block option" where
  "block_new D q t author r payload secret =
     (let block = \<lparr>block_qc = q, block_tc = t, block_author = author, block_round = r,
                   block_payload = payload, block_signature = signature_default\<rparr>
      in map_option (\<lambda>s. block\<lparr>block_signature := s\<rparr>)
           (request_signature D secret (block_digest D block)))"

definition vote_new :: "'k dalek \<Rightarrow> block \<Rightarrow> public_key \<Rightarrow> secret_key \<Rightarrow> vote option" where
  "vote_new D b author secret =
     (let vote = \<lparr>vote_hash = block_digest D b, vote_round = block_round b, vote_author = author,
                  vote_signature = signature_default\<rparr>
      in map_option (\<lambda>s. vote\<lparr>vote_signature := s\<rparr>)
           (request_signature D secret (vote_digest D vote)))"

definition timeout_new ::
    "'k dalek \<Rightarrow> qc \<Rightarrow> u64 \<Rightarrow> public_key \<Rightarrow> secret_key \<Rightarrow> timeout option" where
  "timeout_new D high_qc r author secret =
     (let timeout = \<lparr>timeout_high_qc = high_qc, timeout_round = r, timeout_author = author,
                     timeout_signature = signature_default\<rparr>
      in map_option (\<lambda>s. timeout\<lparr>timeout_signature := s\<rparr>)
           (request_signature D secret (timeout_digest D timeout)))"

section \<open>Verification\<close>

text \<open>
  The loop over the authorities of a certificate, the same in \<open>QC::verify\<close> and \<open>TC::verify\<close>: no
  authority twice, each with voting rights, their stakes added up (in \<open>u32\<close>).
\<close>

fun check_authorities ::
    "committee \<Rightarrow> public_key list \<Rightarrow> public_key set \<Rightarrow> stake \<Rightarrow> consensus_error + stake" where
  "check_authorities c [] used weight = Inr weight"
| "check_authorities c (name # ns) used weight =
     and_then (ensure (name \<notin> used) (AuthorityReuse name)) (\<lambda>_.
     let voting_rights = stake c name in
     and_then (ensure (voting_rights > 0) (UnknownAuthority name)) (\<lambda>_.
     check_authorities c ns (insert name used) (weight + voting_rights)))"

definition qc_verify :: "'k dalek \<Rightarrow> committee \<Rightarrow> qc \<Rightarrow> consensus_error + unit" where
  "qc_verify D c q =
     and_then (check_authorities c (map fst (qc_votes q)) {} 0) (\<lambda>weight.
     and_then (ensure (weight \<ge> quorum_threshold c) QCRequiresQuorum) (\<lambda>_.
     map_err InvalidSignature (verify_batch D (qc_digest D q) (qc_votes q))))"

fun check_tc_signatures ::
    "'k dalek \<Rightarrow> u64 \<Rightarrow> (public_key \<times> signature \<times> u64) list \<Rightarrow> consensus_error + unit" where
  "check_tc_signatures D r [] = Inr ()"
| "check_tc_signatures D r ((author, signature, high_qc_round) # votes) =
     and_then (map_err InvalidSignature
       (signature_verify D signature (hash32 D (timeout_preimage r high_qc_round)) author)) (\<lambda>_.
     check_tc_signatures D r votes)"

definition tc_verify :: "'k dalek \<Rightarrow> committee \<Rightarrow> tc \<Rightarrow> consensus_error + unit" where
  "tc_verify D c t =
     and_then (check_authorities c (map fst (tc_votes t)) {} 0) (\<lambda>weight.
     and_then (ensure (weight \<ge> quorum_threshold c) TCRequiresQuorum) (\<lambda>_.
     check_tc_signatures D (tc_round t) (tc_votes t)))"

definition high_qc_rounds :: "tc \<Rightarrow> u64 list" where
  "high_qc_rounds t = map (\<lambda>(_, _, r). r) (tc_votes t)"

definition block_verify :: "'k dalek \<Rightarrow> committee \<Rightarrow> block \<Rightarrow> consensus_error + unit" where
  "block_verify D c b =
     and_then (ensure (stake c (block_author b) > 0) (UnknownAuthority (block_author b))) (\<lambda>_.
     and_then (map_err InvalidSignature
       (signature_verify D (block_signature b) (block_digest D b) (block_author b))) (\<lambda>_.
     and_then (if \<not> qc_eq (block_qc b) qc_genesis then qc_verify D c (block_qc b) else Inr ()) (\<lambda>_.
     (case block_tc b of Some t \<Rightarrow> tc_verify D c t | None \<Rightarrow> Inr ()))))"

definition vote_verify :: "'k dalek \<Rightarrow> committee \<Rightarrow> vote \<Rightarrow> consensus_error + unit" where
  "vote_verify D c v =
     and_then (ensure (stake c (vote_author v) > 0) (UnknownAuthority (vote_author v))) (\<lambda>_.
     map_err InvalidSignature
       (signature_verify D (vote_signature v) (vote_digest D v) (vote_author v)))"

definition timeout_verify :: "'k dalek \<Rightarrow> committee \<Rightarrow> timeout \<Rightarrow> consensus_error + unit" where
  "timeout_verify D c t =
     and_then (ensure (stake c (timeout_author t) > 0) (UnknownAuthority (timeout_author t))) (\<lambda>_.
     and_then (map_err InvalidSignature
       (signature_verify D (timeout_signature t) (timeout_digest D t) (timeout_author t))) (\<lambda>_.
     (if \<not> qc_eq (timeout_high_qc t) qc_genesis then qc_verify D c (timeout_high_qc t) else Inr ())))"

section \<open>What the certificate checks establish\<close>

lemma check_authorities_iff:
  "check_authorities c ns used w = Inr w' \<longleftrightarrow>
     distinct ns \<and> set ns \<inter> used = {} \<and> (\<forall>n\<in>set ns. 0 < stake c n)
       \<and> w' = w + sum_list (map (stake c) ns)"
  by (induction ns arbitrary: used w) (auto simp: Let_def add.assoc)

text \<open>The stake of a set of authorities, in \<open>nat\<close>, and certificates as sets of signers.\<close>

definition weight_of :: "committee \<Rightarrow> public_key set \<Rightarrow> nat" where
  "weight_of c A = (\<Sum>a\<in>A. unat (stake c a))"

definition quorum :: "committee \<Rightarrow> public_key set \<Rightarrow> bool" where
  "quorum c A \<longleftrightarrow> finite A \<and> unat (quorum_threshold c) \<le> weight_of c A"

lemma weight_of_names: "committee_ok c \<Longrightarrow> weight_of c (names c) = total_stake c"
  by (simp add: weight_of_def committee_ok_def sum_stake_names)

lemma weight_of_le: "committee_ok c \<Longrightarrow> finite A \<Longrightarrow> weight_of c A \<le> total_stake c"
  using qs.weight_le_total [of c A] by (simp add: weight_of_def weight_of_names flip: weight_of_def)

lemma unat_sum_stakes:
  assumes "committee_ok c" and "distinct ns"
  shows "unat (sum_list (map (stake c) ns)) = weight_of c (set ns)"
proof -
  have eq: "sum_list (map unat (map (stake c) ns)) = weight_of c (set ns)"
    using assms(2) by (simp add: weight_of_def sum_list_distinct_conv_sum_set comp_def)
  also have "\<dots> \<le> total_stake c" using assms(1) by (simp add: weight_of_le)
  also have "\<dots> < 2 ^ 32" using assms(1) by (simp add: committee_ok_def)
  finally have "sum_list (map unat (map (stake c) ns)) < 2 ^ LENGTH(32)" by simp
  then show ?thesis by (simp only: unat_sum_list eq)
qed

lemma quorum_of_check:
  assumes "committee_ok c" and "check_authorities c ns {} 0 = Inr w" and "quorum_threshold c \<le> w"
  shows "quorum c (set ns)"
  using assms by (auto simp: check_authorities_iff quorum_def word_le_nat_alt unat_sum_stakes)

lemma quorum_nonempty: "quorum c A \<Longrightarrow> A \<noteq> {}"
  using quorum_threshold_pos [of c] by (auto simp: quorum_def weight_of_def)

lemma quorums_share_honest:
  assumes "committee_ok c" and "quorum c A" and "quorum c B"
    and "finite F" and "3 * weight_of c F < total_stake c"
  shows "\<exists>a. a \<in> A \<and> a \<in> B \<and> a \<notin> F \<and> 0 < stake c a"
proof -
  have "\<exists>a. a \<in> A \<and> a \<in> B \<and> a \<notin> F \<and> 0 < unat (stake c a)"
    using assms by (intro qs.quorum_intersection)
      (auto simp: quorum_def weight_of_def simp flip: weight_of_def weight_of_names)
  then show ?thesis by (auto simp: word_less_nat_alt)
qed

lemma check_tc_signatures_iff:
  "check_tc_signatures D r votes = Inr () \<longleftrightarrow>
     (\<forall>(author, sig, hr) \<in> set votes.
        signature_verify D sig (hash32 D (timeout_preimage r hr)) author = Inr ())"
  by (induction D r votes rule: check_tc_signatures.induct) auto

lemma qc_verify_quorum:
  "committee_ok c \<Longrightarrow> qc_verify D c q = Inr () \<Longrightarrow> quorum c (fst ` set (qc_votes q))"
  using quorum_of_check [of c "map fst (qc_votes q)"] by (auto simp: qc_verify_def)

lemma qc_verify_batch:
  "qc_verify D c q = Inr () \<Longrightarrow> verify_batch D (qc_digest D q) (qc_votes q) = Inr ()"
  by (auto simp: qc_verify_def)

lemma tc_verify_quorum:
  "committee_ok c \<Longrightarrow> tc_verify D c t = Inr () \<Longrightarrow> quorum c (fst ` set (tc_votes t))"
  using quorum_of_check [of c "map fst (tc_votes t)"] by (auto simp: tc_verify_def)

lemma tc_verify_signature:
  "tc_verify D c t = Inr () \<Longrightarrow> (a, s, hr) \<in> set (tc_votes t) \<Longrightarrow>
   signature_verify D s (hash32 D (timeout_preimage (tc_round t) hr)) a = Inr ()"
  by (auto simp: tc_verify_def check_tc_signatures_iff)

lemma tc_verify_nonempty:
  assumes "tc_verify D c t = Inr ()"
  shows "tc_votes t \<noteq> []"
proof
  assume "tc_votes t = []"
  with assms have "quorum_threshold c \<le> 0" by (auto simp: tc_verify_def)
  with quorum_threshold_pos [of c] show False by simp
qed

lemma block_verify_parts:
  assumes "block_verify D c b = Inr ()"
  shows "0 < stake c (block_author b)"
    and "\<not> qc_eq (block_qc b) qc_genesis \<Longrightarrow> qc_verify D c (block_qc b) = Inr ()"
    and "block_tc b = Some t \<Longrightarrow> tc_verify D c t = Inr ()"
  using assms by (auto simp: block_verify_def split: if_splits)

section \<open>What the digests bind\<close>

definition block_wf :: "block \<Rightarrow> bool" where
  "block_wf b \<longleftrightarrow> public_key_wf (block_author b) \<and> (\<forall>d\<in>set (block_payload b). digest_wf d)
     \<and> digest_wf (qc_hash (block_qc b))"

lemma length_block_preimage:
  "block_wf b \<Longrightarrow> length (block_preimage b) = 72 + 32 * length (block_payload b)"
  by (simp add: block_preimage_def block_wf_def public_key_wf_def digest_wf_def
      length_concat_const [where n = 32])

lemma block_preimage_inj:
  assumes "block_wf b" and "block_wf b'" and eq: "block_preimage b = block_preimage b'"
  shows "block_author b = block_author b' \<and> block_round b = block_round b'
    \<and> block_payload b = block_payload b' \<and> parent b = parent b'"
proof -
  from assms have "length (public_key_bytes (block_author b)) = length (public_key_bytes (block_author b'))"
    and "length (digest_bytes (qc_hash (block_qc b))) = length (digest_bytes (qc_hash (block_qc b')))"
    by (simp_all add: block_wf_def public_key_wf_def digest_wf_def)
  with eq have "public_key_bytes (block_author b) = public_key_bytes (block_author b')"
    and "block_round b = block_round b'"
    and load: "concat (map digest_bytes (block_payload b)) = concat (map digest_bytes (block_payload b'))"
    and "digest_bytes (qc_hash (block_qc b)) = digest_bytes (qc_hash (block_qc b'))"
    by (simp_all add: block_preimage_def)
  moreover have "map digest_bytes (block_payload b) = map digest_bytes (block_payload b')"
    using assms(1,2) load by (intro concat_inj [where n = 32]) (auto simp: block_wf_def digest_wf_def)
  then have "block_payload b = block_payload b'"
    by (metis digest.expand list.inj_map_strong)
  ultimately show ?thesis by (simp add: parent_def digest.expand public_key.expand)
qed

lemma vote_preimage_inj:
  "digest_wf h \<Longrightarrow> digest_wf h' \<Longrightarrow> vote_preimage h r = vote_preimage h' r' \<Longrightarrow> h = h' \<and> r = r'"
  by (auto simp: vote_preimage_def digest_wf_def digest.expand)

lemma timeout_preimage_inj: "timeout_preimage r q = timeout_preimage r' q' \<longleftrightarrow> r = r' \<and> q = q'"
  by (simp add: timeout_preimage_def)

lemma length_vote_preimage: "digest_wf h \<Longrightarrow> length (vote_preimage h r) = 40"
  by (simp add: vote_preimage_def digest_wf_def)

lemma length_timeout_preimage: "length (timeout_preimage r q) = 16"
  by (simp add: timeout_preimage_def)

text \<open>
  What the digests bind, and what they leave open. The bytes hashed for a block determine its
  author, round, payload and parent, but neither the round of its QC, nor the votes of that QC, nor
  its TC; those of a vote (and of the QC on it) determine block and round; those of a timeout both
  rounds. The bytes hashed for the three kinds never coincide, so a signature on one kind of message
  is no signature on another.
\<close>

theorem digest_preimages:
  assumes "block_wf b" and "block_wf b'" and "digest_wf h" and "digest_wf h'"
  shows "(block_preimage b = block_preimage b' \<longleftrightarrow>
            block_author b = block_author b' \<and> block_round b = block_round b'
              \<and> block_payload b = block_payload b' \<and> parent b = parent b')
    \<and> (vote_preimage h r = vote_preimage h' r' \<longleftrightarrow> h = h' \<and> r = r')
    \<and> (timeout_preimage r q = timeout_preimage r' q' \<longleftrightarrow> r = r' \<and> q = q')
    \<and> block_preimage b \<noteq> vote_preimage h r \<and> block_preimage b \<noteq> timeout_preimage r q
    \<and> vote_preimage h r \<noteq> timeout_preimage r' q"
proof (intro conjI)
  show "block_preimage b = block_preimage b' \<longleftrightarrow>
      block_author b = block_author b' \<and> block_round b = block_round b'
        \<and> block_payload b = block_payload b' \<and> parent b = parent b'"
    using block_preimage_inj [OF assms(1,2)] by (auto simp: block_preimage_def parent_def)
  show "vote_preimage h r = vote_preimage h' r' \<longleftrightarrow> h = h' \<and> r = r'"
    using vote_preimage_inj [OF assms(3,4)] by auto
  show "timeout_preimage r q = timeout_preimage r' q' \<longleftrightarrow> r = r' \<and> q = q'"
    by (rule timeout_preimage_inj)
  show "block_preimage b \<noteq> vote_preimage h r" "block_preimage b \<noteq> timeout_preimage r q"
    "vote_preimage h r \<noteq> timeout_preimage r' q"
    using assms by (auto dest: arg_cong [of _ _ length]
        simp: length_block_preimage length_vote_preimage length_timeout_preimage)
qed

theorem digest_preimages_witness:
  "block_preimage (block_genesis\<lparr>block_tc := Some \<lparr>tc_round = 1, tc_votes = []\<rparr>\<rparr>) = block_preimage block_genesis"
  using digest_preimages [of "block_genesis\<lparr>block_tc := Some \<lparr>tc_round = 1, tc_votes = []\<rparr>\<rparr>"
      block_genesis digest_default digest_default]
  by (simp add: block_wf_def block_genesis_def public_key_wf_def public_key_default_def digest_wf_def
      digest_default_def qc_genesis_def parent_def)

end
