(* ===== verification/Aggregator.thy ===== *)
theory Aggregator
  imports Messages
begin

text \<open>
  \<open>consensus/src/aggregator.rs\<close>: votes and timeouts are collected per round (votes also per digest)
  until their authors hold a quorum, when a certificate is made, once. That the two makers do so is
  proved in the locale \<open>collector\<close>, which both instantiate.
\<close>

section \<open>QC and TC makers\<close>

record qc_maker =
  qcm_weight :: stake
  qcm_votes :: "(public_key \<times> signature) list"
  qcm_used :: "public_key set"

definition qc_maker_new :: qc_maker where
  "qc_maker_new = \<lparr>qcm_weight = 0, qcm_votes = [], qcm_used = {}\<rparr>"

definition qc_maker_append :: "vote \<Rightarrow> committee \<Rightarrow> (qc_maker, consensus_error, qc option) proc" where
  "qc_maker_append v c m =
     (let author = vote_author v in
      if author \<in> qcm_used m then (Err (AuthorityReuse author), m)
      else
        let m = m\<lparr>qcm_used := insert author (qcm_used m)\<rparr>;
            m = m\<lparr>qcm_votes := qcm_votes m @ [(author, vote_signature v)]\<rparr>;
            m = m\<lparr>qcm_weight := qcm_weight m + stake c author\<rparr>
        in if qcm_weight m \<ge> quorum_threshold c then
             (Ok (Some \<lparr>qc_hash = vote_hash v, qc_round = vote_round v, qc_votes = qcm_votes m\<rparr>),
              m\<lparr>qcm_weight := 0\<rparr>)
           else (Ok None, m))"

record tc_maker =
  tcm_weight :: stake
  tcm_votes :: "(public_key \<times> signature \<times> u64) list"
  tcm_used :: "public_key set"

definition tc_maker_new :: tc_maker where
  "tc_maker_new = \<lparr>tcm_weight = 0, tcm_votes = [], tcm_used = {}\<rparr>"

definition tc_maker_append :: "timeout \<Rightarrow> committee \<Rightarrow> (tc_maker, consensus_error, tc option) proc" where
  "tc_maker_append t c m =
     (let author = timeout_author t in
      if author \<in> tcm_used m then (Err (AuthorityReuse author), m)
      else
        let m = m\<lparr>tcm_used := insert author (tcm_used m)\<rparr>;
            m = m\<lparr>tcm_votes := tcm_votes m @
                     [(author, timeout_signature t, qc_round (timeout_high_qc t))]\<rparr>;
            m = m\<lparr>tcm_weight := tcm_weight m + stake c author\<rparr>
        in if tcm_weight m \<ge> quorum_threshold c then
             (Ok (Some \<lparr>tc_round = timeout_round t, tc_votes = tcm_votes m\<rparr>),
              m\<lparr>tcm_weight := 0\<rparr>)
           else (Ok None, m))"

section \<open>The aggregator\<close>

record aggregator =
  agg_committee :: committee
  votes_aggregators :: "u64 \<rightharpoonup> (digest \<rightharpoonup> qc_maker)"
  timeouts_aggregators :: "u64 \<rightharpoonup> tc_maker"

definition aggregator_new :: "committee \<Rightarrow> aggregator" where
  "aggregator_new c =
     \<lparr>agg_committee = c, votes_aggregators = Map.empty, timeouts_aggregators = Map.empty\<rparr>"

text \<open>\<open>entry(key).or_insert_with(new)\<close>, then a call on the entry, whose result is stored back.\<close>

definition or_new :: "'a \<Rightarrow> 'a option \<Rightarrow> 'a" where
  "or_new d x = (case x of None \<Rightarrow> d | Some a \<Rightarrow> a)"

definition add_vote :: "'k dalek \<Rightarrow> vote \<Rightarrow> (aggregator, consensus_error, qc option) proc" where
  "add_vote D v a =
     (let makers = or_new Map.empty (votes_aggregators a (vote_round v));
          maker = or_new qc_maker_new (makers (vote_digest D v));
          (r, maker') = qc_maker_append v (agg_committee a) maker
      in (r, a\<lparr>votes_aggregators :=
                (votes_aggregators a)(vote_round v \<mapsto> makers(vote_digest D v \<mapsto> maker'))\<rparr>))"

definition add_timeout :: "timeout \<Rightarrow> (aggregator, consensus_error, tc option) proc" where
  "add_timeout t a =
     (let maker = or_new tc_maker_new (timeouts_aggregators a (timeout_round t));
          (r, maker') = tc_maker_append t (agg_committee a) maker
      in (r, a\<lparr>timeouts_aggregators := (timeouts_aggregators a)(timeout_round t \<mapsto> maker')\<rparr>))"

definition cleanup :: "u64 \<Rightarrow> aggregator \<Rightarrow> aggregator" where
  "cleanup r a =
     a\<lparr>votes_aggregators := (\<lambda>k. if k \<ge> r then votes_aggregators a k else None),
       timeouts_aggregators := (\<lambda>k. if k \<ge> r then timeouts_aggregators a k else None)\<rparr>"

section \<open>Collecting until a quorum\<close>

text \<open>
  The certificates a maker emits along a sequence of messages, as flags, and the maker at the end.
\<close>

fun collect_all :: "('v \<Rightarrow> 'm \<Rightarrow> bool \<times> 'm) \<Rightarrow> 'v list \<Rightarrow> 'm \<Rightarrow> nat \<times> 'm" where
  "collect_all step [] m = (0, m)"
| "collect_all step (v # vs) m =
     (let (emit, m') = step v m; (n, m'') = collect_all step vs m'
      in ((if emit then Suc n else n), m''))"

lemma collect_all_snoc:
  "collect_all step (vs @ [v]) m =
     (let (n, m') = collect_all step vs m; (emit, m'') = step v m'
      in ((if emit then Suc n else n), m''))"
  by (induction vs arbitrary: m) (auto simp: split_beta Let_def)

locale collector = stake_system ok members weight threshold
  for ok :: "'c \<Rightarrow> bool" and members :: "'c \<Rightarrow> 'a set" and weight :: "'c \<Rightarrow> 'a \<Rightarrow> nat"
    and threshold :: "'c \<Rightarrow> nat" +
  fixes step :: "'c \<Rightarrow> 'v \<Rightarrow> 'm \<Rightarrow> bool \<times> 'm"
    and start :: 'm
    and author :: "'v \<Rightarrow> 'a"
    and used :: "'m \<Rightarrow> 'a set"
    and held :: "'m \<Rightarrow> nat"
    and capacity :: nat
  assumes start_empty: "used start = {}" "held start = 0"
    and threshold_pos: "0 < threshold c"
    and total_fits: "ok c \<Longrightarrow> (\<Sum>a\<in>members c. weight c a) < capacity"
    and step_again: "author v \<in> used m \<Longrightarrow> step c v m = (False, m)"
    and step_used: "used (snd (step c v m)) = insert (author v) (used m)"
    and step_emits:
      "author v \<notin> used m \<Longrightarrow> held m + weight c (author v) < capacity \<Longrightarrow>
       fst (step c v m) \<longleftrightarrow> threshold c \<le> held m + weight c (author v)"
    and step_held:
      "author v \<notin> used m \<Longrightarrow> held m + weight c (author v) < capacity \<Longrightarrow>
       held (snd (step c v m)) =
         (if threshold c \<le> held m + weight c (author v) then 0 else held m + weight c (author v))"
begin

text \<open>
  Reachable makers: before the certificate the held weight is that of all authors seen, afterwards
  that of the authors seen since, who are no quorum.
\<close>

lemma collect_all_inv:
  assumes ok: "ok c"
  shows "\<exists>A B. finite A \<and> finite B \<and> A \<inter> B = {}
     \<and> used (snd (collect_all (step c) vs start)) = A \<union> B \<and> A \<union> B = author ` set vs
     \<and> held (snd (collect_all (step c) vs start)) = (\<Sum>a\<in>B. weight c a)
     \<and> (if threshold c \<le> (\<Sum>a\<in>A. weight c a) then fst (collect_all (step c) vs start) = 1
        else fst (collect_all (step c) vs start) = 0 \<and> A = {} \<and> (\<Sum>a\<in>B. weight c a) < threshold c)"
proof (induction vs rule: rev_induct)
  case Nil
  show ?case
    by (rule exI [of _ "{}"], rule exI [of _ "{}"]) (use threshold_pos [of c] in \<open>simp add: start_empty\<close>)
next
  case (snoc v vs)
  let ?m = "snd (collect_all (step c) vs start)" and ?n = "fst (collect_all (step c) vs start)"
  let ?a = "author v" and ?w = "\<lambda>S. \<Sum>a\<in>S. weight c a"
  have run: "snd (collect_all (step c) (vs @ [v]) start) = snd (step c v ?m)"
    "fst (collect_all (step c) (vs @ [v]) start) = (if fst (step c v ?m) then Suc ?n else ?n)"
    by (simp_all add: collect_all_snoc split_beta Let_def)
  from snoc obtain A B where fin: "finite A" "finite B" and disj: "A \<inter> B = {}"
    and used: "used ?m = A \<union> B" and seen: "A \<union> B = author ` set vs" and held: "held ?m = ?w B"
    and emitted: "if threshold c \<le> ?w A then ?n = 1 else ?n = 0 \<and> A = {} \<and> ?w B < threshold c"
    by blast
  show ?case
  proof (cases "?a \<in> used ?m")
    case True
    then show ?thesis
      by (intro exI [of _ A] exI [of _ B])
        (use fin disj used seen held emitted in \<open>auto simp: run step_again\<close>)
  next
    case False
    then have new: "?a \<notin> A" "?a \<notin> B" using used by auto
    have wB: "?w (insert ?a B) = ?w B + weight c ?a" using fin new by (simp add: add.commute)
    have fits: "held ?m + weight c ?a < capacity"
      using weight_le_total [OF ok, of "insert ?a B"] total_fits [OF ok] fin by (simp add: held wB)
    show ?thesis
    proof (cases "threshold c \<le> ?w A")
      case True
      have "?w (insert ?a B) < threshold c"
        using no_second_quorum [OF ok, of A "insert ?a B"] fin disj new True by auto
      then have quiet: "\<not> threshold c \<le> held ?m + weight c ?a" by (simp add: held wB)
      show ?thesis
        by (intro exI [of _ A] exI [of _ "insert ?a B"])
          (use fin disj used seen held emitted True False new fits quiet in
            \<open>auto simp: run step_used step_emits step_held wB\<close>)
    next
      case noA: False
      with emitted have A: "A = {}" and n: "?n = 0" and B: "?w B < threshold c" by auto
      show ?thesis
      proof (cases "threshold c \<le> held ?m + weight c ?a")
        case True
        then show ?thesis
          by (intro exI [of _ "insert ?a B"] exI [of _ "{}"])
            (use fin used seen held n A False fits wB in
              \<open>auto simp: run step_used step_emits step_held\<close>)
      next
        case quiet: False
        then show ?thesis
          by (intro exI [of _ "{}"] exI [of _ "insert ?a B"])
            (use fin used seen held n A False fits wB threshold_pos [of c] in
              \<open>auto simp: run step_used step_emits step_held\<close>)
      qed
    qed
  qed
qed

text \<open>Exactly one certificate as soon as the authors seen hold a quorum, none before, none after.\<close>

lemma emits_once:
  assumes ok: "ok c"
  shows "fst (collect_all (step c) vs start) =
    (if threshold c \<le> (\<Sum>a\<in>author ` set vs. weight c a) then 1 else 0)"
proof -
  from collect_all_inv [OF ok, of vs] obtain A B where fin: "finite A" "finite B"
    and seen: "A \<union> B = author ` set vs"
    and emitted: "if threshold c \<le> (\<Sum>a\<in>A. weight c a) then fst (collect_all (step c) vs start) = 1
        else fst (collect_all (step c) vs start) = 0 \<and> A = {} \<and> (\<Sum>a\<in>B. weight c a) < threshold c"
    by blast
  show ?thesis
  proof (cases "threshold c \<le> (\<Sum>a\<in>A. weight c a)")
    case True
    have "(\<Sum>a\<in>A. weight c a) \<le> (\<Sum>a\<in>A \<union> B. weight c a)" using fin by (intro sum_mono2) auto
    with True emitted show ?thesis by (simp flip: seen)
  next
    case False
    with emitted have "A = {}" "(\<Sum>a\<in>B. weight c a) < threshold c" by simp_all
    with False emitted show ?thesis by (simp flip: seen)
  qed
qed

end

text \<open>The two makers as collectors.\<close>

definition qc_step :: "committee \<Rightarrow> vote \<Rightarrow> qc_maker \<Rightarrow> bool \<times> qc_maker" where
  "qc_step c v m = (case qc_maker_append v c m of (r, m') \<Rightarrow> (\<exists>q. r = Ok (Some q), m'))"

definition tc_step :: "committee \<Rightarrow> timeout \<Rightarrow> tc_maker \<Rightarrow> bool \<times> tc_maker" where
  "tc_step c t m = (case tc_maker_append t c m of (r, m') \<Rightarrow> (\<exists>q. r = Ok (Some q), m'))"

lemma total_stake_fits: "committee_ok c \<Longrightarrow> (\<Sum>a\<in>names c. unat (stake c a)) < 4294967296"
  by (simp add: committee_ok_def sum_stake_names)

interpretation qm: collector committee_ok names "\<lambda>c a. unat (stake c a)"
    "\<lambda>c. unat (quorum_threshold c)" qc_step qc_maker_new vote_author qcm_used
    "\<lambda>m. unat (qcm_weight m)" "2 ^ 32"
  by unfold_locales
    (auto simp: qc_step_def qc_maker_append_def qc_maker_new_def Let_def quorum_threshold_pos
      total_stake_fits word_le_nat_alt unat_add_no_overflow)

interpretation tm: collector committee_ok names "\<lambda>c a. unat (stake c a)"
    "\<lambda>c. unat (quorum_threshold c)" tc_step tc_maker_new timeout_author tcm_used
    "\<lambda>m. unat (tcm_weight m)" "2 ^ 32"
  by unfold_locales
    (auto simp: tc_step_def tc_maker_append_def tc_maker_new_def Let_def quorum_threshold_pos
      total_stake_fits word_le_nat_alt unat_add_no_overflow)

section \<open>The certificates that are made\<close>

text \<open>
  A QC or TC in which distinct authorities of a quorum each signed, checked one signature at a time.
\<close>

definition qc_signed :: "'k dalek \<Rightarrow> committee \<Rightarrow> qc \<Rightarrow> bool" where
  "qc_signed D c q \<longleftrightarrow> distinct (map fst (qc_votes q)) \<and> quorum c (fst ` set (qc_votes q))
     \<and> (\<forall>(a, s) \<in> set (qc_votes q). 0 < stake c a \<and> signature_verify D s (qc_digest D q) a = Inr ())"

definition tc_signed :: "'k dalek \<Rightarrow> committee \<Rightarrow> tc \<Rightarrow> bool" where
  "tc_signed D c t \<longleftrightarrow> distinct (map fst (tc_votes t)) \<and> quorum c (fst ` set (tc_votes t))
     \<and> (\<forall>(a, s, hr) \<in> set (tc_votes t). 0 < stake c a
          \<and> signature_verify D s (hash32 D (timeout_preimage (tc_round t) hr)) a = Inr ())"

lemma tc_verify_iff_signed:
  assumes "committee_ok c"
  shows "tc_verify D c t = Inr () \<longleftrightarrow> tc_signed D c t"
  using assms unat_sum_stakes [of c "map fst (tc_votes t)"]
  by (auto simp: tc_verify_def tc_signed_def check_authorities_iff check_tc_signatures_iff
      quorum_def word_le_nat_alt unat_sum_stakes split_beta)

text \<open>
  Documented behaviour of dalek's \<open>verify_batch\<close>: a batch of signatures each of which verifies is
  accepted.
\<close>

definition batch_complete :: "'k dalek \<Rightarrow> bool" where
  "batch_complete D \<longleftrightarrow>
     (\<forall>ms ss ks. length ms = length ss \<and> length ss = length ks
        \<and> (\<forall>i<length ks. verify_strict D (ks ! i) (ms ! i) (ss ! i) = Inr ())
        \<longrightarrow> dalek_verify_batch D ms ss ks = Inr ())"

lemma verify_batch_complete:
  assumes D: "batch_complete D"
    and each: "\<forall>(a, s) \<in> set votes. signature_verify D s d a = Inr ()"
  shows "verify_batch D d votes = Inr ()"
proof (cases "batch_collect D d votes [] [] []")
  case (Inl e)
  from batch_collect_Inl [OF this] each show ?thesis
    by (force dest: signature_verify_parses)
next
  case (Inr mss)
  obtain ms ss ks where mss: "mss = (ms, ss, ks)" by (cases mss)
  from batch_collect_Inr [OF Inr [unfolded mss]] have ms: "ms = map (\<lambda>_. digest_bytes d) votes"
    and ss: "list_all2 (\<lambda>(_, sg) s. sig_from_bytes D (flatten sg) = Inr s) votes ss"
    and ks: "list_all2 (\<lambda>(pk, _) k. pk_from_bytes D (public_key_bytes pk) = Inr k) votes ks"
    by auto
  have len: "length ms = length ss" "length ss = length ks" "length ks = length votes"
    using ms list_all2_lengthD [OF ss] list_all2_lengthD [OF ks] by simp_all
  have "verify_strict D (ks ! i) (ms ! i) (ss ! i) = Inr ()" if i: "i < length ks" for i
  proof -
    from i len have "votes ! i \<in> set votes" by simp
    then have "signature_verify D (snd (votes ! i)) d (fst (votes ! i)) = Inr ()"
      using each by (auto simp: split_beta)
    with i len ms list_all2_nthD [OF ss, of i] list_all2_nthD [OF ks, of i] show ?thesis
      by (auto simp: signature_verify_def split_beta)
  qed
  with D len have "dalek_verify_batch D ms ss ks = Inr ()" unfolding batch_complete_def by blast
  then show ?thesis by (simp add: verify_batch_def Inr mss)
qed

lemma qc_signed_verifies:
  assumes "committee_ok c" and "batch_complete D" and "qc_signed D c q"
  shows "qc_verify D c q = Inr ()"
  using assms verify_batch_complete [OF assms(2), of "qc_votes q" "qc_digest D q"]
    unat_sum_stakes [of c "map fst (qc_votes q)"]
  by (auto simp: qc_verify_def qc_signed_def check_authorities_iff quorum_def word_le_nat_alt
      unat_sum_stakes split_beta)

text \<open>The invariant of the makers and of the aggregator.\<close>

definition qc_maker_ok :: "'k dalek \<Rightarrow> committee \<Rightarrow> digest \<Rightarrow> qc_maker \<Rightarrow> bool" where
  "qc_maker_ok D c d m \<longleftrightarrow> distinct (map fst (qcm_votes m)) \<and> qcm_used m = fst ` set (qcm_votes m)
     \<and> unat (qcm_weight m) \<le> weight_of c (qcm_used m)
     \<and> (\<forall>(a, s) \<in> set (qcm_votes m). 0 < stake c a \<and> signature_verify D s d a = Inr ())"

definition tc_maker_ok :: "'k dalek \<Rightarrow> committee \<Rightarrow> u64 \<Rightarrow> tc_maker \<Rightarrow> bool" where
  "tc_maker_ok D c r m \<longleftrightarrow> distinct (map fst (tcm_votes m)) \<and> tcm_used m = fst ` set (tcm_votes m)
     \<and> unat (tcm_weight m) \<le> weight_of c (tcm_used m)
     \<and> (\<forall>(a, s, hr) \<in> set (tcm_votes m). 0 < stake c a
          \<and> signature_verify D s (hash32 D (timeout_preimage r hr)) a = Inr ())"

definition aggregator_ok :: "'k dalek \<Rightarrow> aggregator \<Rightarrow> bool" where
  "aggregator_ok D a \<longleftrightarrow>
     (\<forall>r ms d m. votes_aggregators a r = Some ms \<longrightarrow> ms d = Some m \<longrightarrow>
        qc_maker_ok D (agg_committee a) d m) \<and>
     (\<forall>r m. timeouts_aggregators a r = Some m \<longrightarrow> tc_maker_ok D (agg_committee a) r m)"

lemma weight_of_insert:
  "finite A \<Longrightarrow> x \<notin> A \<Longrightarrow> weight_of c (insert x A) = weight_of c A + unat (stake c x)"
  by (simp add: weight_of_def)

lemma unat_weight_insert:
  assumes "committee_ok c" and "finite A" and "x \<notin> A" and "unat w \<le> weight_of c A"
  shows "unat (w + stake c x) \<le> weight_of c (insert x A)"
proof -
  have "weight_of c (insert x A) < 2 ^ 32"
    using weight_of_le [of c "insert x A"] assms(1,2) by (simp add: committee_ok_def)
  then have "unat (w + stake c x) = unat w + unat (stake c x)"
    using assms by (simp add: unat_add_no_overflow weight_of_insert)
  with assms show ?thesis by (simp add: weight_of_insert)
qed

lemma qc_maker_append_ok:
  assumes c: "committee_ok c" and v: "vote_verify D c v = Inr ()"
    and m: "qc_maker_ok D c (vote_digest D v) m"
    and run: "qc_maker_append v c m = (r, m')"
  shows "qc_maker_ok D c (vote_digest D v) m'"
    and "r = Ok (Some q) \<Longrightarrow> qc_signed D c q \<and> qc_hash q = vote_hash v \<and> qc_round q = vote_round v"
proof -
  have sig: "0 < stake c (vote_author v)"
    "signature_verify D (vote_signature v) (vote_digest D v) (vote_author v) = Inr ()"
    using v by (auto simp: vote_verify_def)
  have fin: "finite (qcm_used m)" using m by (simp add: qc_maker_ok_def)
  have w: "vote_author v \<notin> qcm_used m \<Longrightarrow>
      unat (qcm_weight m + stake c (vote_author v)) \<le> weight_of c (insert (vote_author v) (qcm_used m))"
    using m by (intro unat_weight_insert [OF c fin]) (auto simp: qc_maker_ok_def)
  show "qc_maker_ok D c (vote_digest D v) m'"
    using run m sig w
    by (auto simp: qc_maker_append_def qc_maker_ok_def Let_def split: if_splits) force+
  show "qc_signed D c q \<and> qc_hash q = vote_hash v \<and> qc_round q = vote_round v" if "r = Ok (Some q)"
    using run m sig w fin that
    by (auto simp: qc_maker_append_def qc_maker_ok_def qc_signed_def Let_def quorum_def
        word_le_nat_alt qc_digest_def vote_digest_def split: if_splits)
qed

lemma tc_maker_append_ok:
  assumes c: "committee_ok c" and t: "timeout_verify D c t = Inr ()"
    and m: "tc_maker_ok D c (timeout_round t) m"
    and run: "tc_maker_append t c m = (r, m')"
  shows "tc_maker_ok D c (timeout_round t) m'"
    and "r = Ok (Some q) \<Longrightarrow> tc_signed D c q \<and> tc_round q = timeout_round t"
proof -
  have sig: "0 < stake c (timeout_author t)"
    "signature_verify D (timeout_signature t)
       (hash32 D (timeout_preimage (timeout_round t) (qc_round (timeout_high_qc t))))
       (timeout_author t) = Inr ()"
    using t by (auto simp: timeout_verify_def timeout_digest_def)
  have fin: "finite (tcm_used m)" using m by (simp add: tc_maker_ok_def)
  have w: "timeout_author t \<notin> tcm_used m \<Longrightarrow> unat (tcm_weight m + stake c (timeout_author t))
      \<le> weight_of c (insert (timeout_author t) (tcm_used m))"
    using m by (intro unat_weight_insert [OF c fin]) (auto simp: tc_maker_ok_def)
  show "tc_maker_ok D c (timeout_round t) m'"
    using run m sig w
    by (auto simp: tc_maker_append_def tc_maker_ok_def Let_def split: if_splits) force+
  show "tc_signed D c q \<and> tc_round q = timeout_round t" if "r = Ok (Some q)"
    using run m sig w fin that
    by (auto simp: tc_maker_append_def tc_maker_ok_def tc_signed_def Let_def quorum_def
        word_le_nat_alt split: if_splits)
qed

lemma qc_maker_new_ok: "qc_maker_ok D c d qc_maker_new"
  by (simp add: qc_maker_ok_def qc_maker_new_def)

lemma tc_maker_new_ok: "tc_maker_ok D c r tc_maker_new"
  by (simp add: tc_maker_ok_def tc_maker_new_def)

lemma add_vote_committee [simp]: "agg_committee (snd (add_vote D v a)) = agg_committee a"
  by (simp add: add_vote_def Let_def split_beta)

lemma add_timeout_committee [simp]: "agg_committee (snd (add_timeout t a)) = agg_committee a"
  by (simp add: add_timeout_def Let_def split_beta)

lemma add_vote_ok:
  assumes c: "committee_ok (agg_committee a)" and v: "vote_verify D (agg_committee a) v = Inr ()"
    and a: "aggregator_ok D a" and run: "add_vote D v a = (r, a')"
  shows "aggregator_ok D a'"
    and "r = Ok (Some q) \<Longrightarrow>
      qc_signed D (agg_committee a) q \<and> qc_hash q = vote_hash v \<and> qc_round q = vote_round v"
proof -
  let ?ms = "or_new Map.empty (votes_aggregators a (vote_round v))"
  let ?m = "or_new qc_maker_new (?ms (vote_digest D v))"
  have m: "qc_maker_ok D (agg_committee a) (vote_digest D v) ?m"
    using a by (auto simp: aggregator_ok_def or_new_def qc_maker_new_ok split: option.splits)
  obtain m' where app: "qc_maker_append v (agg_committee a) ?m = (r, m')"
    and a': "a' = a\<lparr>votes_aggregators :=
      (votes_aggregators a)(vote_round v \<mapsto> ?ms(vote_digest D v \<mapsto> m'))\<rparr>"
    using run by (auto simp: add_vote_def Let_def split: prod.splits)
  show "aggregator_ok D a'"
    using a qc_maker_append_ok(1) [OF c v m app]
    by (auto simp: a' aggregator_ok_def or_new_def split: if_splits option.splits)
  show "r = Ok (Some q) \<Longrightarrow>
      qc_signed D (agg_committee a) q \<and> qc_hash q = vote_hash v \<and> qc_round q = vote_round v"
    by (rule qc_maker_append_ok(2) [OF c v m app])
qed

lemma add_timeout_ok:
  assumes c: "committee_ok (agg_committee a)" and t: "timeout_verify D (agg_committee a) t = Inr ()"
    and a: "aggregator_ok D a" and run: "add_timeout t a = (r, a')"
  shows "aggregator_ok D a'"
    and "r = Ok (Some q) \<Longrightarrow> tc_signed D (agg_committee a) q \<and> tc_round q = timeout_round t"
proof -
  let ?m = "or_new tc_maker_new (timeouts_aggregators a (timeout_round t))"
  have m: "tc_maker_ok D (agg_committee a) (timeout_round t) ?m"
    using a by (auto simp: aggregator_ok_def or_new_def tc_maker_new_ok split: option.splits)
  obtain m' where app: "tc_maker_append t (agg_committee a) ?m = (r, m')"
    and a': "a' = a\<lparr>timeouts_aggregators := (timeouts_aggregators a)(timeout_round t \<mapsto> m')\<rparr>"
    using run by (auto simp: add_timeout_def Let_def split: prod.splits)
  show "aggregator_ok D a'"
    using a tc_maker_append_ok(1) [OF c t m app]
    by (auto simp: a' aggregator_ok_def split: if_splits)
  show "r = Ok (Some q) \<Longrightarrow> tc_signed D (agg_committee a) q \<and> tc_round q = timeout_round t"
    by (rule tc_maker_append_ok(2) [OF c t m app])
qed

lemma cleanup_ok: "aggregator_ok D a \<Longrightarrow> aggregator_ok D (cleanup r a)"
  by (auto simp: aggregator_ok_def cleanup_def)

lemma aggregator_new_ok: "aggregator_ok D (aggregator_new c)"
  by (simp add: aggregator_ok_def aggregator_new_def)

section \<open>Properties\<close>

text \<open>
  The aggregators a core can reach: it adds only votes and timeouts that passed their \<open>verify\<close>.
\<close>

inductive aggregator_reach :: "'k dalek \<Rightarrow> committee \<Rightarrow> aggregator \<Rightarrow> bool" for D c where
  new: "aggregator_reach D c (aggregator_new c)"
| vote: "aggregator_reach D c a \<Longrightarrow> vote_verify D c v = Inr () \<Longrightarrow>
    aggregator_reach D c (snd (add_vote D v a))"
| timeout: "aggregator_reach D c a \<Longrightarrow> timeout_verify D c t = Inr () \<Longrightarrow>
    aggregator_reach D c (snd (add_timeout t a))"
| cleanup: "aggregator_reach D c a \<Longrightarrow> aggregator_reach D c (cleanup r a)"

lemma aggregator_reach_ok:
  assumes "aggregator_reach D c a" and "committee_ok c"
  shows "aggregator_ok D a \<and> agg_committee a = c"
  using assms
proof (induction rule: aggregator_reach.induct)
  case new
  then show ?case by (simp add: aggregator_new_ok) (simp add: aggregator_new_def)
next
  case (vote a v)
  then show ?case
    using add_vote_ok(1) [of a D v "fst (add_vote D v a)" "snd (add_vote D v a)"] by simp
next
  case (timeout a t)
  then show ?case
    using add_timeout_ok(1) [of a D t "fst (add_timeout t a)" "snd (add_timeout t a)"] by simp
next
  case (cleanup a r)
  then show ?case by (simp add: cleanup_ok) (simp add: cleanup_def)
qed

text \<open>
  C15. Every certificate the aggregator makes verifies: whatever verified votes and timeouts were added
  before, a QC it returns passes \<open>QC::verify\<close> at every node (when batch verification accepts a batch
  of valid signatures) and certifies the block and round of the vote that completed it, and a TC it
  returns passes \<open>TC::verify\<close> for the round of the timeout that completed it.
\<close>

theorem assembled_certificates_verify:
  assumes "committee_ok c" and "batch_complete D" and "aggregator_reach D c a"
    and "vote_verify D c v = Inr ()" and "timeout_verify D c t = Inr ()"
  shows "(\<forall>q a'. add_vote D v a = (Ok (Some q), a') \<longrightarrow>
            qc_verify D c q = Inr () \<and> qc_hash q = vote_hash v \<and> qc_round q = vote_round v)
    \<and> (\<forall>q a'. add_timeout t a = (Ok (Some q), a') \<longrightarrow>
            tc_verify D c q = Inr () \<and> tc_round q = timeout_round t)"
proof -
  have a: "aggregator_ok D a" "agg_committee a = c"
    using aggregator_reach_ok [OF assms(3,1)] by auto
  show ?thesis
    using add_vote_ok(2) [of a D v] add_timeout_ok(2) [of a D t] assms a
    by (auto simp: qc_signed_verifies tc_verify_iff_signed)
qed

text \<open>A dalek that accepts everything, for the witnesses.\<close>

definition lax_dalek :: "bytes dalek" where
  "lax_dalek = \<lparr>sha512 = (\<lambda>m. take 64 (m @ replicate 64 0)), sig_from_bytes = Inr, pk_from_bytes = Inr,
     verify_strict = (\<lambda>_ _ _. Inr ()), dalek_verify_batch = (\<lambda>_ _ _. Inr ()),
     keypair_from_bytes = Inr, keypair_sign = (\<lambda>k m. take 64 (m @ replicate 64 0))\<rparr>"

lemma lax_batch_complete: "batch_complete lax_dalek"
  by (simp add: batch_complete_def lax_dalek_def)

lemma lax_signature_verify [simp]: "signature_verify lax_dalek s d a = Inr ()"
  by (simp add: signature_verify_def lax_dalek_def)

definition test_vote :: "u8 \<Rightarrow> vote" where
  "test_vote i = \<lparr>vote_hash = digest_default, vote_round = 3, vote_author = test_key i,
     vote_signature = signature_default\<rparr>"

definition test_timeout :: "u8 \<Rightarrow> timeout" where
  "test_timeout i = \<lparr>timeout_high_qc = qc_genesis, timeout_round = 3, timeout_author = test_key i,
     timeout_signature = signature_default\<rparr>"

lemma test_stake:
  "stake test_committee (test_key 1) = 1" "stake test_committee (test_key 2) = 1"
  "stake test_committee (test_key 3) = 1" "stake test_committee (test_key 4) = 1"
  by (simp_all add: stake_def test_committee_authorities test_key_def)

lemma test_messages_verify:
  "i \<in> {1, 2, 3, 4} \<Longrightarrow> vote_verify lax_dalek test_committee (test_vote i) = Inr ()"
  "i \<in> {1, 2, 3, 4} \<Longrightarrow> timeout_verify lax_dalek test_committee (test_timeout i) = Inr ()"
  by (auto simp: vote_verify_def timeout_verify_def test_vote_def test_timeout_def test_stake
      qc_eq_def map_err_def)

theorem assembled_certificates_verify_witness:
  "\<exists>a q a'. add_vote lax_dalek (test_vote 3) a = (Ok (Some q), a')
     \<and> qc_verify lax_dalek test_committee q = Inr () \<and> map fst (qc_votes q) = map test_key [1, 2, 3]"
proof -
  let ?D = "lax_dalek" and ?c = "test_committee"
  let ?a = "snd (add_vote ?D (test_vote 2) (snd (add_vote ?D (test_vote 1) (aggregator_new ?c))))"
  have th: "quorum_threshold ?c = 3"
    by (simp add: quorum_threshold_def test_committee_authorities)
  have reach: "aggregator_reach ?D ?c ?a"
    by (intro aggregator_reach.intros test_messages_verify) simp_all
  obtain q a' where run: "add_vote ?D (test_vote 3) ?a = (Ok (Some q), a')"
    and voters: "map fst (qc_votes q) = map test_key [1, 2, 3]"
    by (simp add: add_vote_def qc_maker_append_def aggregator_new_def or_new_def qc_maker_new_def
        Let_def test_vote_def vote_digest_def th test_stake word_le_nat_alt)
  have "qc_verify ?D ?c q = Inr ()"
    using assembled_certificates_verify [OF test_committee_ok lax_batch_complete reach
        test_messages_verify(1) [of 3] test_messages_verify(2) [of 3]] run by simp
  with run voters show ?thesis by blast
qed

text \<open>
  C16. One certificate per maker: along any sequence of votes (or timeouts) appended to a fresh maker,
  repeated authors included, exactly one certificate is made if the distinct authors hold a quorum and
  none otherwise; resetting the weight to 0 never lets the remaining authorities make a second one.
\<close>

theorem certificate_made_exactly_once:
  assumes "committee_ok c"
  shows "fst (collect_all (qc_step c) votes qc_maker_new) =
      (if quorum c (vote_author ` set votes) then 1 else 0)
    \<and> fst (collect_all (tc_step c) timeouts tc_maker_new) =
      (if quorum c (timeout_author ` set timeouts) then 1 else 0)"
  using qm.emits_once [OF assms, of votes] tm.emits_once [OF assms, of timeouts]
  by (simp add: quorum_def weight_of_def)

theorem certificate_made_exactly_once_witness:
  "fst (collect_all (qc_step test_committee) (map test_vote [1, 2, 2, 3, 4, 4]) qc_maker_new) = 1"
proof -
  have "unat (quorum_threshold test_committee) = 3"
    by (simp add: quorum_threshold_def test_committee_authorities)
  then have "quorum test_committee (vote_author ` set (map test_vote [1, 2, 2, 3, 4, 4]))"
    by (simp add: quorum_def weight_of_def test_vote_def test_stake)
  then show ?thesis
    using certificate_made_exactly_once [OF test_committee_ok, of "map test_vote [1, 2, 2, 3, 4, 4]"]
    by simp
qed

end
