(* ===== verification/Float64.thy ===== *)
theory Float64
  imports Prelude "HOL-Library.Log_Nat"
begin

text \<open>
  IEEE 754 binary64 arithmetic as the timers use it: values are rationals, each operation is the exact
  one followed by rounding to nearest, ties to even. Infinities and NaN do not occur: every value the
  timers compute is far below \<open>2 ^ 1024\<close> (inputs are below \<open>2 ^ 128\<close>) and no division by zero is made.
\<close>

section \<open>Rounding\<close>

text \<open>The binary exponent: the \<open>e\<close> with \<open>2 powi e \<le> q < 2 powi (e + 1)\<close>.\<close>

definition flog2 :: "rat \<Rightarrow> int" where
  "flog2 q =
     (let (n, d) = quotient_of q; e = bitlen n - bitlen d
      in if 2 powi e \<le> q then e else e - 1)"

definition round_half_even :: "rat \<Rightarrow> int" where
  "round_half_even x =
     (let f = \<lfloor>x\<rfloor>; r = x - of_int f
      in if r < 1 / 2 then f else if 1 / 2 < r then f + 1 else if even f then f else f + 1)"

text \<open>The exponent of the last place, bounded below by that of the subnormal numbers.\<close>

definition ulp_exp :: "rat \<Rightarrow> int" where
  "ulp_exp q = max (flog2 q - 52) (-1074)"

definition round_pos :: "rat \<Rightarrow> rat" where
  "round_pos q = of_int (round_half_even (q / 2 powi ulp_exp q)) * 2 powi ulp_exp q"

definition rnd64 :: "rat \<Rightarrow> rat" where
  "rnd64 x = (if x = 0 then 0 else if 0 < x then round_pos x else - round_pos (- x))"

section \<open>Operations\<close>

definition fadd :: "rat \<Rightarrow> rat \<Rightarrow> rat" where "fadd x y = rnd64 (x + y)"

definition fsub :: "rat \<Rightarrow> rat \<Rightarrow> rat" where "fsub x y = rnd64 (x - y)"

definition fmul :: "rat \<Rightarrow> rat \<Rightarrow> rat" where "fmul x y = rnd64 (x * y)"

definition fdiv :: "rat \<Rightarrow> rat \<Rightarrow> rat" where "fdiv x y = rnd64 (x / y)"

text \<open>\<open>n as f64\<close> for an unsigned integer, and \<open>x as u64\<close>, which truncates and saturates.\<close>

definition f64_of_nat :: "nat \<Rightarrow> rat" where "f64_of_nat n = rnd64 (of_nat n)"

definition f64_as_u64 :: "rat \<Rightarrow> u64" where
  "f64_as_u64 x = (if x < 0 then 0 else if 2 ^ 64 \<le> x then - 1 else word_of_int \<lfloor>x\<rfloor>)"

section \<open>Rounding is monotone and exact on representable values\<close>

lemma powi_mono: "i \<le> j \<Longrightarrow> (2::rat) powi i \<le> 2 powi j"
  by (rule power_int_increasing) auto

lemma powi_pos [simp]: "0 < (2::rat) powi i"
  by simp

lemma powi_less_imp: "(2::rat) powi i < 2 powi j \<Longrightarrow> i < j"
  by (metis leI not_less powi_mono)

lemma flog2_bounds:
  assumes "0 < q"
  shows "2 powi flog2 q \<le> q" and "q < 2 powi (flog2 q + 1)"
proof -
  obtain n d where nd: "quotient_of q = (n, d)" by (cases "quotient_of q")
  then have q: "q = of_int n / of_int d" and d: "0 < d"
    by (auto dest: quotient_of_div quotient_of_denom_pos)
  with assms have n: "0 < n" by (simp add: zero_less_divide_iff)
  have pw: "(2::rat) powi j = of_int (2 ^ nat j)" if "0 \<le> j" for j
    using that by (simp add: power_int_def)
  have bl: "0 < bitlen n" "0 < bitlen d"
    using n d bitlen_eq_zero_iff [of n] bitlen_nonneg [of n] bitlen_eq_zero_iff [of d]
      bitlen_nonneg [of d] by linarith+
  have "2 ^ nat (bitlen n - 1) \<le> n" "n < 2 ^ nat (bitlen n)"
    "2 ^ nat (bitlen d - 1) \<le> d" "d < 2 ^ nat (bitlen d)"
    using bitlen_bounds [OF n] bitlen_bounds [OF d] by auto
  then have "(of_int (2 ^ nat (bitlen n - 1)) :: rat) \<le> of_int n"
    "(of_int n :: rat) < of_int (2 ^ nat (bitlen n))"
    "(of_int (2 ^ nat (bitlen d - 1)) :: rat) \<le> of_int d"
    "(of_int d :: rat) < of_int (2 ^ nat (bitlen d))"
    by (simp_all only: of_int_le_iff of_int_less_iff)
  then have b: "(2::rat) powi (bitlen n - 1) \<le> of_int n" "(of_int n :: rat) < 2 powi bitlen n"
    "(2::rat) powi (bitlen d - 1) \<le> of_int d" "(of_int d :: rat) < 2 powi bitlen d"
    using bl by (simp_all add: pw)
  let ?e = "bitlen n - bitlen d"
  have "q < 2 powi (?e + 1)"
  proof -
    have "q < 2 powi bitlen n / 2 powi (bitlen d - 1)"
      unfolding q using b(2,3) n d by (intro frac_less) auto
    also have "\<dots> = 2 powi (?e + 1)" by (simp flip: power_int_diff add: algebra_simps)
    finally show ?thesis .
  qed
  moreover have "2 powi (?e - 1) \<le> q"
  proof -
    have "2 powi (?e - 1) = 2 powi (bitlen n - 1) / (2 powi bitlen d :: rat)"
      by (simp flip: power_int_diff add: algebra_simps)
    also have "\<dots> \<le> q" unfolding q using b(1,4) n d by (intro frac_le) auto
    finally show ?thesis .
  qed
  ultimately show "2 powi flog2 q \<le> q" "q < 2 powi (flog2 q + 1)"
    by (auto simp: flog2_def nd Let_def)
qed

lemma flog2_mono: "0 < p \<Longrightarrow> p \<le> q \<Longrightarrow> flog2 p \<le> flog2 q"
  using flog2_bounds [of p] flog2_bounds [of q] powi_less_imp [of "flog2 p" "flog2 q + 1"] by force

lemma ulp_exp_mono: "0 < p \<Longrightarrow> p \<le> q \<Longrightarrow> ulp_exp p \<le> ulp_exp q"
  using flog2_mono [of p q] by (simp add: ulp_exp_def)

lemma round_half_even_floor:
  "\<lfloor>x\<rfloor> \<le> round_half_even x" "round_half_even x \<le> \<lfloor>x\<rfloor> + 1"
  by (simp_all add: round_half_even_def Let_def)

lemma round_half_even_int [simp]: "round_half_even (of_int n) = n"
  by (simp add: round_half_even_def)

lemma round_half_even_0 [simp]: "round_half_even 0 = 0"
  using round_half_even_int [of 0] by (simp del: round_half_even_int)

lemma round_half_even_mono:
  assumes "x \<le> y"
  shows "round_half_even x \<le> round_half_even y"
proof (cases "\<lfloor>x\<rfloor> = \<lfloor>y\<rfloor>")
  case True
  with assms show ?thesis by (auto simp: round_half_even_def Let_def)
next
  case False
  moreover have "\<lfloor>x\<rfloor> \<le> \<lfloor>y\<rfloor>" using assms by (rule floor_mono)
  ultimately have "\<lfloor>x\<rfloor> + 1 \<le> \<lfloor>y\<rfloor>" by linarith
  then show ?thesis using round_half_even_floor [of x] round_half_even_floor [of y] by linarith
qed

lemma round_pos_nonneg: "0 < q \<Longrightarrow> 0 \<le> round_pos q"
  using round_half_even_mono [of 0 "q / 2 powi ulp_exp q"] by (simp add: round_pos_def)

lemma round_pos_mono:
  assumes "0 < p" and "p \<le> q"
  shows "round_pos p \<le> round_pos q"
proof (cases "ulp_exp p = ulp_exp q")
  case True
  have "p / 2 powi ulp_exp q \<le> q / 2 powi ulp_exp q" using assms by (simp add: divide_right_mono)
  then show ?thesis by (simp add: round_pos_def True round_half_even_mono mult_right_mono)
next
  case False
  with ulp_exp_mono [OF assms] have less: "ulp_exp p < ulp_exp q" by simp
  then have uq: "ulp_exp q = flog2 q - 52" by (auto simp: ulp_exp_def split: if_splits)
  let ?u = "2 powi ulp_exp p :: rat" and ?v = "2 powi ulp_exp q :: rat"
  have "p < 2 powi (flog2 p + 1)" using assms(1) by (rule flog2_bounds)
  also have "\<dots> \<le> 2 powi (ulp_exp p + 53)" by (rule powi_mono) (simp add: ulp_exp_def)
  also have "\<dots> = of_int (2 ^ 53) * ?u" by (simp add: power_int_add)
  finally have "p / ?u \<le> of_int (2 ^ 53)" by (simp add: divide_le_eq)
  from round_half_even_mono [OF this] have "round_half_even (p / ?u) \<le> 2 ^ 53"
    by (simp only: round_half_even_int)
  then have "(of_int (round_half_even (p / ?u)) :: rat) \<le> of_int (2 ^ 53)"
    by (simp only: of_int_le_iff)
  then have "round_pos p \<le> of_int (2 ^ 53) * ?u"
    unfolding round_pos_def by (rule mult_right_mono) simp
  also have "\<dots> = 2 powi (ulp_exp p + 1) * of_int (2 ^ 52)" by (simp add: power_int_add)
  also have "\<dots> \<le> ?v * of_int (2 ^ 52)" using less by (intro mult_right_mono powi_mono) auto
  also have "\<dots> \<le> round_pos q"
  proof -
    have "0 < q" using assms by simp
    then have "2 powi (ulp_exp q + 52) \<le> q" using flog2_bounds(1) [of q] by (simp add: uq)
    then have "of_int (2 ^ 52) \<le> q / ?v" by (simp add: power_int_add le_divide_eq mult.commute)
    from round_half_even_mono [OF this] have "2 ^ 52 \<le> round_half_even (q / ?v)"
      by (simp only: round_half_even_int)
    then have "(of_int (2 ^ 52) :: rat) \<le> of_int (round_half_even (q / ?v))"
      by (simp only: of_int_le_iff)
    then show ?thesis unfolding round_pos_def by (subst mult.commute) (rule mult_right_mono, simp_all)
  qed
  finally show ?thesis .
qed

lemma rnd64_mono:
  assumes "x \<le> y"
  shows "rnd64 x \<le> rnd64 y"
proof -
  consider "0 < x" | "x \<le> 0" "0 \<le> y" | "y < 0" by linarith
  then show ?thesis
  proof cases
    case 1
    with assms show ?thesis by (simp add: rnd64_def round_pos_mono)
  next
    case 2
    then have "rnd64 x \<le> 0" "0 \<le> rnd64 y"
      using round_pos_nonneg [of "- x"] round_pos_nonneg [of y] by (auto simp: rnd64_def)
    then show ?thesis by simp
  next
    case 3
    with assms show ?thesis by (simp add: rnd64_def round_pos_mono)
  qed
qed

lemma round_pos_exact:
  assumes "0 < m" and "m < 2 ^ 53" and "-1074 \<le> k"
  shows "round_pos (of_int m * 2 powi k) = of_int m * 2 powi k"
proof -
  let ?q = "of_int m * 2 powi k :: rat"
  have q: "0 < ?q" using assms(1) by simp
  have "2 powi flog2 ?q \<le> ?q" by (rule flog2_bounds(1) [OF q])
  also have "(of_int m :: rat) < of_int (2 ^ 53)" using assms(2) by (simp only: of_int_less_iff)
  then have "?q < of_int (2 ^ 53) * 2 powi k" by (intro mult_strict_right_mono) simp_all
  also have "\<dots> = 2 powi (k + 53)" by (simp add: power_int_add)
  finally have "flog2 ?q < k + 53" by (rule powi_less_imp)
  with assms(3) have le: "ulp_exp ?q \<le> k" by (simp add: ulp_exp_def)
  have "?q / 2 powi ulp_exp ?q = of_int m * 2 powi (k - ulp_exp ?q)"
    by (simp add: power_int_diff)
  also have "\<dots> = of_int (m * 2 ^ nat (k - ulp_exp ?q))"
    using le by (simp add: power_int_def)
  finally have int: "?q / 2 powi ulp_exp ?q = of_int (m * 2 ^ nat (k - ulp_exp ?q))" .
  have "round_pos ?q = of_int (m * 2 ^ nat (k - ulp_exp ?q)) * 2 powi ulp_exp ?q"
    by (simp only: round_pos_def int round_half_even_int)
  also have "\<dots> = ?q" unfolding int [symmetric] by simp
  finally show ?thesis .
qed

lemma rnd64_exact:
  assumes "\<bar>m\<bar> < 2 ^ 53" and "-1074 \<le> k"
  shows "rnd64 (of_int m * 2 powi k) = of_int m * 2 powi k"
proof -
  consider "m = 0" | "0 < m" | "m < 0" by linarith
  then show ?thesis
  proof cases
    case 1
    then show ?thesis by (simp add: rnd64_def)
  next
    case 2
    with assms show ?thesis by (simp add: rnd64_def round_pos_exact)
  next
    case 3
    with assms have "round_pos (of_int (- m) * 2 powi k) = of_int (- m) * 2 powi k"
      by (intro round_pos_exact) simp_all
    moreover have "(of_int m :: rat) * 2 powi k < 0" using 3 by (simp add: mult_neg_pos)
    ultimately show ?thesis by (simp add: rnd64_def)
  qed
qed

lemma rnd64_int: "\<bar>m\<bar> < 2 ^ 53 \<Longrightarrow> rnd64 (of_int m) = of_int m"
  using rnd64_exact [of m 0] by simp

lemma rnd64_eighths: "\<bar>m\<bar> < 2 ^ 53 \<Longrightarrow> rnd64 (of_int m / 8) = of_int m / 8"
proof -
  assume "\<bar>m\<bar> < 2 ^ 53"
  then have "rnd64 (of_int m * 2 powi (- 3)) = of_int m * 2 powi (- 3)" by (rule rnd64_exact) simp
  moreover have "(2::rat) powi (- 3) = 1 / 8" by (simp add: power_int_minus)
  ultimately show ?thesis by simp
qed

lemma rnd64_0 [simp]: "rnd64 0 = 0"
  by (simp add: rnd64_def)

lemma rnd64_nonneg: "0 \<le> x \<Longrightarrow> 0 \<le> rnd64 x"
  using rnd64_mono [of 0 x] by simp

lemma rnd64_le_int: "x \<le> of_int m \<Longrightarrow> \<bar>m\<bar> < 2 ^ 53 \<Longrightarrow> rnd64 x \<le> of_int m"
  using rnd64_mono [of x "of_int m"] by (simp add: rnd64_int)

lemma rnd64_ge_int: "of_int m \<le> x \<Longrightarrow> \<bar>m\<bar> < 2 ^ 53 \<Longrightarrow> of_int m \<le> rnd64 x"
  using rnd64_mono [of "of_int m" x] by (simp add: rnd64_int)

lemma rnd64_le_eighths: "x \<le> of_int m / 8 \<Longrightarrow> \<bar>m\<bar> < 2 ^ 53 \<Longrightarrow> rnd64 x \<le> of_int m / 8"
  using rnd64_mono [of x "of_int m / 8"] by (simp add: rnd64_eighths)

lemma rnd64_ge_eighths: "of_int m / 8 \<le> x \<Longrightarrow> \<bar>m\<bar> < 2 ^ 53 \<Longrightarrow> of_int m / 8 \<le> rnd64 x"
  using rnd64_mono [of "of_int m / 8" x] by (simp add: rnd64_eighths)

end
