(* ===== verification/Timer.thy ===== *)
theory Timer
  imports Float64
begin

text \<open>
  The round timers of the consensus: \<open>consensus/src/timer.rs\<close> (adaptive, the one the core uses, with
  the identical copy \<open>timer_adaptive.rs\<close>), \<open>timer_fixed.rs\<close> and \<open>timer_exponential.rs\<close>. An instant
  is a number of nanoseconds; every method that reads the clock takes the reading as its argument; the
  pinned \<open>Sleep\<close> is its deadline. What the core relies on is the locale \<open>round_timer\<close>, interpreted
  for the three files.
\<close>

type_synonym instant = nat

definition from_millis :: "u64 \<Rightarrow> nat" where
  "from_millis w = unat w * 1000000"

text \<open>\<open>start.elapsed().as_millis()\<close> at the reading \<open>now\<close>.\<close>

definition elapsed_millis :: "instant \<Rightarrow> instant \<Rightarrow> nat" where
  "elapsed_millis now start = (now - start) div 1000000"

section \<open>The adaptive timer\<close>

record timer =
  estimated_rtt :: rat
  dev_rtt :: rat
  alpha :: rat
  beta :: rat
  current_timeout :: u64
  min_timeout :: u64
  max_timeout :: u64
  round_start_time :: "instant option"
  sleep :: instant

definition timer_new :: "u64 \<Rightarrow> instant \<Rightarrow> timer" where
  "timer_new initial_timeout now =
     \<lparr>estimated_rtt = f64_of_nat (unat initial_timeout),
      dev_rtt = fdiv (f64_of_nat (unat initial_timeout)) 4,
      alpha = 1 / 8, beta = 1 / 4,
      current_timeout = initial_timeout, min_timeout = 1500, max_timeout = 30000,
      round_start_time = None, sleep = now + from_millis initial_timeout\<rparr>"

definition start_round :: "instant \<Rightarrow> timer \<Rightarrow> timer" where
  "start_round now t = t\<lparr>round_start_time := Some now\<rparr>"

definition on_round_complete :: "instant \<Rightarrow> timer \<Rightarrow> timer" where
  "on_round_complete now t =
     (case round_start_time t of
        None \<Rightarrow> t
      | Some start_time \<Rightarrow>
          let sample_rtt = f64_of_nat (elapsed_millis now start_time);
              error = \<bar>fsub sample_rtt (estimated_rtt t)\<bar>;
              dev = fadd (fmul (fsub 1 (beta t)) (dev_rtt t)) (fmul (beta t) error);
              est = fadd (fmul (fsub 1 (alpha t)) (estimated_rtt t)) (fmul (alpha t) sample_rtt);
              calculated_timeout = fadd est (fmul 4 dev)
          in t\<lparr>dev_rtt := dev, estimated_rtt := est,
               current_timeout := f64_as_u64
                 (min (max calculated_timeout (f64_of_nat (unat (min_timeout t))))
                      (f64_of_nat (unat (max_timeout t))))\<rparr>)"

definition reset :: "instant \<Rightarrow> timer \<Rightarrow> timer" where
  "reset now t =
     (let t = start_round now t in t\<lparr>sleep := now + from_millis (current_timeout t)\<rparr>)"

text \<open>\<open>poll\<close> is that of the sleep: ready from the deadline on.\<close>

definition poll :: "instant \<Rightarrow> timer \<Rightarrow> bool" where
  "poll now t \<longleftrightarrow> sleep t \<le> now"

section \<open>The fixed timer\<close>

definition fixed_new :: "u64 \<Rightarrow> instant \<Rightarrow> timer" where
  "fixed_new initial_timeout now =
     \<lparr>estimated_rtt = f64_of_nat (unat initial_timeout),
      dev_rtt = fdiv (f64_of_nat (unat initial_timeout)) 4,
      alpha = 1 / 8, beta = 1 / 4,
      current_timeout = initial_timeout, min_timeout = 500, max_timeout = 30000,
      round_start_time = None, sleep = now + from_millis initial_timeout\<rparr>"

definition fixed_start_round :: "instant \<Rightarrow> timer \<Rightarrow> timer" where
  "fixed_start_round now t = t\<lparr>round_start_time := Some now\<rparr>"

definition fixed_on_round_complete :: "instant \<Rightarrow> timer \<Rightarrow> timer" where
  "fixed_on_round_complete now t = t\<lparr>current_timeout := 5000\<rparr>"

definition fixed_reset :: "instant \<Rightarrow> timer \<Rightarrow> timer" where
  "fixed_reset now t =
     (let t = fixed_start_round now t in t\<lparr>sleep := now + from_millis (current_timeout t)\<rparr>)"

section \<open>The exponential timer\<close>

record exp_timer =
  exp_current_timeout :: u64
  exp_base_timeout :: u64
  exp_max_timeout :: u64
  exp_consecutive_timeouts :: u32
  exp_round_start_time :: "instant option"
  exp_sleep :: instant

definition exp_new :: "u64 \<Rightarrow> instant \<Rightarrow> exp_timer" where
  "exp_new initial_timeout now =
     \<lparr>exp_current_timeout = initial_timeout, exp_base_timeout = initial_timeout,
      exp_max_timeout = 30000, exp_consecutive_timeouts = 0, exp_round_start_time = Some now,
      exp_sleep = now + from_millis initial_timeout\<rparr>"

definition exp_start_round :: "instant \<Rightarrow> exp_timer \<Rightarrow> exp_timer" where
  "exp_start_round now t = t\<lparr>exp_round_start_time := Some now\<rparr>"

definition exp_on_round_complete :: "instant \<Rightarrow> exp_timer \<Rightarrow> exp_timer" where
  "exp_on_round_complete now t =
     t\<lparr>exp_consecutive_timeouts := 0, exp_current_timeout := exp_base_timeout t\<rparr>"

definition exp_reset :: "instant \<Rightarrow> exp_timer \<Rightarrow> exp_timer" where
  "exp_reset now t =
     (let t = (case exp_round_start_time t of
                 None \<Rightarrow> t
               | Some start_time \<Rightarrow>
                   let elapsed_ms = of_nat (elapsed_millis now start_time)
                   in if elapsed_ms \<ge> exp_current_timeout t then
                        let n = exp_consecutive_timeouts t + 1
                        in t\<lparr>exp_consecutive_timeouts := n,
                             exp_current_timeout :=
                               min (exp_base_timeout t * 2 ^ unat n) (exp_max_timeout t)\<rparr>
                      else t)
      in t\<lparr>exp_sleep := now + from_millis (exp_current_timeout t)\<rparr>)"

section \<open>What the core relies on\<close>

text \<open>The calls the core makes on its timer, each with a clock reading.\<close>

datatype timer_call = Start_round instant | On_round_complete instant | Reset instant

fun timer_calls ::
    "(instant \<Rightarrow> 't \<Rightarrow> 't) \<Rightarrow> (instant \<Rightarrow> 't \<Rightarrow> 't) \<Rightarrow> (instant \<Rightarrow> 't \<Rightarrow> 't) \<Rightarrow> timer_call list \<Rightarrow> 't \<Rightarrow> 't" where
  "timer_calls start finish rst [] t = t"
| "timer_calls start finish rst (Start_round now # cs) t =
     timer_calls start finish rst cs (start now t)"
| "timer_calls start finish rst (On_round_complete now # cs) t =
     timer_calls start finish rst cs (finish now t)"
| "timer_calls start finish rst (Reset now # cs) t =
     timer_calls start finish rst cs (rst now t)"

lemma timer_calls_append:
  "timer_calls start finish rst (cs @ cs') t = timer_calls start finish rst cs' (timer_calls start finish rst cs t)"
proof (induction cs arbitrary: t)
  case (Cons c cs)
  then show ?case by (cases c) simp_all
qed simp

locale round_timer =
  fixes new :: "u64 \<Rightarrow> instant \<Rightarrow> 't"
    and start :: "instant \<Rightarrow> 't \<Rightarrow> 't"
    and finish :: "instant \<Rightarrow> 't \<Rightarrow> 't"
    and rst :: "instant \<Rightarrow> 't \<Rightarrow> 't"
    and timeout :: "'t \<Rightarrow> u64"
    and deadline :: "'t \<Rightarrow> instant"
    and inv :: "u64 \<Rightarrow> 't \<Rightarrow> bool"
  assumes new_timer: "timeout (new b now) = b" "deadline (new b now) = now + from_millis b"
      "inv b (new b now)"
    and start_timer: "timeout (start now t) = timeout t" "deadline (start now t) = deadline t"
      "inv b t \<Longrightarrow> inv b (start now t)"
    and complete_timer: "deadline (finish now t) = deadline t" "inv b t \<Longrightarrow> inv b (finish now t)"
    and reset_timer: "deadline (rst now t) = now + from_millis (timeout (rst now t))"
      "inv b t \<Longrightarrow> inv b (rst now t)"
    and inv_cap: "inv b t \<Longrightarrow> timeout t \<le> max b 30000"
begin

lemma calls_inv: "inv b t \<Longrightarrow> inv b (timer_calls start finish rst cs t)"
proof (induction cs arbitrary: t)
  case (Cons c cs)
  then show ?case by (cases c) (simp_all add: start_timer complete_timer reset_timer)
qed simp

text \<open>
  Advancing a round (\<open>on_round_complete\<close>, \<open>reset\<close>, \<open>start_round\<close>, in the core's order) arms the sleep
  with the timeout just computed, and no armed delay exceeds the initial timeout or 30 s.
\<close>

lemma round_change_arms:
  "deadline (start now (rst now (finish now t))) =
     now + from_millis (timeout (start now (rst now (finish now t))))"
  by (simp add: start_timer reset_timer)

lemma armed_delay_bounded:
  "deadline (rst now (timer_calls start finish rst cs (new b now0))) \<le> now + from_millis (max b 30000)"
proof -
  let ?t = "rst now (timer_calls start finish rst cs (new b now0))"
  have "inv b ?t" by (intro reset_timer calls_inv new_timer)
  then have "timeout ?t \<le> max b 30000" by (rule inv_cap)
  then have "unat (timeout ?t) \<le> unat (max b 30000)" by (simp add: word_le_nat_alt)
  then show ?thesis by (simp only: reset_timer(1) from_millis_def add_le_cancel_left mult_le_mono1)
qed

end

definition timer_inv :: "u64 \<Rightarrow> timer \<Rightarrow> bool" where
  "timer_inv b t \<longleftrightarrow> min_timeout t = 1500 \<and> max_timeout t = 30000
     \<and> (current_timeout t = b \<or> 1500 \<le> current_timeout t \<and> current_timeout t \<le> 30000)"

definition fixed_inv :: "u64 \<Rightarrow> timer \<Rightarrow> bool" where
  "fixed_inv b t \<longleftrightarrow> current_timeout t = b \<or> current_timeout t = 5000"

definition exp_inv :: "u64 \<Rightarrow> exp_timer \<Rightarrow> bool" where
  "exp_inv b t \<longleftrightarrow> exp_base_timeout t = b \<and> exp_max_timeout t = 30000
     \<and> (exp_current_timeout t = b \<or> exp_current_timeout t \<le> 30000)"

lemma f64_as_u64_bounds:
  assumes "of_nat m \<le> x" and "x \<le> of_nat n" and "n < 2 ^ 64"
  shows "m \<le> unat (f64_as_u64 x)" and "unat (f64_as_u64 x) \<le> n"
proof -
  have n64: "int n < 2 ^ 64" using assms(3) by simp
  have fl: "int m \<le> \<lfloor>x\<rfloor>" "\<lfloor>x\<rfloor> \<le> int n" using assms(1,2) by (simp_all add: le_floor_iff floor_le_iff)
  have "0 \<le> x" using assms(1) by (rule order_trans [rotated]) simp
  moreover have "(of_nat n :: rat) < of_nat (2 ^ 64)" using assms(3) by (simp only: of_nat_less_iff)
  then have "x < 2 ^ 64" using assms(2) by simp
  ultimately have x: "f64_as_u64 x = word_of_int \<lfloor>x\<rfloor>" by (simp add: f64_as_u64_def)
  have "\<lfloor>x\<rfloor> mod 2 ^ 64 = \<lfloor>x\<rfloor>" by (rule mod_pos_pos_trivial) (use fl n64 in linarith)+
  then have "unat (f64_as_u64 x) = nat \<lfloor>x\<rfloor>" by (simp add: x unsigned_of_int take_bit_eq_mod)
  with fl show "m \<le> unat (f64_as_u64 x)" and "unat (f64_as_u64 x) \<le> n" by linarith+
qed

lemma f64_of_nat_small: "n < 2 ^ 53 \<Longrightarrow> f64_of_nat n = of_nat n"
  using rnd64_int [of "int n"] by (simp add: f64_of_nat_def)

text \<open>The clamp of \<open>on_round_complete\<close>, for the limits that \<open>new\<close> sets.\<close>

lemma clamp_bounds:
  assumes "of_nat m \<le> x" and "x \<le> of_nat n" and "n < 2 ^ 63"
  shows "max 1500 (min m 30000) \<le> unat (f64_as_u64 (min (max x 1500) 30000))"
    and "unat (f64_as_u64 (min (max x 1500) 30000)) \<le> max 1500 (min n 30000)"
proof -
  have "of_nat (max 1500 (min m 30000)) \<le> min (max x 1500) 30000"
    and "min (max x 1500) 30000 \<le> of_nat (max 1500 (min n 30000))"
    using assms(1,2) by (auto simp: min_def max_def)
  then show "max 1500 (min m 30000) \<le> unat (f64_as_u64 (min (max x 1500) 30000))"
    and "unat (f64_as_u64 (min (max x 1500) 30000)) \<le> max 1500 (min n 30000)"
    by (rule f64_as_u64_bounds, use assms(3) in simp)+
qed

lemma clamp_limits: "1500 \<le> f64_as_u64 (min (max x 1500) 30000)" "f64_as_u64 (min (max x 1500) 30000) \<le> 30000"
  using f64_as_u64_bounds [of 1500 "min (max x 1500) 30000" 30000] by (simp_all add: word_le_nat_alt)

lemma timer_inv_complete: "timer_inv b t \<Longrightarrow> timer_inv b (on_round_complete now t)"
  by (cases "round_start_time t")
    (auto simp: timer_inv_def on_round_complete_def Let_def f64_of_nat_small clamp_limits)

interpretation adaptive: round_timer timer_new start_round on_round_complete reset current_timeout sleep
    timer_inv
proof unfold_locales
  show "timer_inv b t \<Longrightarrow> timer_inv b (on_round_complete now t)" for b t now
    by (rule timer_inv_complete)
qed (auto simp: timer_new_def timer_inv_def start_round_def reset_def on_round_complete_def Let_def
      le_max_iff_disj split: option.split)

interpretation fixed: round_timer fixed_new fixed_start_round fixed_on_round_complete fixed_reset
    current_timeout sleep fixed_inv
  by unfold_locales
    (auto simp: fixed_new_def fixed_inv_def fixed_start_round_def fixed_reset_def
      fixed_on_round_complete_def Let_def le_max_iff_disj)

interpretation exponential: round_timer exp_new exp_start_round exp_on_round_complete exp_reset
    exp_current_timeout exp_sleep exp_inv
  by unfold_locales
    (auto simp: exp_new_def exp_inv_def exp_start_round_def exp_reset_def
      exp_on_round_complete_def Let_def le_max_iff_disj split: option.split)

section \<open>Tracking\<close>

text \<open>One sample, on the grid of the eighths on which the rounding is exact.\<close>

definition tracks :: "nat \<Rightarrow> nat \<Rightarrow> nat \<Rightarrow> timer \<Rightarrow> bool" where
  "tracks lo hi d t \<longleftrightarrow> alpha t = 1 / 8 \<and> beta t = 1 / 4 \<and> min_timeout t = 1500 \<and> max_timeout t = 30000
     \<and> of_nat lo \<le> estimated_rtt t \<and> estimated_rtt t \<le> of_nat hi
     \<and> 0 \<le> dev_rtt t \<and> dev_rtt t \<le> of_nat d"

lemma fconst: "fsub 1 (1 / 8) = 7 / 8" "fsub 1 (1 / 4) = 3 / 4"
  using rnd64_eighths [of 7] rnd64_eighths [of 6] by (simp_all add: fsub_def)

lemma fmul_eighths:
  assumes "k * n < 2 ^ 53"
  shows "y \<le> of_nat n \<Longrightarrow> fmul (of_nat k / 8) y \<le> of_nat (k * n) / 8"
    and "of_nat n \<le> y \<Longrightarrow> of_nat (k * n) / 8 \<le> fmul (of_nat k / 8) y"
proof -
  have b: "\<bar>int (k * n)\<bar> < 2 ^ 53"
    using assms by (metis abs_of_nat of_nat_less_iff of_nat_numeral of_nat_power)
  show "fmul (of_nat k / 8) y \<le> of_nat (k * n) / 8" if "y \<le> of_nat n"
    using rnd64_le_eighths [OF _ b, of "of_nat k / 8 * y"] that
    by (simp add: fmul_def mult_left_mono divide_right_mono)
  show "of_nat (k * n) / 8 \<le> fmul (of_nat k / 8) y" if "of_nat n \<le> y"
    using rnd64_ge_eighths [OF _ b, of "of_nat k / 8 * y"] that
    by (simp add: fmul_def mult_left_mono divide_right_mono)
qed

text \<open>A weighted mean of two values that keep to an interval of integers keeps to it.\<close>

lemma ewma_bounds:
  assumes x: "of_nat m \<le> x" "x \<le> of_nat n" and y: "of_nat m \<le> y" "y \<le> of_nat n"
    and n: "n < 2 ^ 40" and k: "k \<le> 8"
  shows "of_nat m \<le> fadd (fmul (of_nat (8 - k) / 8) x) (fmul (of_nat k / 8) y)"
    and "fadd (fmul (of_nat (8 - k) / 8) x) (fmul (of_nat k / 8) y) \<le> of_nat n"
proof -
  have small: "i * j < 2 ^ 53" if "i \<le> 8" "j \<le> n" for i j
    using mult_mono [OF that] n by simp
  have "(of_nat m :: rat) \<le> of_nat n" using x by (rule order_trans)
  then have m: "m \<le> n" by simp
  have sum: "of_nat ((8 - k) * j) / 8 + of_nat (k * j) / 8 = (of_nat j :: rat)" for j
  proof -
    have "(8 - k) * j + k * j = 8 * j" using k by (simp flip: distrib_right)
    then have "(of_nat ((8 - k) * j) + of_nat (k * j) :: rat) = 8 * of_nat j"
      by (metis of_nat_add of_nat_mult of_nat_numeral)
    then show ?thesis by (simp flip: add_divide_distrib)
  qed
  have "of_nat m \<le> fmul (of_nat (8 - k) / 8) x + fmul (of_nat k / 8) y"
    using add_mono [OF fmul_eighths(2) fmul_eighths(2), OF small x(1) small y(1), of "8 - k" k] k m
    by (simp only: sum diff_le_self simp_thms)
  then show "of_nat m \<le> fadd (fmul (of_nat (8 - k) / 8) x) (fmul (of_nat k / 8) y)"
    using rnd64_ge_int [of "int m"] m n by (simp add: fadd_def)
  have "fmul (of_nat (8 - k) / 8) x + fmul (of_nat k / 8) y \<le> of_nat n"
    using add_mono [OF fmul_eighths(1) fmul_eighths(1), OF small x(2) small y(2), of "8 - k" k] k
    by (simp only: sum diff_le_self simp_thms)
  then show "fadd (fmul (of_nat (8 - k) / 8) x) (fmul (of_nat k / 8) y) \<le> of_nat n"
    using rnd64_le_int [of _ "int n"] n by (simp add: fadd_def)
qed

lemma tracks_step:
  assumes t: "tracks lo hi d t" and start: "round_start_time t = Some s"
    and sample: "lo \<le> elapsed_millis now s" "elapsed_millis now s \<le> hi"
    and d: "hi - lo \<le> d" and small: "hi < 2 ^ 40" "d < 2 ^ 40"
  shows "tracks lo hi d (on_round_complete now t)"
    and "max 1500 (min lo 30000) \<le> unat (current_timeout (on_round_complete now t))"
    and "unat (current_timeout (on_round_complete now t)) \<le> max 1500 (min (hi + 4 * d) 30000)"
proof -
  let ?x = "elapsed_millis now s"
  let ?t = "on_round_complete now t"
  have x: "f64_of_nat ?x = of_nat ?x" using sample small by (simp add: f64_of_nat_small)
  have err: "\<bar>fsub (of_nat ?x) (estimated_rtt t)\<bar> \<le> of_nat d"
  proof -
    have "(of_nat hi :: rat) - of_nat lo \<le> of_nat d" using d by (simp flip: of_nat_diff of_nat_le_iff)
    moreover have "(of_nat lo :: rat) \<le> of_nat ?x" "(of_nat ?x :: rat) \<le> of_nat hi" using sample by simp_all
    ultimately have "of_nat ?x - estimated_rtt t \<le> of_int (int d)" "of_int (- int d) \<le> of_nat ?x - estimated_rtt t"
      using t by (simp_all add: tracks_def)
    then have "fsub (of_nat ?x) (estimated_rtt t) \<le> of_int (int d)"
      "of_int (- int d) \<le> fsub (of_nat ?x) (estimated_rtt t)"
      unfolding fsub_def using small by - (rule rnd64_le_int rnd64_ge_int; simp)+
    then show ?thesis by simp
  qed
  have ab: "alpha t = 1 / 8" "beta t = 1 / 4" using t unfolding tracks_def by blast+
  have dev: "0 \<le> dev_rtt ?t" "dev_rtt ?t \<le> of_nat d"
    using ewma_bounds [of 0 "dev_rtt t" d "\<bar>fsub (of_nat ?x) (estimated_rtt t)\<bar>" 2] t err small(2)
    by (simp_all add: on_round_complete_def start Let_def x ab fconst) (simp_all add: tracks_def)
  have est: "of_nat lo \<le> estimated_rtt ?t" "estimated_rtt ?t \<le> of_nat hi"
    using ewma_bounds [of lo "estimated_rtt t" hi "of_nat ?x" 1] t sample small(1)
    by (simp_all add: on_round_complete_def start Let_def x ab fconst) (simp_all add: tracks_def)
  show "tracks lo hi d ?t"
    using t dev est by (simp add: tracks_def) (simp add: on_round_complete_def start Let_def)
  let ?c = "fadd (estimated_rtt ?t) (fmul 4 (dev_rtt ?t))"
  have cur: "current_timeout ?t = f64_as_u64 (min (max ?c 1500) 30000)"
    using t by (simp add: on_round_complete_def start Let_def tracks_def f64_of_nat_small)
  have four: "fmul 4 (dev_rtt ?t) \<le> of_int (4 * int d)" "0 \<le> fmul 4 (dev_rtt ?t)"
    using rnd64_le_int [of "4 * dev_rtt ?t" "4 * int d"] rnd64_nonneg [of "4 * dev_rtt ?t"] dev small(2)
    by (simp_all add: fmul_def)
  have "?c \<le> of_int (int hi + 4 * int d)"
    unfolding fadd_def using est four small by (intro rnd64_le_int) auto
  moreover have "of_int (int lo) \<le> ?c"
    unfolding fadd_def using est four small sample by (intro rnd64_ge_int) auto
  ultimately have b: "of_nat lo \<le> ?c" "?c \<le> of_nat (hi + 4 * d)" by simp_all
  show "max 1500 (min lo 30000) \<le> unat (current_timeout ?t)"
    and "unat (current_timeout ?t) \<le> max 1500 (min (hi + 4 * d) 30000)"
    unfolding cur by (rule clamp_bounds [OF b], use small in simp)+
qed

text \<open>The samples a sequence of calls feeds the estimator; \<open>reset\<close> starts a round too.\<close>

fun samples_within :: "nat \<Rightarrow> nat \<Rightarrow> instant option \<Rightarrow> timer_call list \<Rightarrow> bool" where
  "samples_within lo hi st [] = True"
| "samples_within lo hi st (Start_round n # cs) = samples_within lo hi (Some n) cs"
| "samples_within lo hi st (Reset n # cs) = samples_within lo hi (Some n) cs"
| "samples_within lo hi st (On_round_complete n # cs) =
     ((case st of None \<Rightarrow> True | Some s \<Rightarrow> lo \<le> elapsed_millis n s \<and> elapsed_millis n s \<le> hi)
      \<and> samples_within lo hi st cs)"

definition timeout_within :: "u64 \<Rightarrow> nat \<Rightarrow> nat \<Rightarrow> timer \<Rightarrow> bool" where
  "timeout_within b lo hi t \<longleftrightarrow> current_timeout t = b \<or>
     max 1500 (min lo 30000) \<le> unat (current_timeout t) \<and> unat (current_timeout t) \<le> max 1500 (min hi 30000)"

lemma tracks_calls:
  assumes "tracks lo hi d t" and "timeout_within b lo (hi + 4 * d) t"
    and "samples_within lo hi (round_start_time t) cs"
    and "hi - lo \<le> d" and "hi < 2 ^ 40" and "d < 2 ^ 40"
  shows "timeout_within b lo (hi + 4 * d) (timer_calls start_round on_round_complete reset cs t)"
  using assms(1-3)
proof (induction cs arbitrary: t)
  case (Cons c cs)
  show ?case
  proof (cases c)
    case (On_round_complete n)
    let ?t = "on_round_complete n t"
    have st: "round_start_time ?t = round_start_time t"
      by (simp add: on_round_complete_def Let_def split: option.split)
    have "tracks lo hi d ?t \<and> timeout_within b lo (hi + 4 * d) ?t"
    proof (cases "round_start_time t")
      case None
      then show ?thesis using Cons.prems by (simp add: on_round_complete_def)
    next
      case (Some s)
      with Cons.prems(3) have "lo \<le> elapsed_millis n s" "elapsed_millis n s \<le> hi"
        by (simp_all add: On_round_complete)
      with tracks_step [OF Cons.prems(1) Some] assms(4-6) show ?thesis
        by (simp add: timeout_within_def)
    qed
    with Cons.IH [of ?t] Cons.prems(3) show ?thesis by (simp add: On_round_complete st)
  qed (use Cons in \<open>simp_all add: start_round_def reset_def tracks_def timeout_within_def\<close>)
qed simp

section \<open>Properties\<close>

text \<open>
  C36. The adaptive timeout is clamped: in any history in which some round was started and completed,
  every later value of \<open>current_timeout\<close> lies between 1.5 s and 30 s, whatever the initial timeout and
  the clock readings, and the sleep a reset arms is exactly that long.
\<close>

theorem adaptive_timeout_clamped:
  "let t = timer_calls start_round on_round_complete reset
        (before @ [Start_round n1, On_round_complete n2] @ later) (timer_new b n0)
   in 1500 \<le> current_timeout t \<and> current_timeout t \<le> 30000
      \<and> sleep (reset now t) = now + unat (current_timeout t) * 1000000"
proof -
  let ?run = "timer_calls start_round on_round_complete reset"
  let ?u = "?run before (timer_new b n0)"
  let ?v = "on_round_complete n2 (start_round n1 ?u)"
  have "timer_inv b ?u" by (intro adaptive.calls_inv adaptive.new_timer)
  then have "timer_inv (current_timeout ?v) ?v \<and> 1500 \<le> current_timeout ?v \<and> current_timeout ?v \<le> 30000"
    by (simp add: timer_inv_def on_round_complete_def start_round_def Let_def f64_of_nat_small clamp_limits)
  then have "timer_inv (current_timeout ?v) (?run later ?v)
      \<and> 1500 \<le> current_timeout ?v \<and> current_timeout ?v \<le> 30000"
    by (simp add: adaptive.calls_inv)
  then have "1500 \<le> current_timeout (?run later ?v) \<and> current_timeout (?run later ?v) \<le> 30000"
    by (auto simp: timer_inv_def)
  then show ?thesis
    by (simp add: timer_calls_append Let_def) (simp add: reset_def start_round_def from_millis_def)
qed

text \<open>
  The timeout tracks the observed rounds: if the initial timeout and all measured round durations lie
  in an interval \<open>[lo, hi]\<close> (in ms) and \<open>d\<close> bounds its width and the initial deviation, then, for every
  rounding of the binary64 arithmetic along the way, the timeout stays at its initial value until the
  first sample and then between \<open>lo\<close> and \<open>hi + 4 * d\<close>, clamped to 1.5 s and 30 s.
\<close>

theorem adaptive_timeout_tracks:
  assumes "lo \<le> unat b" and "unat b \<le> hi" and "unat b \<le> 4 * d" and "hi - lo \<le> d"
    and "hi < 2 ^ 40" and "d < 2 ^ 40" and "samples_within lo hi None cs"
  shows "timeout_within b lo (hi + 4 * d)
    (timer_calls start_round on_round_complete reset cs (timer_new b now))"
proof (rule tracks_calls [OF _ _ _ assms(4-6)])
  have dev: "0 \<le> fdiv (of_nat (unat b)) 4" "fdiv (of_nat (unat b)) 4 \<le> of_nat d"
    using rnd64_nonneg [of "of_nat (unat b) / 4"] rnd64_le_int [of "of_nat (unat b) / 4" "int d"] assms(3,6)
    by (simp_all only: fdiv_def of_nat_0_le_iff divide_nonneg_nonneg zero_le_numeral)
      (simp_all flip: of_nat_le_iff [where ?'a = rat])
  have est: "(of_nat lo :: rat) \<le> of_nat (unat b)" "(of_nat (unat b) :: rat) \<le> of_nat hi"
    using assms(1,2) by (simp_all only: of_nat_le_iff)
  have "unat b < 2 ^ 53" using assms(2,5) by simp
  then have b: "f64_of_nat (unat b) = of_nat (unat b)" by (rule f64_of_nat_small)
  show "tracks lo hi d (timer_new b now)"
    using dev est by (simp add: tracks_def timer_new_def b)
  show "timeout_within b lo (hi + 4 * d) (timer_new b now)"
    by (simp add: timeout_within_def timer_new_def)
  show "samples_within lo hi (round_start_time (timer_new b now)) cs"
    using assms(7) by (simp add: timer_new_def)
qed

text \<open>The figures of the README: rounds of 900 to 1200 ms from an initial timeout of 1000 ms.\<close>

theorem adaptive_timeout_tracks_witness:
  "timeout_within 1000 900 2400 (timer_calls start_round on_round_complete reset
     [Reset 0, Start_round 0, On_round_complete 900000000, Reset 900000000, Start_round 900000000,
      On_round_complete 2100000000] (timer_new 1000 0))"
  using adaptive_timeout_tracks [of 900 1000 1200 300
      "[Reset 0, Start_round 0, On_round_complete 900000000, Reset 900000000, Start_round 900000000,
        On_round_complete 2100000000]" 0]
  by (simp add: elapsed_millis_def)

lemma exp_reset_after:
  assumes "exp_round_start_time t = Some s" and "unat (exp_current_timeout t) \<le> elapsed_millis now s"
    and "elapsed_millis now s < 2 ^ 64"
  shows "exp_reset now t = (let n = exp_consecutive_timeouts t + 1;
      w = min (exp_base_timeout t * 2 ^ unat n) (exp_max_timeout t)
    in t\<lparr>exp_consecutive_timeouts := n, exp_current_timeout := w, exp_sleep := now + from_millis w\<rparr>)"
proof -
  have "exp_current_timeout t \<le> of_nat (elapsed_millis now s)"
    using assms(2,3) by (simp add: word_le_nat_alt take_bit_nat_eq_self unsigned_of_nat)
  then show ?thesis by (simp add: exp_reset_def assms(1) Let_def)
qed

lemma exp_resets:
  assumes "m < 2 ^ 32" and "unat b \<le> 30000"
  shows "timer_calls exp_start_round exp_on_round_complete exp_reset
      (replicate m (Reset (n0 + 30000 * 1000000))) (exp_new b n0)
    = (exp_new b n0)\<lparr>exp_consecutive_timeouts := of_nat m,
        exp_current_timeout := (if m = 0 then b else min (b * 2 ^ m) 30000),
        exp_sleep := (if m = 0 then n0 + from_millis b
          else n0 + 30000 * 1000000 + from_millis (min (b * 2 ^ m) 30000))\<rparr>"
  using assms(1)
proof (induction m)
  case 0
  then show ?case by (simp add: exp_new_def)
next
  case (Suc m)
  let ?t = "(exp_new b n0)\<lparr>exp_consecutive_timeouts := of_nat m,
        exp_current_timeout := (if m = 0 then b else min (b * 2 ^ m) 30000),
        exp_sleep := (if m = 0 then n0 + from_millis b
          else n0 + 30000 * 1000000 + from_millis (min (b * 2 ^ m) 30000))\<rparr>"
  have "min (b * 2 ^ m) 30000 \<le> 30000" by simp
  then have "unat (min (b * 2 ^ m) 30000) \<le> unat (30000 :: u64)" by (simp only: word_le_nat_alt)
  then have "exp_reset (n0 + 30000 * 1000000) ?t
      = (let n = exp_consecutive_timeouts ?t + 1;
      w = min (exp_base_timeout ?t * 2 ^ unat n) (exp_max_timeout ?t)
    in ?t\<lparr>exp_consecutive_timeouts := n, exp_current_timeout := w,
          exp_sleep := n0 + 30000 * 1000000 + from_millis w\<rparr>)"
    using assms(2) by (intro exp_reset_after [where s = n0]) (auto simp: exp_new_def elapsed_millis_def)
  moreover have "unat (of_nat (Suc m) :: u32) = Suc m"
    by (rule unat_of_nat_small) (use Suc.prems in simp)
  then have "unat (of_nat m + 1 :: u32) = Suc m" by (simp only: of_nat_Suc add.commute)
  ultimately have reset: "exp_reset (n0 + 30000 * 1000000) ?t = (exp_new b n0)\<lparr>exp_consecutive_timeouts := of_nat (Suc m),
        exp_current_timeout := min (b * 2 ^ Suc m) 30000,
        exp_sleep := n0 + 30000 * 1000000 + from_millis (min (b * 2 ^ Suc m) 30000)\<rparr>"
    by (simp add: exp_new_def Let_def)
  have rep: "replicate (Suc m) (Reset (n0 + 30000 * 1000000)) = replicate m (Reset (n0 + 30000 * 1000000)) @ [Reset (n0 + 30000 * 1000000)]"
    by (simp add: replicate_append_same)
  have "m < 2 ^ 32" using Suc.prems by simp
  from Suc.IH [OF this] reset show ?case
    by (simp only: rep timer_calls_append timer_calls.simps) simp
qed

text \<open>
  The exponential timer doubles its delay on every expiry: after \<open>m\<close> expiries in a row from an
  initial timeout \<open>b\<close> of at most 30 s, as long as \<open>b * 2 ^ m\<close> fits in a \<open>u64\<close>, the sleep is armed for
  \<open>min (b * 2 ^ m) 30 s\<close>.
\<close>

theorem exponential_backoff_doubles:
  assumes "unat b \<le> 30000" and "0 < m" and "m < 2 ^ 32" and "unat b * 2 ^ m < 2 ^ 64"
  shows "exp_sleep (timer_calls exp_start_round exp_on_round_complete exp_reset
        (replicate m (Reset (n0 + 30000 * 1000000))) (exp_new b n0))
      = n0 + 30000 * 1000000 + min (unat b * 2 ^ m) 30000 * 1000000"
proof -
  have "b * 2 ^ m = of_nat (unat b * 2 ^ m)" by simp
  then have "unat (b * 2 ^ m) = unat b * 2 ^ m"
    using assms(4) unat_of_nat_small [where ?'w = 64, of "unat b * 2 ^ m"]
    by (simp del: of_nat_mult of_nat_power)
  then have "unat (min (b * 2 ^ m) 30000) = min (unat b * 2 ^ m) 30000"
    by (simp add: min_def word_le_nat_alt)
  then show ?thesis
    using exp_resets [OF assms(3,1), of n0] assms(2) by (simp add: from_millis_def)
qed

theorem exponential_backoff_doubles_witness:
  "exp_sleep (timer_calls exp_start_round exp_on_round_complete exp_reset
     (replicate 2 (Reset 30000000000)) (exp_new 5000 0)) = 50000000000"
  using exponential_backoff_doubles [of 5000 2 0] by simp

text \<open>
  Unchecked, the product wraps around: with the default initial timeout of 5 s the 61st expiry in a
  row arms the exponential timer for no time at all.
\<close>

theorem exponential_backoff_wraps:
  "exp_sleep (timer_calls exp_start_round exp_on_round_complete exp_reset
        (replicate 61 (Reset (n0 + 30000 * 1000000))) (exp_new 5000 n0)) = n0 + 30000 * 1000000"
proof -
  have "(5000 :: u64) * 2 ^ 61 = 0" by simp
  then show ?thesis using exp_resets [of 61 5000 n0] by (simp add: from_millis_def)
qed

text \<open>
  In the order in which the core calls its timer on a local timeout (\<open>reset\<close>, \<open>start_round\<close>, then
  \<open>on_round_complete\<close> when it handles its own timeout message and processes the QC in it), the exponential
  timer never backs off: after any number of local timeouts in a row the timeout is the initial one again,
  and the next delay is the initial one or its double, however many rounds have failed.
\<close>

theorem exponential_local_timeouts_never_back_off:
  "let t = timer_calls exp_start_round exp_on_round_complete exp_reset
         (concat (map (\<lambda>n. [Reset n, Start_round n, On_round_complete n]) ns)) (exp_new b n0)
   in exp_current_timeout t = b \<and> exp_consecutive_timeouts t = 0
      \<and> exp_sleep (exp_reset now t) \<in> {now + from_millis b, now + from_millis (min (b * 2) 30000)}"
proof -
  let ?run = "\<lambda>ns. timer_calls exp_start_round exp_on_round_complete exp_reset
         (concat (map (\<lambda>n. [Reset n, Start_round n, On_round_complete n]) ns))"
  let ?idle = "\<lambda>t. exp_current_timeout t = b \<and> exp_base_timeout t = b \<and> exp_max_timeout t = 30000
     \<and> exp_consecutive_timeouts t = 0"
  have "?idle t \<Longrightarrow> ?idle (?run ns t)" for t
    by (induction ns arbitrary: t)
      (auto simp: exp_on_round_complete_def exp_start_round_def exp_reset_def Let_def split: option.split)
  moreover have "?idle (exp_new b n0)" by (simp add: exp_new_def)
  ultimately have "?idle (?run ns (exp_new b n0))" by blast
  moreover have "?idle t \<Longrightarrow> exp_sleep (exp_reset now t)
      \<in> {now + from_millis b, now + from_millis (min (b * 2) 30000)}" for t
    by (simp add: exp_reset_def Let_def split: option.split)
  ultimately show ?thesis unfolding Let_def by blast
qed

end
