(* ===== verification/Wire.thy ===== *)
theory Wire
  imports Aggregator Timer
begin

text \<open>
  The messages of the consensus (\<open>consensus/src/consensus.rs\<close> and the message enums of its tasks),
  what its tasks send to each other and to the network, the functions of the \<open>bincode\<close> crate they
  use, and \<open>ConsensusReceiverHandler::dispatch\<close>. The state that the core shares with the clients of
  the other tasks is the record \<open>world\<close>, which the state of the core extends.
\<close>

section \<open>Messages\<close>

datatype consensus_message =
    Propose block
  | VoteMsg vote
  | TimeoutMsg timeout
  | TCMsg tc
  | SyncRequest digest public_key

datatype proposer_message =
    Make u64 qc "tc option"
  | Proposer_cleanup "digest list"

text \<open>\<open>mempool::ConsensusMempoolMessage\<close> and \<open>PayloadWaiterMessage\<close> of \<open>consensus/src/mempool.rs\<close>.\<close>

datatype consensus_mempool_message =
    Synchronize "digest list" public_key
  | Mempool_cleanup u64

datatype payload_waiter_message =
    Wait "digest list" block
  | Waiter_cleanup u64

text \<open>
  What a task does to the outside, in order. \<open>Signed_vote b v\<close> and \<open>Signed_timeout t\<close> record the calls
  of \<open>Vote::new\<close> (on the block \<open>b\<close>) and \<open>Timeout::new\<close>, each one request to the signature service.
\<close>

datatype effect =
    Net_send socket_addr bytes
  | To_proposer proposer_message
  | To_commit block
  | To_mempool consensus_mempool_message
  | To_payload_waiter payload_waiter_message
  | To_synchronizer block
  | To_loopback block
  | Store_notify store_reply
  | Signed_vote block vote
  | Signed_timeout timeout

section \<open>The environment of a node\<close>

text \<open>
  The crates the node calls, \<open>bincode\<close> for blocks and messages (serialization may return an error,
  deserialization too, and it may panic in \<open>PublicKey::deserialize\<close>), and the fields that the tasks of
  the consensus get at their start and never assign.
\<close>

record ('k, 'db) env =
  dalek :: "'k dalek"
  rocksdb :: "'db rocksdb"
  ser_block :: "block \<Rightarrow> bytes option"
  de_block :: "bytes \<Rightarrow> (unit, block) outcome"
  ser_msg :: "consensus_message \<Rightarrow> bytes option"
  de_msg :: "bytes \<Rightarrow> (unit, consensus_message) outcome"
  my_name :: public_key
  my_committee :: committee
  my_secret :: secret_key

record 'db world =
  my_store :: "'db store"
  out :: "effect list"

definition emit :: "effect list \<Rightarrow> (('db, 'z) world_scheme, 'e, unit) proc" where
  "emit es = modify (\<lambda>s. s\<lparr>out := out s @ es\<rparr>)"

text \<open>\<open>expect(msg)\<close>.\<close>

definition expect :: "string \<Rightarrow> 'a option \<Rightarrow> ('s, 'e, 'a) proc" where
  "expect msg x = (case x of None \<Rightarrow> panic msg | Some a \<Rightarrow> ret a)"

text \<open>The \<open>?\<close> after \<open>bincode::deserialize\<close>.\<close>

definition deserialize :: "'e \<Rightarrow> (unit, 'a) outcome \<Rightarrow> ('s, 'e, 'a) proc" where
  "deserialize e x = (case x of Ok a \<Rightarrow> ret a | Err _ \<Rightarrow> fail e | Panic p \<Rightarrow> panic p
     | Diverge \<Rightarrow> (\<lambda>s. (Diverge, s)))"

text \<open>\<open>SimpleSender::send\<close> and \<open>SimpleSender::broadcast\<close>, seen from a task that uses them.\<close>

definition net_send :: "socket_addr \<Rightarrow> bytes \<Rightarrow> (('db, 'z) world_scheme, 'e, unit) proc" where
  "net_send addr message = emit [Net_send addr message]"

definition net_broadcast :: "socket_addr list \<Rightarrow> bytes \<Rightarrow> (('db, 'z) world_scheme, 'e, unit) proc" where
  "net_broadcast addrs message = emit (map (\<lambda>a. Net_send a message) addrs)"

text \<open>\<open>Store::read\<close> followed by \<open>?\<close>, and \<open>Store::write\<close>.\<close>

definition read_store ::
    "('k, 'db) env \<Rightarrow> bytes \<Rightarrow> (('db, 'z) world_scheme, consensus_error, bytes option) proc" where
  "read_store E key = bnd (gets (\<lambda>s. store_read (rocksdb E) key (my_store s)))
     (\<lambda>r. lift_result (map_err StoreFailure r))"

definition write_store ::
    "('k, 'db) env \<Rightarrow> bytes \<Rightarrow> bytes \<Rightarrow> (('db, 'z) world_scheme, 'e, unit) proc" where
  "write_store E key value = modify (\<lambda>s.
     s\<lparr>my_store := store_write (rocksdb E) key value (my_store s),
       out := out s @ map Store_notify (store_write_replies (rocksdb E) key value (my_store s))\<rparr>)"

section \<open>Dispatching what arrives on the network\<close>

datatype dispatched = Ack | To_helper digest public_key | To_core consensus_message

text \<open>The channels that the handler sends to; \<open>gone\<close> are those whose receiving task has ended.\<close>

datatype handler_channel = Core_channel | Helper_channel

definition dispatch ::
    "('k, 'db) env \<Rightarrow> handler_channel set \<Rightarrow> bytes \<Rightarrow> (dispatched list, consensus_error, unit) proc" where
  "dispatch E gone serialized =
     bnd (deserialize SerializationError (de_msg E serialized)) (\<lambda>message.
     case message of
       SyncRequest missing origin \<Rightarrow>
         channel_send ''Failed to send consensus message'' (Helper_channel \<in> gone) (To_helper missing origin)
     | Propose b \<Rightarrow> sq (modify (\<lambda>ds. ds @ [Ack]))
         (channel_send ''Failed to consensus message'' (Core_channel \<in> gone) (To_core (Propose b)))
     | message \<Rightarrow> channel_send ''Failed to consensus message'' (Core_channel \<in> gone) (To_core message))"

definition for_core :: "consensus_message \<Rightarrow> bool" where
  "for_core m \<longleftrightarrow> (case m of SyncRequest _ _ \<Rightarrow> False | _ \<Rightarrow> True)"

lemma dispatch_for_core:
  assumes "dispatch E gone serialized ds = (r, ds')" and "To_core m \<in> set ds'" and "To_core m \<notin> set ds"
  shows "for_core m"
  using assms
  by (auto simp: dispatch_def deserialize_def for_core_def bnd_def sq_def ret_def fail_def panic_def
      modify_def channel_send_def split: if_splits outcome.splits consensus_message.splits)

end
