(* ===== verification/Synchronizer.thy ===== *)
theory Synchronizer
  imports Wire
begin

text \<open>
  \<open>consensus/src/synchronizer.rs\<close>: the two calls the core makes to find the ancestors of a block, and
  the task that asks other nodes for a missing parent and gives the block back once the parent is
  in the store.
\<close>

section \<open>The calls of the core\<close>

definition get_parent_block ::
    "('k, 'db) env \<Rightarrow> block \<Rightarrow> (('db, 'z) world_scheme, consensus_error, block option) proc" where
  "get_parent_block E b =
     (if qc_eq (block_qc b) qc_genesis then ret (Some block_genesis)
      else bnd (read_store E (digest_bytes (parent b))) (\<lambda>r.
        case r of
          Some bytes \<Rightarrow> bnd (deserialize SerializationError (de_block E bytes)) (\<lambda>p. ret (Some p))
        | None \<Rightarrow> sq (emit [To_synchronizer b]) (ret None)))"

definition get_ancestors ::
    "('k, 'db) env \<Rightarrow> block \<Rightarrow> (('db, 'z) world_scheme, consensus_error, (block \<times> block) option) proc" where
  "get_ancestors E b =
     bnd (get_parent_block E b) (\<lambda>r.
     case r of
       None \<Rightarrow> ret None
     | Some b1 \<Rightarrow> bnd (get_parent_block E b1) (\<lambda>r'.
         bnd (expect ''We should have all ancestors of delivered blocks'' r') (\<lambda>b0.
         ret (Some (b0, b1)))))"

end
