(* ===== verification/Mempool_Driver.thy ===== *)
theory Mempool_Driver
  imports Wire
begin

text \<open>
  \<open>consensus/src/mempool.rs\<close>: the calls with which the core checks that the payload of a block is in the
  store and tells the mempool which rounds are over, and the task \<open>PayloadWaiter\<close> that gives a block
  back once its payload is there.
\<close>

section \<open>The calls of the core\<close>

text \<open>The loop of \<open>MempoolDriver::verify\<close> over the payload.\<close>

primrec missing_payload ::
    "('k, 'db) env \<Rightarrow> digest list \<Rightarrow> (('db, 'z) world_scheme, consensus_error, digest list) proc" where
  "missing_payload E [] = ret []"
| "missing_payload E (x # xs) =
     bnd (read_store E (digest_bytes x)) (\<lambda>r.
     bnd (missing_payload E xs) (\<lambda>missing. ret (if r = None then x # missing else missing)))"

definition mempool_verify ::
    "('k, 'db) env \<Rightarrow> block \<Rightarrow> (('db, 'z) world_scheme, consensus_error, bool) proc" where
  "mempool_verify E b =
     bnd (missing_payload E (block_payload b)) (\<lambda>missing.
     if missing = [] then ret True
     else sq (emit [To_mempool (Synchronize missing (block_author b)), To_payload_waiter (Wait missing b)])
       (ret False))"

definition mempool_cleanup :: "u64 \<Rightarrow> (('db, 'z) world_scheme, 'e, unit) proc" where
  "mempool_cleanup r = emit [To_mempool (Mempool_cleanup r), To_payload_waiter (Waiter_cleanup r)]"

end
