(* ===== verification/Core.thy ===== *)
theory Core
  imports Leader Synchronizer Mempool_Driver
begin

text \<open>
  \<open>consensus/src/core.rs\<close>: the state machine of the consensus. The fields of \<open>Core\<close> that change are the
  record \<open>core\<close>; its name, committee and signature service are in the environment. Every method is a
  procedure on the core, its clock readings within one event being the one reading \<open>now\<close>. The main
  loop is a run over the events that \<open>tokio::select!\<close> may pick, in any order.
\<close>

section \<open>State\<close>

record 'db core = "'db world" +
  cur_round :: u64
  last_voted_round :: u64
  last_committed_round :: u64
  high_qc :: qc
  my_timer :: timer
  my_aggregator :: aggregator

type_synonym ('db, 'a) core_proc = "('db core, consensus_error, 'a) proc"

text \<open>\<open>Core::spawn\<close>, over the store the node opened.\<close>

definition core_new :: "('k, 'db) env \<Rightarrow> u64 \<Rightarrow> instant \<Rightarrow> 'db store \<Rightarrow> 'db core" where
  "core_new E timeout_ms now st =
     \<lparr>my_store = st, out = [], cur_round = 1, last_voted_round = 0, last_committed_round = 0,
      high_qc = qc_genesis, my_timer = timer_new timeout_ms now,
      my_aggregator = aggregator_new (my_committee E)\<rparr>"

section \<open>Blocks and votes\<close>

definition store_block :: "('k, 'db) env \<Rightarrow> block \<Rightarrow> ('db, unit) core_proc" where
  "store_block E b =
     bnd (expect ''Failed to serialize block'' (ser_block E b)) (\<lambda>value.
     write_store E (digest_bytes (block_digest (dalek E) b)) value)"

definition increase_last_voted_round :: "u64 \<Rightarrow> ('db, unit) core_proc" where
  "increase_last_voted_round target =
     modify (\<lambda>s. s\<lparr>last_voted_round := max (last_voted_round s) target\<rparr>)"

text \<open>\<open>iter().max()\<close>.\<close>

fun max_round :: "u64 list \<Rightarrow> u64 option" where
  "max_round [] = None"
| "max_round (r # rs) = Some (fold max rs r)"

definition safety_rule_2 :: "block \<Rightarrow> ('db, bool) core_proc" where
  "safety_rule_2 b =
     (let extends_qc = qc_round (block_qc b) + 1 = block_round b
      in case block_tc b of
           None \<Rightarrow> ret extends_qc
         | Some t \<Rightarrow> bnd (expect ''Empty TC'' (max_round (high_qc_rounds t))) (\<lambda>m.
             ret (extends_qc \<or> tc_round t + 1 = block_round b \<and> m \<le> qc_round (block_qc b))))"

definition make_vote :: "('k, 'db) env \<Rightarrow> block \<Rightarrow> ('db, vote option) core_proc" where
  "make_vote E b =
     bnd (gets (\<lambda>s. last_voted_round s < block_round b)) (\<lambda>safety_rule_1.
     bnd (safety_rule_2 b) (\<lambda>rule_2.
     if \<not> (safety_rule_1 \<and> rule_2) then ret None
     else sq (increase_last_voted_round (block_round b))
       (bnd (expect ''Failed to receive signature from Signature Service''
              (vote_new (dalek E) b (my_name E) (my_secret E))) (\<lambda>v.
        sq (emit [Signed_vote b v]) (ret (Some v))))))"

section \<open>Committing\<close>

text \<open>
  The loop of \<open>commit\<close> that walks up the parents; the list is the \<open>VecDeque\<close>, front first. \<open>None\<close>: the
  loop does not end.
\<close>

partial_function (option) collect_ancestors ::
    "('k, 'db) env \<Rightarrow> u64 \<Rightarrow> block \<Rightarrow> block list \<Rightarrow> 'db core \<Rightarrow>
       ((consensus_error, block list) outcome \<times> 'db core) option" where
  "collect_ancestors E last_committed par to_commit s =
     (if last_committed + 1 < block_round par then
        (case get_parent_block E par s of
           (Ok (Some ancestor), s') \<Rightarrow> collect_ancestors E last_committed ancestor (ancestor # to_commit) s'
         | (Ok None, s') \<Rightarrow> Some (Panic ''We should have all the ancestors by now'', s')
         | (Err e, s') \<Rightarrow> Some (Err e, s')
         | (Panic p, s') \<Rightarrow> Some (Panic p, s')
         | (Diverge, s') \<Rightarrow> Some (Diverge, s'))
      else Some (Ok to_commit, s))"

definition walk_ancestors :: "('k, 'db) env \<Rightarrow> u64 \<Rightarrow> block \<Rightarrow> ('db, block list) core_proc" where
  "walk_ancestors E last_committed b s =
     (case collect_ancestors E last_committed b [] s of None \<Rightarrow> (Diverge, s) | Some r \<Rightarrow> r)"

text \<open>
  \<open>to_commit\<close> is filled by \<open>push_front\<close> (the block itself last) and emptied by \<open>pop_back\<close>.
\<close>

definition commit :: "('k, 'db) env \<Rightarrow> block \<Rightarrow> ('db, unit) core_proc" where
  "commit E b =
     bnd (gets last_committed_round) (\<lambda>last_committed.
     if block_round b \<le> last_committed then ret ()
     else bnd (walk_ancestors E last_committed b) (\<lambda>ancestors.
       let to_commit = b # ancestors
       in sq (modify (\<lambda>s. s\<lparr>last_committed_round := block_round b\<rparr>))
            (emit (map To_commit (rev to_commit)))))"

section \<open>Rounds\<close>

definition update_high_qc :: "qc \<Rightarrow> ('db, unit) core_proc" where
  "update_high_qc q = modify (\<lambda>s. if qc_round q > qc_round (high_qc s) then s\<lparr>high_qc := q\<rparr> else s)"

definition advance_round :: "instant \<Rightarrow> u64 \<Rightarrow> ('db, unit) core_proc" where
  "advance_round now r =
     bnd (gets (\<lambda>s. r < cur_round s)) (\<lambda>old.
     if old then ret ()
     else modify (\<lambda>s. s\<lparr>my_timer := start_round now (reset now (my_timer s)), cur_round := r + 1,
            my_aggregator := cleanup (r + 1) (my_aggregator s)\<rparr>))"

definition process_qc :: "instant \<Rightarrow> qc \<Rightarrow> ('db, unit) core_proc" where
  "process_qc now q =
     sq (modify (\<lambda>s. s\<lparr>my_timer := on_round_complete now (my_timer s)\<rparr>))
       (sq (advance_round now (qc_round q)) (update_high_qc q))"

definition generate_proposal :: "tc option \<Rightarrow> ('db, unit) core_proc" where
  "generate_proposal t = bnd (gets (\<lambda>s. Make (cur_round s) (high_qc s) t)) (\<lambda>m. emit [To_proposer m])"

definition cleanup_proposer :: "block \<Rightarrow> block \<Rightarrow> block \<Rightarrow> ('db, unit) core_proc" where
  "cleanup_proposer b0 b1 b =
     emit [To_proposer (Proposer_cleanup (block_payload b0 @ block_payload b1 @ block_payload b))]"

text \<open>\<open>self.leader_elector.get_leader(round)\<close>.\<close>

definition leader :: "('k, 'db) env \<Rightarrow> u64 \<Rightarrow> ('db, public_key) core_proc" where
  "leader E r =
     expect ''attempt to calculate the remainder with a divisor of zero'' (get_leader (my_committee E) r)"

text \<open>\<open>if self.name == self.leader_elector.get_leader(self.round) { self.generate_proposal(..) }\<close>.\<close>

definition propose_if_leader :: "('k, 'db) env \<Rightarrow> tc option \<Rightarrow> ('db, unit) core_proc" where
  "propose_if_leader E t =
     bnd (gets cur_round) (\<lambda>r. bnd (leader E r) (\<lambda>l.
     if my_name E = l then generate_proposal t else ret ()))"

definition broadcast_message ::
    "('k, 'db) env \<Rightarrow> string \<Rightarrow> consensus_message \<Rightarrow> ('db, unit) core_proc" where
  "broadcast_message E failure m =
     (let addresses = map snd (broadcast_addresses (my_committee E) (my_name E))
      in bnd (expect failure (ser_msg E m)) (\<lambda>message. net_broadcast addresses message))"

section \<open>The handlers\<close>

definition handle_vote :: "('k, 'db) env \<Rightarrow> instant \<Rightarrow> vote \<Rightarrow> ('db, unit) core_proc" where
  "handle_vote E now v =
     bnd (gets (\<lambda>s. vote_round v < cur_round s)) (\<lambda>old.
     if old then ret ()
     else sq (lift_result (vote_verify (dalek E) (my_committee E) v))
       (bnd (zoom my_aggregator (\<lambda>a s. s\<lparr>my_aggregator := a\<rparr>) (add_vote (dalek E) v)) (\<lambda>r.
        case r of
          None \<Rightarrow> ret ()
        | Some q \<Rightarrow> sq (process_qc now q) (propose_if_leader E None))))"

definition handle_timeout :: "('k, 'db) env \<Rightarrow> instant \<Rightarrow> timeout \<Rightarrow> ('db, unit) core_proc" where
  "handle_timeout E now t =
     bnd (gets (\<lambda>s. timeout_round t < cur_round s)) (\<lambda>old.
     if old then ret ()
     else sq (lift_result (timeout_verify (dalek E) (my_committee E) t))
       (sq (process_qc now (timeout_high_qc t))
       (bnd (zoom my_aggregator (\<lambda>a s. s\<lparr>my_aggregator := a\<rparr>) (add_timeout t)) (\<lambda>r.
        case r of
          None \<Rightarrow> ret ()
        | Some c \<Rightarrow>
            sq (advance_round now (tc_round c))
            (sq (broadcast_message E ''Failed to serialize timeout certificate'' (TCMsg c))
            (propose_if_leader E (Some c)))))))"

definition local_timeout_round :: "('k, 'db) env \<Rightarrow> instant \<Rightarrow> ('db, unit) core_proc" where
  "local_timeout_round E now =
     bnd (gets cur_round) (\<lambda>r.
     sq (increase_last_voted_round r)
     (bnd (gets high_qc) (\<lambda>q.
     bnd (expect ''Failed to receive signature from Signature Service''
            (timeout_new (dalek E) q r (my_name E) (my_secret E))) (\<lambda>t.
     sq (emit [Signed_timeout t])
     (sq (modify (\<lambda>s. s\<lparr>my_timer := start_round now (reset now (my_timer s))\<rparr>))
     (sq (broadcast_message E ''Failed to serialize timeout message'' (TimeoutMsg t))
     (handle_timeout E now t)))))))"

definition send_vote :: "('k, 'db) env \<Rightarrow> instant \<Rightarrow> vote \<Rightarrow> ('db, unit) core_proc" where
  "send_vote E now v =
     bnd (gets cur_round) (\<lambda>r. bnd (leader E (r + 1)) (\<lambda>next_leader.
     if next_leader = my_name E then handle_vote E now v
     else bnd (expect ''The next leader is not in the committee'' (address (my_committee E) next_leader)) (\<lambda>a.
       bnd (expect ''Failed to serialize vote'' (ser_msg E (VoteMsg v))) (\<lambda>message.
       net_send a message))))"

text \<open>The two ends of \<open>process_block\<close>: committing the head of a 2-chain, and voting.\<close>

definition commit_two_chain :: "('k, 'db) env \<Rightarrow> block \<Rightarrow> block \<Rightarrow> ('db, unit) core_proc" where
  "commit_two_chain E b0 b1 =
     (if block_round b0 + 1 = block_round b1
      then sq (mempool_cleanup (block_round b0)) (commit E b0)
      else ret ())"

definition vote_for_block :: "('k, 'db) env \<Rightarrow> instant \<Rightarrow> block \<Rightarrow> ('db, unit) core_proc" where
  "vote_for_block E now b =
     bnd (gets (\<lambda>s. block_round b \<noteq> cur_round s)) (\<lambda>other.
     if other then ret ()
     else bnd (make_vote E b) (\<lambda>r.
       case r of None \<Rightarrow> ret () | Some v \<Rightarrow> send_vote E now v))"

definition process_block :: "('k, 'db) env \<Rightarrow> instant \<Rightarrow> block \<Rightarrow> ('db, unit) core_proc" where
  "process_block E now b =
     bnd (get_ancestors E b) (\<lambda>r.
     case r of
       None \<Rightarrow> ret ()
     | Some (b0, b1) \<Rightarrow>
         sq (store_block E b)
         (sq (cleanup_proposer b0 b1 b)
         (sq (commit_two_chain E b0 b1)
         (vote_for_block E now b))))"

definition handle_proposal :: "('k, 'db) env \<Rightarrow> instant \<Rightarrow> block \<Rightarrow> ('db, unit) core_proc" where
  "handle_proposal E now b =
     (let digest = block_digest (dalek E) b in
      bnd (leader E (block_round b)) (\<lambda>l.
      sq (lift_result (ensure (block_author b = l) (WrongLeader digest (block_author b) (block_round b))))
      (sq (lift_result (block_verify (dalek E) (my_committee E) b))
      (sq (process_qc now (block_qc b))
      (sq (case block_tc b of None \<Rightarrow> ret () | Some t \<Rightarrow> advance_round now (tc_round t))
      (bnd (mempool_verify E b) (\<lambda>available.
       if \<not> available then ret () else process_block E now b)))))))"

definition handle_tc :: "('k, 'db) env \<Rightarrow> instant \<Rightarrow> tc \<Rightarrow> ('db, unit) core_proc" where
  "handle_tc E now t =
     sq (lift_result (tc_verify (dalek E) (my_committee E) t))
     (bnd (gets (\<lambda>s. tc_round t < cur_round s)) (\<lambda>old.
      if old then ret ()
      else sq (advance_round now (tc_round t)) (propose_if_leader E (Some t))))"

section \<open>The main loop\<close>

text \<open>
  The three branches of \<open>select!\<close>, and a write of another task to the store all tasks share.
\<close>

datatype event =
    Message consensus_message
  | Loopback block
  | Timer_fired
  | Other_write bytes bytes

definition boot :: "('k, 'db) env \<Rightarrow> instant \<Rightarrow> ('db, unit) core_proc" where
  "boot E now =
     sq (modify (\<lambda>s. s\<lparr>my_timer := start_round now (reset now (my_timer s))\<rparr>)) (propose_if_leader E None)"

definition handle :: "('k, 'db) env \<Rightarrow> instant \<Rightarrow> event \<Rightarrow> ('db, unit) core_proc" where
  "handle E now ev =
     (case ev of
        Message (Propose b) \<Rightarrow> handle_proposal E now b
      | Message (VoteMsg v) \<Rightarrow> handle_vote E now v
      | Message (TimeoutMsg t) \<Rightarrow> handle_timeout E now t
      | Message (TCMsg t) \<Rightarrow> handle_tc E now t
      | Message (SyncRequest _ _) \<Rightarrow> panic ''Unexpected protocol message''
      | Loopback b \<Rightarrow> process_block E now b
      | Timer_fired \<Rightarrow> local_timeout_round E now
      | Other_write key value \<Rightarrow> write_store E key value)"

text \<open>An error is logged and the loop goes on; a panic ends the task.\<close>

definition step :: "('k, 'db) env \<Rightarrow> instant \<Rightarrow> event \<Rightarrow> ('db, unit) core_proc" where
  "step E now ev s = (case handle E now ev s of (Err _, t) \<Rightarrow> (Ok (), t) | (r, t) \<Rightarrow> (r, t))"

fun core_loop :: "('k, 'db) env \<Rightarrow> (instant \<times> event) list \<Rightarrow> ('db, unit) core_proc" where
  "core_loop E [] = ret ()"
| "core_loop E ((now, ev) # evs) = sq (step E now ev) (core_loop E evs)"

definition core_run ::
    "('k, 'db) env \<Rightarrow> u64 \<Rightarrow> instant \<Rightarrow> 'db store \<Rightarrow> (instant \<times> event) list \<Rightarrow>
       (consensus_error, unit) outcome \<times> 'db core" where
  "core_run E timeout_ms now st evs = sq (boot E now) (core_loop E evs) (core_new E timeout_ms now st)"

end
