(* ===== verification/Core_Log.thy ===== *)
theory Core_Log
  imports Core
begin

text \<open>
  What the core of \<open>consensus/src/core.rs\<close> does to its log of effects in every run, whatever arrives:
  the log only grows, and it orders the signatures as the voting rules demand.
\<close>

section \<open>The log only grows\<close>

definition log_grows :: "('db, 'z) world_scheme \<Rightarrow> ('db, 'z) world_scheme \<Rightarrow> bool" where
  "log_grows s t \<longleftrightarrow> (\<exists>es. out t = out s @ es)"

interpretation lg: step_relation log_grows
  by unfold_locales (auto simp: log_grows_def)

text \<open>The blocks that have been delivered, in order.\<close>

definition commits :: "effect list \<Rightarrow> block list" where
  "commits es = concat (map (\<lambda>e. case e of To_commit b \<Rightarrow> [b] | _ \<Rightarrow> []) es)"

lemma commits_append [simp]: "commits [] = []" "commits (es @ es') = commits es @ commits es'"
  by (simp_all add: commits_def)

lemma set_commits: "set (commits es) = {b. To_commit b \<in> set es}"
  by (induction es) (auto simp: commits_def split: effect.split)

named_theorems log_keeps "procedures under which the log only grows"

lemma keeps_emit [log_keeps]: "keeps log_grows (emit es)"
  by (auto simp: emit_def log_grows_def intro!: keeps_modify)

lemma keeps_write_store [log_keeps]: "keeps log_grows (write_store E k v)"
  by (auto simp: write_store_def log_grows_def intro!: keeps_modify)

lemma keeps_net [log_keeps]:
  "keeps log_grows (net_send a m)" "keeps log_grows (net_broadcast as m)"
  by (simp_all add: net_send_def net_broadcast_def log_keeps)

lemma keeps_expect [log_keeps]: "keeps log_grows (expect msg x)"
  by (cases x) (auto simp: expect_def intro: lg.keeps_rules)

lemma keeps_deserialize [log_keeps]: "keeps log_grows (deserialize e x)"
  by (cases x) (simp_all add: deserialize_def lg.keeps_pure, simp add: keeps_def lg.rel_refl)

lemma keeps_read_store [log_keeps]: "keeps log_grows (read_store E k)"
  by (auto simp: read_store_def intro!: lg.keeps_rules)

lemma keeps_get_parent_block [log_keeps]: "keeps log_grows (get_parent_block E b)"
  by (auto simp: get_parent_block_def intro!: lg.keeps_rules log_keeps)

lemma keeps_get_ancestors [log_keeps]: "keeps log_grows (get_ancestors E b)"
  by (auto simp: get_ancestors_def intro!: lg.keeps_rules log_keeps)

lemma keeps_missing_payload [log_keeps]: "keeps log_grows (missing_payload E xs)"
  by (induction xs) (auto intro!: lg.keeps_rules log_keeps)

lemma keeps_mempool [log_keeps]:
  "keeps log_grows (mempool_verify E b)" "keeps log_grows (mempool_cleanup r)"
  by (auto simp: mempool_verify_def mempool_cleanup_def intro!: lg.keeps_rules log_keeps)

lemma keeps_fields [log_keeps]:
  "keeps log_grows (increase_last_voted_round r)" "keeps log_grows (update_high_qc q)"
  "keeps log_grows (modify (\<lambda>s. s\<lparr>my_timer := f s\<rparr>))"
  "keeps log_grows (modify (\<lambda>s. s\<lparr>last_committed_round := r\<rparr>))"
  "keeps log_grows (zoom my_aggregator (\<lambda>a s. s\<lparr>my_aggregator := a\<rparr>) m)"
  by (auto simp: increase_last_voted_round_def update_high_qc_def keeps_def modify_def zoom_def
      log_grows_def split: prod.split)

lemma keeps_advance_round [log_keeps]: "keeps log_grows (advance_round now r)"
  by (auto simp: advance_round_def log_grows_def intro!: lg.keeps_rules keeps_modify)

lemma keeps_process_qc [log_keeps]: "keeps log_grows (process_qc now q)"
  by (auto simp: process_qc_def intro!: lg.keeps_rules log_keeps)

lemma keeps_generate_proposal [log_keeps]: "keeps log_grows (generate_proposal t)"
  by (auto simp: generate_proposal_def intro!: lg.keeps_rules log_keeps)

lemma keeps_leader [log_keeps]: "keeps log_grows (leader E r)"
  by (auto simp: leader_def intro!: log_keeps)

lemma keeps_propose_if_leader [log_keeps]: "keeps log_grows (propose_if_leader E t)"
  by (auto simp: propose_if_leader_def intro!: lg.keeps_rules log_keeps)

lemma keeps_broadcast_message [log_keeps]: "keeps log_grows (broadcast_message E p m)"
  by (auto simp: broadcast_message_def intro!: lg.keeps_rules log_keeps)

lemma keeps_cleanup_proposer [log_keeps]: "keeps log_grows (cleanup_proposer b0 b1 b)"
  by (auto simp: cleanup_proposer_def intro!: log_keeps)

lemma keeps_store_block [log_keeps]: "keeps log_grows (store_block E b)"
  by (auto simp: store_block_def intro!: lg.keeps_rules log_keeps)

lemma keeps_safety_rule_2 [log_keeps]: "keeps log_grows (safety_rule_2 b)"
  by (auto simp: safety_rule_2_def Let_def intro!: lg.keeps_rules log_keeps)

lemma keeps_make_vote [log_keeps]: "keeps log_grows (make_vote E b)"
  by (auto simp: make_vote_def intro!: lg.keeps_rules log_keeps)

lemma keeps_handle_vote [log_keeps]: "keeps log_grows (handle_vote E now v)"
  by (auto simp: handle_vote_def intro!: lg.keeps_rules log_keeps)

lemma keeps_handle_timeout [log_keeps]: "keeps log_grows (handle_timeout E now t)"
  by (auto simp: handle_timeout_def intro!: lg.keeps_rules log_keeps)

lemma keeps_local_timeout_round [log_keeps]: "keeps log_grows (local_timeout_round E now)"
  by (auto simp: local_timeout_round_def intro!: lg.keeps_rules log_keeps)

lemma keeps_send_vote [log_keeps]: "keeps log_grows (send_vote E now v)"
  by (auto simp: send_vote_def intro!: lg.keeps_rules log_keeps)

lemma collect_ancestors_grows:
  assumes "collect_ancestors E lc par acc s = Some rt"
  shows "log_grows s (snd rt)"
proof (rule collect_ancestors.raw_induct [of "\<lambda>E lc par acc s rt. log_grows s (snd rt)", OF _ assms])
  fix ca :: "('k, 'db) env \<Rightarrow> u64 \<Rightarrow> block \<Rightarrow> block list \<Rightarrow> 'db core \<Rightarrow>
      ((consensus_error, block list) outcome \<times> 'db core) option"
    and E lc par acc s rt
  assume IH: "\<And>E lc par acc s rt. ca E lc par acc s = Some rt \<Longrightarrow> log_grows s (snd rt)"
    and run: "(if lc + 1 < block_round par then
        (case get_parent_block E par s of
           (Ok (Some ancestor), s') \<Rightarrow> ca E lc ancestor (ancestor # acc) s'
         | (Ok None, s') \<Rightarrow> Some (Panic ''We should have all the ancestors by now'', s')
         | (Err e, s') \<Rightarrow> Some (Err e, s')
         | (Panic p, s') \<Rightarrow> Some (Panic p, s')
         | (Diverge, s') \<Rightarrow> Some (Diverge, s'))
      else Some (Ok acc, s)) = Some rt"
  obtain r s' where g: "get_parent_block E par s = (r, s')" by (cases "get_parent_block E par s")
  have "log_grows s s'" by (rule keepsD [OF keeps_get_parent_block g])
  moreover have "lc + 1 < block_round par \<Longrightarrow> log_grows s' (snd rt)"
    using run g by (auto simp: lg.rel_refl dest: IH split: outcome.splits option.splits)
  ultimately show "log_grows s (snd rt)"
    using run by (cases "lc + 1 < block_round par") (auto simp: lg.rel_refl intro: lg.rel_trans)
qed

lemma keeps_walk_ancestors [log_keeps]: "keeps log_grows (walk_ancestors E lc b)"
  by (auto simp: walk_ancestors_def keeps_def lg.rel_refl dest: collect_ancestors_grows split: option.split)

lemma keeps_commit [log_keeps]: "keeps log_grows (commit E b)"
  by (auto simp: commit_def Let_def intro!: lg.keeps_rules log_keeps)

lemma keeps_process_parts [log_keeps]:
  "keeps log_grows (commit_two_chain E b0 b1)" "keeps log_grows (vote_for_block E now b)"
  by (auto simp: commit_two_chain_def vote_for_block_def intro!: lg.keeps_rules log_keeps)

lemma keeps_process_block [log_keeps]: "keeps log_grows (process_block E now b)"
  by (auto simp: process_block_def intro!: lg.keeps_rules log_keeps)

lemma keeps_handle_proposal [log_keeps]: "keeps log_grows (handle_proposal E now b)"
  by (auto simp: handle_proposal_def Let_def intro!: lg.keeps_rules log_keeps)

lemma keeps_handle_tc [log_keeps]: "keeps log_grows (handle_tc E now t)"
  by (auto simp: handle_tc_def intro!: lg.keeps_rules log_keeps)

lemma keeps_boot [log_keeps]: "keeps log_grows (boot E now)"
  by (auto simp: boot_def intro!: lg.keeps_rules log_keeps)

lemma keeps_handle [log_keeps]: "keeps log_grows (handle E now ev)"
  by (auto simp: handle_def intro!: lg.keeps_rules log_keeps split: event.split consensus_message.split)

lemma keeps_step [log_keeps]: "keeps log_grows (step E now ev)"
  using keepsD [OF keeps_handle]
  by (fastforce simp: step_def keeps_def split: prod.split outcome.split)

lemma keeps_core_loop [log_keeps]: "keeps log_grows (core_loop E evs)"
  by (induction E evs rule: core_loop.induct) (auto intro!: lg.keeps_rules log_keeps)

section \<open>The voting rules, over the log\<close>

fun vote_order :: "effect \<Rightarrow> effect \<Rightarrow> bool" where
  "vote_order (Signed_vote b _) (Signed_vote b' _) \<longleftrightarrow> block_round b < block_round b'"
| "vote_order (Signed_timeout t) (Signed_vote b _) \<longleftrightarrow> timeout_round t < block_round b"
| "vote_order _ _ \<longleftrightarrow> True"

fun signed_up_to :: "u64 \<Rightarrow> effect \<Rightarrow> bool" where
  "signed_up_to r (Signed_vote b _) \<longleftrightarrow> block_round b \<le> r"
| "signed_up_to r (Signed_timeout t) \<longleftrightarrow> timeout_round t \<le> r"
| "signed_up_to r _ \<longleftrightarrow> True"

fun signature_made :: "('k, 'db) env \<Rightarrow> effect \<Rightarrow> bool" where
  "signature_made E (Signed_vote b v) \<longleftrightarrow> vote_new (dalek E) b (my_name E) (my_secret E) = Some v"
| "signature_made E (Signed_timeout t) \<longleftrightarrow>
     timeout_new (dalek E) (timeout_high_qc t) (timeout_round t) (my_name E) (my_secret E) = Some t"
| "signature_made E _ \<longleftrightarrow> True"

definition votes_ordered :: "('k, 'db) env \<Rightarrow> 'db core \<Rightarrow> bool" where
  "votes_ordered E s \<longleftrightarrow> sorted_wrt vote_order (out s)
     \<and> (\<forall>e\<in>set (out s). signed_up_to (last_voted_round s) e \<and> signature_made E e)"

text \<open>The effects other than the two signatures.\<close>

fun plain :: "effect \<Rightarrow> bool" where
  "plain (Signed_vote _ _) \<longleftrightarrow> False"
| "plain (Signed_timeout _) \<longleftrightarrow> False"
| "plain _ \<longleftrightarrow> True"

lemma plain_simps:
  assumes "plain e"
  shows "vote_order x e" and "vote_order e x" and "signed_up_to r e" and "signature_made E e"
  using assms by (cases e; cases x; simp)+

lemma signed_up_to_mono: "signed_up_to r e \<Longrightarrow> r \<le> r' \<Longrightarrow> signed_up_to r' e"
  by (cases e) auto

lemma plain_sorted: "\<forall>e\<in>set es. plain e \<Longrightarrow> sorted_wrt vote_order es"
  by (induction es) (auto simp: plain_simps)

lemma votes_ordered_log:
  assumes "votes_ordered E s" and "out t = out s @ es" and "\<forall>e\<in>set es. plain e"
    and "last_voted_round s \<le> last_voted_round t"
  shows "votes_ordered E t"
  using assms plain_sorted [OF assms(3)]
  by (auto simp: votes_ordered_def sorted_wrt_append plain_simps intro: signed_up_to_mono)

text \<open>The calculus for this invariant: nothing is assumed of the run.\<close>

abbreviation keeps_votes :: "('k, 'db) env \<Rightarrow> ('db, 'a) core_proc \<Rightarrow> bool" where
  "keeps_votes E m \<equiv> yields (\<lambda>_. True) UNIV (votes_ordered E) m (\<lambda>_. True)"

lemma votes_bnd: "keeps_votes E m \<Longrightarrow> (\<And>a. keeps_votes E (f a)) \<Longrightarrow> keeps_votes E (bnd m f)"
  unfolding leads_def bnd_def by (fastforce split: prod.splits outcome.splits)

lemma votes_sq: "keeps_votes E m \<Longrightarrow> keeps_votes E k \<Longrightarrow> keeps_votes E (sq m k)"
  unfolding sq_def by (rule votes_bnd)

lemmas votes_rules = yields_if yields_option yields_prod yields_pure votes_bnd votes_sq

named_theorems votes_keep

lemma votes_emit [votes_keep]: "\<forall>e\<in>set es. plain e \<Longrightarrow> keeps_votes E (emit es)"
  unfolding emit_def by (intro yields_modify) (auto intro: votes_ordered_log)

lemma votes_modify [votes_keep]:
  "(\<And>s. out (f s) = out s) \<Longrightarrow> (\<And>s. last_voted_round s \<le> last_voted_round (f s)) \<Longrightarrow> keeps_votes E (modify f)"
  by (rule yields_modify, rule votes_ordered_log [where es = "[]"]) auto

lemma votes_write_store [votes_keep]: "keeps_votes E (write_store E' k v)"
  unfolding write_store_def
  by (rule yields_modify, rule votes_ordered_log
      [where es = "map Store_notify (store_write_replies (rocksdb E') k v (my_store s))" for s]) auto

lemma votes_zoom [votes_keep]: "keeps_votes E (zoom my_aggregator (\<lambda>a s. s\<lparr>my_aggregator := a\<rparr>) m)"
  by (rule leadsI)
    (auto simp: zoom_def split: prod.splits intro: votes_ordered_log [where es = "[]"])

lemma votes_expect [votes_keep]: "keeps_votes E (expect msg x)"
  by (cases x) (auto simp: expect_def intro: votes_rules)

lemma votes_deserialize [votes_keep]: "keeps_votes E (deserialize e x)"
  by (cases x) (simp_all add: deserialize_def yields_pure, simp add: leads_def)

lemma votes_calls [votes_keep]:
  "keeps_votes E (read_store E' k)" "keeps_votes E (get_parent_block E' b)" "keeps_votes E (get_ancestors E' b)"
  "keeps_votes E (missing_payload E' xs)" "keeps_votes E (mempool_verify E' b)" "keeps_votes E (mempool_cleanup r)"
proof -
  show *: "keeps_votes E (read_store E' k)" for k
    by (auto simp: read_store_def intro!: votes_rules)
  show **: "keeps_votes E (get_parent_block E' b)" for b
    by (auto simp: get_parent_block_def intro!: votes_rules votes_keep *)
  show "keeps_votes E (get_ancestors E' b)"
    by (auto simp: get_ancestors_def intro!: votes_rules votes_keep **)
  show ***: "keeps_votes E (missing_payload E' xs)" for xs
    by (induction xs) (auto intro!: votes_rules *)
  show "keeps_votes E (mempool_verify E' b)"
    by (auto simp: mempool_verify_def intro!: votes_rules votes_keep ***)
  show "keeps_votes E (mempool_cleanup r)"
    by (auto simp: mempool_cleanup_def intro!: votes_keep)
qed

lemma votes_rounds [votes_keep]:
  "keeps_votes E (increase_last_voted_round r)" "keeps_votes E (update_high_qc q)"
  "keeps_votes E (advance_round now r)" "keeps_votes E (process_qc now q)"
proof -
  show "keeps_votes E (increase_last_voted_round r)"
    by (auto simp: increase_last_voted_round_def intro!: votes_keep)
  show *: "keeps_votes E (update_high_qc q)"
    by (auto simp: update_high_qc_def intro!: votes_keep)
  show **: "keeps_votes E (advance_round now r)" for r
    by (auto simp: advance_round_def intro!: votes_rules votes_keep)
  show "keeps_votes E (process_qc now q)"
    by (auto simp: process_qc_def intro!: votes_rules votes_keep * **)
qed

lemma votes_leading [votes_keep]:
  "keeps_votes E (generate_proposal t)" "keeps_votes E (leader E' r)" "keeps_votes E (propose_if_leader E' t)"
  "keeps_votes E (broadcast_message E' p m)" "keeps_votes E (cleanup_proposer b0 b1 b)"
  "keeps_votes E (store_block E' b)" "keeps_votes E (safety_rule_2 b)"
  by (auto simp: generate_proposal_def leader_def propose_if_leader_def broadcast_message_def net_broadcast_def
      cleanup_proposer_def store_block_def safety_rule_2_def Let_def intro!: votes_rules votes_keep)

lemma safety_rule_2_run:
  "safety_rule_2 b s =
     (case block_tc b of
        None \<Rightarrow> (Ok (qc_round (block_qc b) + 1 = block_round b), s)
      | Some t \<Rightarrow>
          (case max_round (high_qc_rounds t) of
             None \<Rightarrow> (Panic ''Empty TC'', s)
           | Some m \<Rightarrow> (Ok (qc_round (block_qc b) + 1 = block_round b
               \<or> tc_round t + 1 = block_round b \<and> m \<le> qc_round (block_qc b)), s)))"
  by (simp add: safety_rule_2_def expect_def bnd_def ret_def panic_def split: option.split)

text \<open>A vote is made in one step: the round is raised above all before it and the vote is signed.\<close>

lemma make_vote_cases:
  assumes "make_vote E b s = (r, t)"
  obtains (refused) "t = s" and "\<And>v. r \<noteq> Ok (Some v)" and "\<And>p. r = Panic p \<Longrightarrow> p = ''Empty TC''"
      and "\<And>p. r = Panic p \<Longrightarrow> \<exists>t. block_tc b = Some t \<and> high_qc_rounds t = []"
    | (gone) "r = Panic ''Failed to receive signature from Signature Service''"
      and "vote_new (dalek E) b (my_name E) (my_secret E) = None"
      and "t = s\<lparr>last_voted_round := max (last_voted_round s) (block_round b)\<rparr>"
    | (voted) v where "r = Ok (Some v)" and "vote_new (dalek E) b (my_name E) (my_secret E) = Some v"
      and "t = s\<lparr>last_voted_round := block_round b, out := out s @ [Signed_vote b v]\<rparr>"
      and "last_voted_round s < block_round b" and "safety_rule_2 b s = (Ok True, s)"
proof -
  have max_None: "max_round rs = None \<longleftrightarrow> rs = []" for rs by (cases rs) simp_all
  obtain r2 where rule2: "safety_rule_2 b s = (r2, s)"
    by (cases "block_tc b"; cases "max_round (high_qc_rounds (the (block_tc b)))")
      (simp_all add: safety_rule_2_run)
  have r2: "r2 = Panic p \<Longrightarrow> p = ''Empty TC'' \<and> (\<exists>t. block_tc b = Some t \<and> high_qc_rounds t = [])"
    "r2 \<noteq> Err e" "r2 \<noteq> Diverge" for p e
    using rule2 by (auto simp: safety_rule_2_run max_None split: option.splits)
  note run = assms [unfolded make_vote_def bnd_gets]
  show thesis
  proof (cases r2)
    case (Panic p)
    with run rule2 r2 have "t = s" "r = Panic p" by (simp_all add: bnd_def)
    with r2(1) [OF Panic] show ?thesis by (intro refused) auto
  next
    case (Ok rule_2)
    show ?thesis
    proof (cases "last_voted_round s < block_round b \<and> rule_2")
      case False
      then have "t = s" "r = Ok None" using run rule2 Ok by (auto simp: bnd_def ret_def)
      then show ?thesis by (intro refused) auto
    next
      case True
      note run = run [unfolded bnd_def sq_def rule2 Ok, simplified True, simplified]
      show ?thesis
      proof (cases "vote_new (dalek E) b (my_name E) (my_secret E)")
        case None
        with run gone show ?thesis by (auto simp: increase_last_voted_round_def modify_def expect_def panic_def)
      next
        case (Some v)
        with run True voted rule2 Ok show ?thesis
          by (auto simp: increase_last_voted_round_def modify_def expect_def ret_def emit_def max_def)
      qed
    qed
  qed (use r2 in auto)
qed

lemma votes_ordered_vote:
  assumes "votes_ordered E s" and "vote_new (dalek E) b (my_name E) (my_secret E) = Some v"
    and "last_voted_round s < block_round b"
  shows "votes_ordered E (s\<lparr>last_voted_round := block_round b, out := out s @ [Signed_vote b v]\<rparr>)"
proof -
  have "vote_order e (Signed_vote b v) \<and> signed_up_to (block_round b) e" if "e \<in> set (out s)" for e
    using assms that by (cases e) (auto simp: votes_ordered_def)
  then show ?thesis using assms by (auto simp: votes_ordered_def sorted_wrt_append)
qed

lemma votes_make_vote [votes_keep]: "keeps_votes E (make_vote E b)"
proof (rule leadsI)
  fix s r t assume run: "make_vote E b s = (r, t)" and I: "votes_ordered E s"
  from run have "votes_ordered E t"
    by (cases rule: make_vote_cases)
      (use I in \<open>auto intro: votes_ordered_vote votes_ordered_log [where es = "[]"]\<close>)
  then show "votes_ordered E t \<and> (\<forall>a. r = Ok a \<longrightarrow> True) \<and> (\<forall>p. r = Panic p \<longrightarrow> p \<in> UNIV)" by simp
qed

lemma votes_handle_messages [votes_keep]:
  "keeps_votes E (handle_vote E' now v)" "keeps_votes E (handle_timeout E' now t)"
  "keeps_votes E (handle_tc E' now c)"
  by (auto simp: handle_vote_def handle_timeout_def handle_tc_def intro!: votes_rules votes_keep)

text \<open>The local timeout up to the signature, in one step.\<close>

definition after_timeout :: "('k, 'db) env \<Rightarrow> instant \<Rightarrow> timeout \<Rightarrow> ('db, unit) core_proc" where
  "after_timeout E now t =
     sq (modify (\<lambda>s. s\<lparr>my_timer := start_round now (reset now (my_timer s))\<rparr>))
       (sq (broadcast_message E ''Failed to serialize timeout message'' (TimeoutMsg t))
       (handle_timeout E now t))"

lemma local_timeout_run:
  "local_timeout_round E now s =
     (let s' = s\<lparr>last_voted_round := max (last_voted_round s) (cur_round s)\<rparr>
      in case timeout_new (dalek E) (high_qc s) (cur_round s) (my_name E) (my_secret E) of
           None \<Rightarrow> (Panic ''Failed to receive signature from Signature Service'', s')
         | Some t \<Rightarrow> after_timeout E now t (s'\<lparr>out := out s @ [Signed_timeout t]\<rparr>))"
  by (simp add: local_timeout_round_def increase_last_voted_round_def emit_def expect_def after_timeout_def
      Let_def bnd_gets sq_modify bnd_ret split: option.split) (simp add: bnd_def panic_def)

lemma timeout_new_fields:
  "timeout_new D q r a k = Some t \<Longrightarrow> timeout_high_qc t = q \<and> timeout_round t = r \<and> timeout_author t = a"
  by (auto simp: timeout_new_def Let_def)

lemma vote_new_fields:
  "vote_new D b a k = Some v \<Longrightarrow>
   vote_hash v = block_digest D b \<and> vote_round v = block_round b \<and> vote_author v = a"
  by (auto simp: vote_new_def Let_def)

lemma votes_local_timeout_round [votes_keep]: "keeps_votes E (local_timeout_round E now)"
proof (rule leadsI)
  fix s r t assume run: "local_timeout_round E now s = (r, t)" and I: "votes_ordered E s"
  let ?s = "s\<lparr>last_voted_round := max (last_voted_round s) (cur_round s)\<rparr>"
  have s': "votes_ordered E ?s"
    by (rule votes_ordered_log [OF I, where es = "[]"]) auto
  have "votes_ordered E t"
  proof (cases "timeout_new (dalek E) (high_qc s) (cur_round s) (my_name E) (my_secret E)")
    case None
    with run s' show ?thesis by (simp add: local_timeout_run Let_def)
  next
    case (Some m)
    note m = timeout_new_fields [OF Some]
    have "keeps_votes E (after_timeout E now m)"
      by (auto simp: after_timeout_def intro!: votes_rules votes_keep)
    moreover have "votes_ordered E (?s\<lparr>out := out s @ [Signed_timeout m]\<rparr>)"
    proof -
      have "vote_order e (Signed_timeout m)" for e by (cases e) auto
      then show ?thesis using s' Some m by (auto simp: votes_ordered_def sorted_wrt_append)
    qed
    moreover have "after_timeout E now m (?s\<lparr>out := out s @ [Signed_timeout m]\<rparr>) = (r, t)"
      using run Some by (simp add: local_timeout_run Let_def)
    ultimately show ?thesis by (auto dest: leadsD(1))
  qed
  then show "votes_ordered E t \<and> (\<forall>a. r = Ok a \<longrightarrow> True) \<and> (\<forall>p. r = Panic p \<longrightarrow> p \<in> UNIV)" by simp
qed

text \<open>
  The walk up the parents, for any invariant \<open>I\<close> and any fact \<open>D\<close> that relates a block to what
  \<open>get_parent_block\<close> returns for it: the list collected, read from its back, goes up from \<open>b\<close> in steps
  of \<open>D\<close>, and it goes on above exactly the blocks whose round is more than one above the last committed.
\<close>

fun ancestry :: "(block \<Rightarrow> block \<Rightarrow> bool) \<Rightarrow> block \<Rightarrow> block list \<Rightarrow> bool" where
  "ancestry D b [] \<longleftrightarrow> True"
| "ancestry D b (a # as) \<longleftrightarrow> D b a \<and> ancestry D a as"

lemma ancestry_snoc: "ancestry D b (as @ [a]) \<longleftrightarrow> ancestry D b as \<and> D (last (b # as)) a"
  by (induction as arbitrary: b) auto

lemma collect_ancestors_yields:
  assumes run: "collect_ancestors E lc par acc s = Some rt"
    and parents: "\<And>b. G b \<Longrightarrow> yields B P I (get_parent_block E b) (\<lambda>r. \<forall>a. r = Some a \<longrightarrow> G a \<and> D b a)"
    and backwards: "\<And>s t. log_grows s t \<Longrightarrow> B t \<Longrightarrow> B s"
    and allowed: "''We should have all the ancestors by now'' \<in> P"
    and "B (snd rt)" and "I s" and "G par"
    and "ancestry D b (rev acc)" and "last (b # rev acc) = par" and "\<forall>a\<in>set acc. G a"
    and "\<forall>a\<in>set (butlast (b # rev acc)). lc + 1 < block_round a"
  shows "I (snd rt) \<and> (\<forall>p. fst rt = Panic p \<longrightarrow> p \<in> P)
    \<and> (\<forall>as. fst rt = Ok as \<longrightarrow> ancestry D b (rev as) \<and> (\<forall>a\<in>set as. G a)
          \<and> (\<forall>a\<in>set (butlast (b # rev as)). lc + 1 < block_round a)
          \<and> \<not> lc + 1 < block_round (last (b # rev as)))"
proof -
  let ?pre = "\<lambda>lc par acc s rt. B (snd rt) \<and> I s \<and> G par \<and> ancestry D b (rev acc) \<and> last (b # rev acc) = par
    \<and> (\<forall>a\<in>set acc. G a) \<and> (\<forall>a\<in>set (butlast (b # rev acc)). lc + 1 < block_round a)"
  let ?post = "\<lambda>lc rt. I (snd rt) \<and> (\<forall>p. fst rt = Panic p \<longrightarrow> p \<in> P)
    \<and> (\<forall>as. fst rt = Ok as \<longrightarrow> ancestry D b (rev as) \<and> (\<forall>a\<in>set as. G a)
          \<and> (\<forall>a\<in>set (butlast (b # rev as)). lc + 1 < block_round a)
          \<and> \<not> lc + 1 < block_round (last (b # rev as)))"
  let ?P = "\<lambda>E' lc par acc s rt. log_grows s (snd rt) \<and> (E' = E \<longrightarrow> ?pre lc par acc s rt \<longrightarrow> ?post lc rt)"
  have "?P E lc par acc s rt"
  proof (rule collect_ancestors.raw_induct [of ?P, OF _ run], (rule conjI; ((rule impI)+)?))
    fix ca E' lc par acc s rt
    assume IH: "\<And>E' lc par acc s rt. ca E' lc par acc s = Some rt \<Longrightarrow> ?P E' lc par acc s rt"
      and run: "(if lc + 1 < block_round par then
        (case get_parent_block E' par s of
           (Ok (Some ancestor), s') \<Rightarrow> ca E' lc ancestor (ancestor # acc) s'
         | (Ok None, s') \<Rightarrow> Some (Panic ''We should have all the ancestors by now'', s')
         | (Err e, s') \<Rightarrow> Some (Err e, s')
         | (Panic p, s') \<Rightarrow> Some (Panic p, s')
         | (Diverge, s') \<Rightarrow> Some (Diverge, s'))
      else Some (Ok acc, s)) = Some rt"
    obtain r s' where g: "get_parent_block E' par s = (r, s')" by (cases "get_parent_block E' par s")
    have "log_grows s s'" by (rule keepsD [OF keeps_get_parent_block g])
    moreover have "lc + 1 < block_round par \<Longrightarrow> log_grows s' (snd rt)"
      using run g IH by (auto simp: lg.rel_refl split: outcome.splits option.splits)
    ultimately show "log_grows s (snd rt)"
      using run by (cases "lc + 1 < block_round par") (auto simp: lg.rel_refl intro: lg.rel_trans)
  next
    fix ca E' lc par acc s rt
    assume IH: "\<And>E' lc par acc s rt. ca E' lc par acc s = Some rt \<Longrightarrow> ?P E' lc par acc s rt"
      and run: "(if lc + 1 < block_round par then
        (case get_parent_block E' par s of
           (Ok (Some ancestor), s') \<Rightarrow> ca E' lc ancestor (ancestor # acc) s'
         | (Ok None, s') \<Rightarrow> Some (Panic ''We should have all the ancestors by now'', s')
         | (Err e, s') \<Rightarrow> Some (Err e, s')
         | (Panic p, s') \<Rightarrow> Some (Panic p, s')
         | (Diverge, s') \<Rightarrow> Some (Diverge, s'))
      else Some (Ok acc, s)) = Some rt"
      and E': "E' = E" and pre: "?pre lc par acc s rt"
    then have Brt: "B (snd rt)" and "I s" and par: "G par" and acc: "ancestry D b (rev acc)"
      "last (b # rev acc) = par" "\<forall>a\<in>set acc. G a" "\<forall>a\<in>set (butlast (b # rev acc)). lc + 1 < block_round a"
      by blast+
    show "?post lc rt"
    proof (cases "lc + 1 < block_round par")
      case False
      then show ?thesis using run \<open>I s\<close> acc by auto
    next
      case go: True
      obtain r s' where g: "get_parent_block E par s = (r, s')" by (cases "get_parent_block E par s")
      note y = leadsD [OF parents [OF par] g _ \<open>I s\<close>]
      show ?thesis
      proof (cases "\<exists>a. r = Ok (Some a)")
        case True
        then obtain a where r: "r = Ok (Some a)" by blast
        with run go E' g have cont: "ca E' lc a (a # acc) s' = Some rt" by simp
        have Bs': "B s'" using IH [OF cont] backwards Brt by blast
        have "G a" "D par a" using y(2) [OF Bs' r] by simp_all
        then have "ancestry D b (rev (a # acc))" "\<forall>x\<in>set (a # acc). G x"
          using acc by (auto simp: ancestry_snoc)
        moreover have "last (b # rev (a # acc)) = a" by simp
        moreover have "\<forall>x\<in>set (butlast (b # rev (a # acc))). lc + 1 < block_round x"
        proof -
          have "butlast (b # rev (a # acc)) = b # rev acc" by simp
          also have "\<dots> = butlast (b # rev acc) @ [par]" using acc(2) by (metis append_butlast_last_id list.distinct(1))
          finally show ?thesis using acc(4) go by auto
        qed
        ultimately have "?pre lc a (a # acc) s' rt"
          using Brt y(1) [OF Bs'] \<open>G a\<close> by blast
        then show ?thesis using IH [OF cont] E' by blast
      next
        case False
        then have "snd rt = s'" "\<And>as. fst rt \<noteq> Ok as" "fst rt = Panic p \<Longrightarrow> p \<in> P \<or> r = Panic p" for p
          using run go E' g allowed by (auto split: outcome.splits option.splits)
        then show ?thesis using y Brt by auto
      qed
    qed
  qed
  then show ?thesis using assms(5-) by blast
qed

lemma votes_walk_ancestors [votes_keep]: "keeps_votes E (walk_ancestors E' lc b)"
proof (rule leadsI)
  fix s r t assume run: "walk_ancestors E' lc b s = (r, t)" and I: "votes_ordered E s"
  show "votes_ordered E t \<and> (\<forall>a. r = Ok a \<longrightarrow> True) \<and> (\<forall>p. r = Panic p \<longrightarrow> p \<in> UNIV)"
  proof (cases "collect_ancestors E' lc b [] s")
    case None
    then show ?thesis using run I by (simp add: walk_ancestors_def)
  next
    case (Some rt)
    have "keeps_votes E (get_parent_block E' b)" for b by (rule votes_calls)
    then have "votes_ordered E (snd rt)"
      using collect_ancestors_yields [OF Some, where G = "\<lambda>_. True" and B = "\<lambda>_. True" and P = UNIV
          and I = "votes_ordered E" and D = "\<lambda>_ _. True" and b = b] I by simp
    then show ?thesis using run Some by (simp add: walk_ancestors_def)
  qed
qed

lemma votes_commit [votes_keep]: "keeps_votes E (commit E' b)"
  by (auto simp: commit_def Let_def intro!: votes_rules votes_keep)

lemma votes_send_vote [votes_keep]: "keeps_votes E (send_vote E' now v)"
  by (auto simp: send_vote_def net_send_def intro!: votes_rules votes_keep)

lemma votes_process_parts [votes_keep]:
  "keeps_votes E (commit_two_chain E' b0 b1)" "keeps_votes E (vote_for_block E now b)"
  by (auto simp: commit_two_chain_def vote_for_block_def intro!: votes_rules votes_keep)

lemma votes_process_block [votes_keep]: "keeps_votes E (process_block E now b)"
  by (auto simp: process_block_def intro!: votes_rules votes_keep)

lemma votes_handle_proposal [votes_keep]: "keeps_votes E (handle_proposal E now b)"
  by (auto simp: handle_proposal_def Let_def intro!: votes_rules votes_keep)

lemma votes_boot [votes_keep]: "keeps_votes E (boot E now)"
  by (auto simp: boot_def intro!: votes_rules votes_keep)

lemma votes_handle [votes_keep]: "keeps_votes E (handle E now ev)"
  by (auto simp: handle_def intro!: votes_rules votes_keep split: event.split consensus_message.split)

lemma votes_step [votes_keep]: "keeps_votes E (step E now ev)"
  using votes_handle [of E now ev]
  by (fastforce simp: step_def leads_def split: prod.splits outcome.splits)

lemma votes_core_loop: "keeps_votes E (core_loop E evs)"
  by (induction E evs rule: core_loop.induct) (auto intro!: votes_rules votes_keep)

lemma votes_ordered_run: "votes_ordered E (snd (core_run E ms now st evs))"
proof -
  have "keeps_votes E (sq (boot E now) (core_loop E evs))"
    by (intro votes_sq votes_boot votes_core_loop)
  moreover have "votes_ordered E (core_new E ms now st)" by (simp add: votes_ordered_def core_new_def)
  ultimately show ?thesis
    unfolding core_run_def by (metis (no_types, lifting) prod.collapse leadsD(1))
qed

section \<open>Properties\<close>

fun voted_rounds :: "effect list \<Rightarrow> u64 list" where
  "voted_rounds [] = []"
| "voted_rounds (Signed_vote b v # es) = vote_round v # voted_rounds es"
| "voted_rounds (_ # es) = voted_rounds es"

lemma voted_rounds_mem: "r \<in> set (voted_rounds es) \<longleftrightarrow> (\<exists>b v. Signed_vote b v \<in> set es \<and> r = vote_round v)"
  by (induction es rule: voted_rounds.induct) auto

lemma voted_rounds_sorted:
  assumes "sorted_wrt vote_order es" and "\<forall>e\<in>set es. signature_made E e"
  shows "sorted_wrt (<) (voted_rounds es)"
  using assms
proof (induction es rule: voted_rounds.induct)
  case (2 b v es)
  have "vote_round v < vote_round v'" if "Signed_vote b' v' \<in> set es" for b' v'
    using that 2(2,3) by (force dest: vote_new_fields)
  with 2 show ?case by (auto simp: voted_rounds_mem)
qed auto

text \<open>
  C7. The voting rules hold in every run of the core, whatever arrives on its channels, whenever its timer
  fires and whatever the store returns: the rounds of the votes it signs strictly increase, so it never
  signs two votes for one round, it signs no vote for a round after it has signed a timeout for that
  round or a later one, and every vote is for the digest and the round of the block it was made for.
\<close>

theorem votes_strictly_increase:
  "sorted_wrt (<) (voted_rounds (out (snd (core_run E ms now st evs))))
   \<and> sorted_wrt vote_order (out (snd (core_run E ms now st evs)))
   \<and> list_all (signature_made E) (out (snd (core_run E ms now st evs)))"
  using votes_ordered_run [of E ms now st evs] voted_rounds_sorted [of _ E]
  by (auto simp: votes_ordered_def list_all_iff)

end
