(* ===== verification/Core_Safety.thy ===== *)
theory Core_Safety
  imports Core_Log
begin

text \<open>
  The invariant of the core when the signatures it accepts are genuine. \<open>sg a m\<close> says that a signature
  of authority \<open>a\<close> on the message with preimage \<open>m\<close> (the bytes that \<open>digest\<close> hashes) has been made.
  What the core stores, votes for, proposes on and commits then rests on certificates that quorums have
  signed, its log respects the rule that binds votes to later timeouts, and its store holds checked
  blocks only.
\<close>

section \<open>Attested certificates and blocks\<close>

type_synonym signed = "public_key \<Rightarrow> bytes \<Rightarrow> bool"

definition qc_attested :: "committee \<Rightarrow> signed \<Rightarrow> qc \<Rightarrow> bool" where
  "qc_attested c sg q \<longleftrightarrow> qc_eq q qc_genesis \<or>
     digest_wf (qc_hash q) \<and> qc_round q < - 1 \<and> quorum c (fst ` set (qc_votes q))
     \<and> (\<forall>a\<in>fst ` set (qc_votes q). sg a (vote_preimage (qc_hash q) (qc_round q)))"

definition tc_attested :: "committee \<Rightarrow> signed \<Rightarrow> tc \<Rightarrow> bool" where
  "tc_attested c sg t \<longleftrightarrow> tc_round t < - 1 \<and> quorum c (fst ` set (tc_votes t))
     \<and> (\<forall>(a, _, hr)\<in>set (tc_votes t). sg a (timeout_preimage (tc_round t) hr))"

definition block_attested :: "committee \<Rightarrow> signed \<Rightarrow> block \<Rightarrow> bool" where
  "block_attested c sg b \<longleftrightarrow> block_wf b \<and> (\<exists>a. sg a (block_preimage b)) \<and> qc_attested c sg (block_qc b)
     \<and> (\<forall>t. block_tc b = Some t \<longrightarrow> tc_attested c sg t)"

text \<open>
  Signatures that pass a check of the code have been made, on the message checked; the arrays in messages
  have their lengths; and nobody has signed for the last round of a \<open>u64\<close>, to which the code adds 1.
\<close>

definition genuine_qc :: "'k dalek \<Rightarrow> committee \<Rightarrow> signed \<Rightarrow> qc \<Rightarrow> bool" where
  "genuine_qc D c sg q \<longleftrightarrow> (qc_verify D c q = Inr () \<longrightarrow> digest_wf (qc_hash q) \<and> qc_round q < - 1
     \<and> (\<forall>a\<in>fst ` set (qc_votes q). sg a (vote_preimage (qc_hash q) (qc_round q))))"

definition genuine_tc :: "'k dalek \<Rightarrow> committee \<Rightarrow> signed \<Rightarrow> tc \<Rightarrow> bool" where
  "genuine_tc D c sg t \<longleftrightarrow> (tc_verify D c t = Inr () \<longrightarrow> tc_round t < - 1
     \<and> (\<forall>(a, _, hr)\<in>set (tc_votes t). sg a (timeout_preimage (tc_round t) hr)))"

definition signed_vote :: "signed \<Rightarrow> vote \<Rightarrow> bool" where
  "signed_vote sg v \<longleftrightarrow> digest_wf (vote_hash v) \<and> vote_round v < - 1
     \<and> sg (vote_author v) (vote_preimage (vote_hash v) (vote_round v))"

definition signed_timeout :: "signed \<Rightarrow> timeout \<Rightarrow> bool" where
  "signed_timeout sg t \<longleftrightarrow> timeout_round t < - 1
     \<and> sg (timeout_author t) (timeout_preimage (timeout_round t) (qc_round (timeout_high_qc t)))"

fun genuine_message :: "'k dalek \<Rightarrow> committee \<Rightarrow> signed \<Rightarrow> consensus_message \<Rightarrow> bool" where
  "genuine_message D c sg (Propose b) \<longleftrightarrow>
     block_wf b \<and> genuine_qc D c sg (block_qc b) \<and> (\<forall>t. block_tc b = Some t \<longrightarrow> genuine_tc D c sg t)
     \<and> (block_verify D c b = Inr () \<longrightarrow> sg (block_author b) (block_preimage b))"
| "genuine_message D c sg (VoteMsg v) \<longleftrightarrow> (vote_verify D c v = Inr () \<longrightarrow> signed_vote sg v)"
| "genuine_message D c sg (TimeoutMsg t) \<longleftrightarrow> genuine_qc D c sg (timeout_high_qc t)
     \<and> (timeout_verify D c t = Inr () \<longrightarrow> signed_timeout sg t)"
| "genuine_message D c sg (TCMsg t) \<longleftrightarrow> genuine_tc D c sg t"
| "genuine_message D c sg (SyncRequest _ _) \<longleftrightarrow> True"

lemma attested_of_verify:
  assumes "committee_ok c"
  shows "genuine_qc D c sg q \<Longrightarrow> qc_eq q qc_genesis \<or> qc_verify D c q = Inr () \<Longrightarrow> qc_attested c sg q"
    and "genuine_tc D c sg t \<Longrightarrow> tc_verify D c t = Inr () \<Longrightarrow> tc_attested c sg t"
  using qc_verify_quorum [OF assms] tc_verify_quorum [OF assms]
  by (auto simp: genuine_qc_def genuine_tc_def qc_attested_def tc_attested_def)

lemma block_attested_of_verify:
  assumes "committee_ok c" and "genuine_message D c sg (Propose b)" and "block_verify D c b = Inr ()"
  shows "block_attested c sg b"
  using assms block_verify_parts [OF assms(3)]
  by (auto simp: block_attested_def intro: attested_of_verify)

lemma qc_attested_genesis [simp]: "qc_attested c sg qc_genesis"
  by (simp add: qc_attested_def qc_eq_def)

lemma block_attested_parts:
  assumes "block_attested c sg b"
  shows "qc_attested c sg (block_qc b)" and "block_tc b = Some t \<Longrightarrow> tc_attested c sg t"
  using assms by (auto simp: block_attested_def)

lemma qc_attested_round: "qc_attested c sg q \<Longrightarrow> qc_round q < - 1"
  by (auto simp: qc_attested_def qc_eq_def qc_genesis_def word_greater_zero_iff)

section \<open>The aggregator\<close>

text \<open>No two signed messages have the same digest, and none has the digest of 32 zeros.\<close>

definition collision_free :: "'k dalek \<Rightarrow> signed \<Rightarrow> bool" where
  "collision_free D sg \<longleftrightarrow>
     (\<forall>a a' m m'. sg a m \<longrightarrow> sg a' m' \<longrightarrow> hash32 D m = hash32 D m' \<longrightarrow> m = m')
     \<and> (\<forall>a m. sg a m \<longrightarrow> hash32 D m \<noteq> digest_default)"

definition agg_inv :: "'k dalek \<Rightarrow> committee \<Rightarrow> signed \<Rightarrow> aggregator \<Rightarrow> bool" where
  "agg_inv D c sg a \<longleftrightarrow> agg_committee a = c \<and> aggregator_ok D a \<and>
     (\<forall>r ms d m. votes_aggregators a r = Some ms \<longrightarrow> ms d = Some m \<longrightarrow>
        (\<forall>x\<in>fst ` set (qcm_votes m). \<exists>p. sg x p \<and> hash32 D p = d)) \<and>
     (\<forall>r m. timeouts_aggregators a r = Some m \<longrightarrow>
        (\<forall>(x, _, hr)\<in>set (tcm_votes m). sg x (timeout_preimage r hr)))"

lemma agg_inv_new: "agg_inv D c sg (aggregator_new c)"
  by (simp add: agg_inv_def aggregator_new_ok) (simp add: aggregator_new_def)

lemma cleanup_sub:
  "votes_aggregators (cleanup r a) k = Some x \<Longrightarrow> votes_aggregators a k = Some x"
  "timeouts_aggregators (cleanup r a) k = Some y \<Longrightarrow> timeouts_aggregators a k = Some y"
  "agg_committee (cleanup r a) = agg_committee a"
  by (auto simp: cleanup_def split: if_splits)

lemma agg_inv_cleanup: "agg_inv D c sg a \<Longrightarrow> agg_inv D c sg (cleanup r a)"
  unfolding agg_inv_def cleanup_sub(3)
  by (elim conjE, intro conjI allI impI) (simp_all add: cleanup_ok, (drule cleanup_sub, simp)+)

lemma agg_inv_vote:
  assumes c: "committee_ok c" and cf: "collision_free D sg" and a: "agg_inv D c sg a"
    and v: "vote_verify D c v = Inr ()" and sg: "signed_vote sg v" and run: "add_vote D v a = (r, a')"
  shows "agg_inv D c sg a'" and "r = Ok (Some q) \<Longrightarrow> qc_attested c sg q"
proof -
  let ?ms = "or_new Map.empty (votes_aggregators a (vote_round v))"
  let ?m = "or_new qc_maker_new (?ms (vote_digest D v))"
  let ?p = "vote_preimage (vote_hash v) (vote_round v)"
  have ac: "agg_committee a = c" "aggregator_ok D a" using a by (simp_all add: agg_inv_def)
  have own: "sg (vote_author v) ?p" "hash32 D ?p = vote_digest D v"
    using sg by (simp_all add: signed_vote_def vote_digest_def)
  note ok = add_vote_ok [of a D v r a', unfolded ac(1), OF c v ac(2) run]
  have m: "\<forall>x\<in>fst ` set (qcm_votes ?m). \<exists>p. sg x p \<and> hash32 D p = vote_digest D v"
    using a by (auto simp: agg_inv_def or_new_def qc_maker_new_def split: option.splits)
  obtain m' where app: "qc_maker_append v c ?m = (r, m')"
    and a': "a' = a\<lparr>votes_aggregators :=
      (votes_aggregators a)(vote_round v \<mapsto> ?ms(vote_digest D v \<mapsto> m'))\<rparr>"
    using run ac(1) by (auto simp: add_vote_def Let_def split: prod.splits)
  have m': "\<forall>x\<in>fst ` set (qcm_votes m'). \<exists>p. sg x p \<and> hash32 D p = vote_digest D v"
  proof -
    have ex: "\<exists>p. sg (vote_author v) p \<and> hash32 D p = vote_digest D v" using own by blast
    have "set (qcm_votes m') \<subseteq> insert (vote_author v, vote_signature v) (set (qcm_votes ?m))"
      using app by (auto simp: qc_maker_append_def Let_def split: if_splits)
    with m ex show ?thesis by fastforce
  qed
  show "agg_inv D c sg a'"
    using a ok(1) m' by (auto simp: agg_inv_def a' or_new_def split: if_splits option.splits)
  assume q: "r = Ok (Some q)"
  then have "qc_votes q = qcm_votes m'"
    using app by (auto simp: qc_maker_append_def Let_def split: if_splits)
  moreover have "sg x ?p" if "x \<in> fst ` set (qcm_votes m')" for x
    using m' that own cf unfolding collision_free_def by metis
  ultimately show "qc_attested c sg q"
    using ok(2) [OF q] sg by (simp add: qc_attested_def qc_signed_def signed_vote_def)
qed

lemma agg_inv_timeout:
  assumes c: "committee_ok c" and a: "agg_inv D c sg a" and t: "timeout_verify D c t = Inr ()"
    and sg: "signed_timeout sg t" and run: "add_timeout t a = (r, a')"
  shows "agg_inv D c sg a'" and "r = Ok (Some q) \<Longrightarrow> tc_attested c sg q"
proof -
  let ?m = "or_new tc_maker_new (timeouts_aggregators a (timeout_round t))"
  have ac: "agg_committee a = c" "aggregator_ok D a" using a by (simp_all add: agg_inv_def)
  note ok = add_timeout_ok [of a D t r a', unfolded ac(1), OF c t ac(2) run]
  have m: "\<forall>(x, _, hr)\<in>set (tcm_votes ?m). sg x (timeout_preimage (timeout_round t) hr)"
    using a by (auto simp: agg_inv_def or_new_def tc_maker_new_def split: option.splits)
  obtain m' where app: "tc_maker_append t c ?m = (r, m')"
    and a': "a' = a\<lparr>timeouts_aggregators := (timeouts_aggregators a)(timeout_round t \<mapsto> m')\<rparr>"
    using run ac(1) by (auto simp: add_timeout_def Let_def split: prod.splits)
  have m': "\<forall>(x, _, hr)\<in>set (tcm_votes m'). sg x (timeout_preimage (timeout_round t) hr)"
    using app m sg by (auto simp: tc_maker_append_def signed_timeout_def Let_def split: if_splits)
  show "agg_inv D c sg a'"
    using a ok(1) m' by (auto simp: agg_inv_def a' split: if_splits)
  assume q: "r = Ok (Some q)"
  then have "tc_votes q = tcm_votes m'"
    using app by (auto simp: tc_maker_append_def Let_def split: if_splits)
  with ok(2) [OF q] m' sg show "tc_attested c sg q"
    by (simp add: tc_attested_def tc_signed_def signed_timeout_def)
qed

section \<open>The invariant of the core\<close>

text \<open>A block an honest core may vote for: the two voting rules, on attested certificates.\<close>

definition votable :: "committee \<Rightarrow> signed \<Rightarrow> block \<Rightarrow> bool" where
  "votable c sg b \<longleftrightarrow> block_attested c sg b \<and> qc_round (block_qc b) < block_round b
     \<and> (qc_round (block_qc b) + 1 = block_round b
        \<or> (\<exists>t. block_tc b = Some t \<and> tc_round t + 1 = block_round b
             \<and> (\<forall>hr\<in>set (high_qc_rounds t). hr \<le> qc_round (block_qc b))))"

text \<open>What \<open>get_parent_block\<close> returns for \<open>b\<close>, and the heads of 2-chains.\<close>

definition parent_of :: "'k dalek \<Rightarrow> committee \<Rightarrow> signed \<Rightarrow> block \<Rightarrow> block \<Rightarrow> bool" where
  "parent_of D c sg b p \<longleftrightarrow>
     (if qc_eq (block_qc b) qc_genesis then p = block_genesis
      else block_digest D p = parent b \<and> block_attested c sg p)"

definition two_chain :: "'k dalek \<Rightarrow> committee \<Rightarrow> signed \<Rightarrow> block \<Rightarrow> bool" where
  "two_chain D c sg b0 \<longleftrightarrow> (\<exists>b b1. block_attested c sg b \<and> parent_of D c sg b b1
     \<and> parent_of D c sg b1 b0 \<and> block_round b0 + 1 = block_round b1)"

definition committable :: "'k dalek \<Rightarrow> committee \<Rightarrow> signed \<Rightarrow> block \<Rightarrow> bool" where
  "committable D c sg b \<longleftrightarrow>
     (\<exists>b0 as. two_chain D c sg b0 \<and> ancestry (parent_of D c sg) b0 as \<and> b \<in> set (b0 # as))"

text \<open>What is true of an effect while the highest QC known has round \<open>h\<close>.\<close>

fun effect_ok :: "'k dalek \<Rightarrow> committee \<Rightarrow> signed \<Rightarrow> u64 \<Rightarrow> effect \<Rightarrow> bool" where
  "effect_ok D c sg h (Signed_vote b v) \<longleftrightarrow> votable c sg b \<and> qc_round (block_qc b) \<le> h"
| "effect_ok D c sg h (Signed_timeout t) \<longleftrightarrow>
     qc_attested c sg (timeout_high_qc t) \<and> qc_round (timeout_high_qc t) \<le> h"
| "effect_ok D c sg h (To_synchronizer b) \<longleftrightarrow> block_attested c sg b \<and> qc_round (block_qc b) \<le> h"
| "effect_ok D c sg h (To_payload_waiter (Wait ds b)) \<longleftrightarrow> block_attested c sg b \<and> qc_round (block_qc b) \<le> h"
| "effect_ok D c sg h (To_proposer (Make r q t)) \<longleftrightarrow> qc_attested c sg q \<and> qc_round q \<le> h
     \<and> (\<forall>t'. t = Some t' \<longrightarrow> tc_attested c sg t')"
| "effect_ok D c sg h (To_commit b) \<longleftrightarrow> committable D c sg b"
| "effect_ok D c sg h _ \<longleftrightarrow> True"

text \<open>A vote for a block binds every later timeout to a QC at least as high as the one in the block.\<close>

fun binds :: "effect \<Rightarrow> effect \<Rightarrow> bool" where
  "binds (Signed_vote b _) (Signed_timeout t) \<longleftrightarrow> qc_round (block_qc b) \<le> qc_round (timeout_high_qc t)"
| "binds _ _ \<longleftrightarrow> True"

definition log_inv :: "'k dalek \<Rightarrow> committee \<Rightarrow> signed \<Rightarrow> u64 \<Rightarrow> effect list \<Rightarrow> bool" where
  "log_inv D c sg h es \<longleftrightarrow> (\<forall>e\<in>set es. effect_ok D c sg h e) \<and> sorted_wrt binds es"

text \<open>The blocks in the store.\<close>

definition blocks_inv :: "('k, 'db) env \<Rightarrow> signed \<Rightarrow> u64 \<Rightarrow> 'db store \<Rightarrow> bool" where
  "blocks_inv E sg h st \<longleftrightarrow> (\<forall>k v b. store_read (rocksdb E) k st = Inr (Some v) \<longrightarrow> de_block E v = Ok b \<longrightarrow>
     k = digest_bytes (block_digest (dalek E) b) \<and> block_attested (my_committee E) sg b
     \<and> qc_round (block_qc b) \<le> h)"

definition core_inv :: "('k, 'db) env \<Rightarrow> signed \<Rightarrow> 'db core \<Rightarrow> bool" where
  "core_inv E sg s \<longleftrightarrow> agg_inv (dalek E) (my_committee E) sg (my_aggregator s)
     \<and> qc_attested (my_committee E) sg (high_qc s)
     \<and> qc_round (high_qc s) < cur_round s
     \<and> log_inv (dalek E) (my_committee E) sg (qc_round (high_qc s)) (out s)
     \<and> blocks_inv E sg (qc_round (high_qc s)) (my_store s)"

text \<open>
  What the invariant assumes: a well-formed committee, a database without errors, \<open>bincode\<close> reading back
  the blocks it writes, digests of 32 bytes, and no collision among the messages signed.
\<close>

definition bincode_ok :: "('k, 'db) env \<Rightarrow> bool" where
  "bincode_ok E \<longleftrightarrow> (\<forall>b v. ser_block E b = Some v \<longrightarrow> de_block E v = Ok b)"

definition sha512_ok :: "'k dalek \<Rightarrow> bool" where
  "sha512_ok D \<longleftrightarrow> (\<forall>m. length (sha512 D m) = 64)"

definition trusted :: "('k, 'db) env \<Rightarrow> signed \<Rightarrow> bool" where
  "trusted E sg \<longleftrightarrow> committee_ok (my_committee E) \<and> rocksdb_ok (rocksdb E) \<and> bincode_ok E
     \<and> sha512_ok (dalek E) \<and> collision_free (dalek E) sg"

text \<open>The log of the core stays within \<open>sg\<close>.\<close>

definition logged_within :: "('k, 'db) env \<Rightarrow> signed \<Rightarrow> ('db, 'z) world_scheme \<Rightarrow> bool" where
  "logged_within E sg s \<longleftrightarrow> (\<forall>b v. Signed_vote b v \<in> set (out s) \<longrightarrow> signed_vote sg v)
     \<and> (\<forall>t. Signed_timeout t \<in> set (out s) \<longrightarrow> signed_timeout sg t)"

interpretation wi: guarded log_grows "logged_within E sg" for E sg
  by unfold_locales (auto simp: log_grows_def logged_within_def)

lemma effect_ok_mono: "effect_ok D c sg h e \<Longrightarrow> h \<le> h' \<Longrightarrow> effect_ok D c sg h' e"
  by (cases "(D, c, sg, h, e)" rule: effect_ok.cases) auto

lemma log_inv_mono: "log_inv D c sg h es \<Longrightarrow> h \<le> h' \<Longrightarrow> log_inv D c sg h' es"
  by (auto simp: log_inv_def intro: effect_ok_mono)

lemma blocks_inv_mono: "blocks_inv E sg h st \<Longrightarrow> h \<le> h' \<Longrightarrow> blocks_inv E sg h' st"
  by (fastforce simp: blocks_inv_def)

lemma log_inv_append:
  assumes "log_inv D c sg h es" and "\<forall>e\<in>set es'. effect_ok D c sg h e"
    and "\<forall>t. Signed_timeout t \<in> set es' \<longrightarrow> h \<le> qc_round (timeout_high_qc t)"
  shows "log_inv D c sg h (es @ es')"
proof -
  have binds: "binds x e" if "effect_ok D c sg h x" "e \<in> set es'" for x e
    using that assms(3) by (cases "(x, e)" rule: binds.cases) force+
  then have "sorted_wrt binds es'"
    using assms(2) by (auto simp: sorted_wrt_iff_nth_less)
  with assms binds show ?thesis by (auto simp: log_inv_def sorted_wrt_append)
qed

section \<open>Every procedure keeps the invariant\<close>

abbreviation safely where
  "safely E sg I m J Q \<equiv> leads (logged_within E sg) UNIV I m J Q"

definition inv_at :: "('k, 'db) env \<Rightarrow> signed \<Rightarrow> u64 \<Rightarrow> 'db core \<Rightarrow> bool" where
  "inv_at E sg h s \<longleftrightarrow> core_inv E sg s \<and> qc_round (high_qc s) = h"

definition proper :: "('k, 'db) env \<Rightarrow> signed \<Rightarrow> u64 \<Rightarrow> block \<Rightarrow> bool" where
  "proper E sg h b \<longleftrightarrow> block_attested (my_committee E) sg b \<and> qc_round (block_qc b) \<le> h"

definition good :: "('k, 'db) env \<Rightarrow> signed \<Rightarrow> u64 \<Rightarrow> block \<Rightarrow> bool" where
  "good E sg h b \<longleftrightarrow> b = block_genesis \<or> proper E sg h b"

lemma good_genesis [simp]: "good E sg h block_genesis"
  by (simp add: good_def)

lemma proper_good: "proper E sg h b \<Longrightarrow> good E sg h b"
  by (simp add: good_def)

lemma good_proper: "good E sg h b \<Longrightarrow> \<not> qc_eq (block_qc b) qc_genesis \<Longrightarrow> proper E sg h b"
  by (auto simp: good_def block_genesis_def qc_eq_def)

text \<open>A procedure that leaves the highest QC where it is.\<close>

lemma safely_at: "(\<And>h. safely E sg (inv_at E sg h) m (inv_at E sg h) Q) \<Longrightarrow> safely E sg (core_inv E sg) m (core_inv E sg) Q"
  by (fastforce simp: leads_def inv_at_def)

named_theorems safe_rules "procedures that keep the invariant"

lemma safe_modify:
  assumes "\<And>s. inv_at E sg h s \<Longrightarrow> inv_at E sg h (f s)"
  shows "safely E sg (inv_at E sg h) (modify f) (inv_at E sg h) (\<lambda>_. True)"
  using assms by (intro yields_modify)

lemma safe_timer [safe_rules]:
  "safely E sg (inv_at E sg h) (modify (\<lambda>s. s\<lparr>my_timer := f s\<rparr>)) (inv_at E sg h) (\<lambda>_. True)"
  "safely E sg (inv_at E sg h) (modify (\<lambda>s. s\<lparr>last_committed_round := r\<rparr>)) (inv_at E sg h) (\<lambda>_. True)"
  "safely E sg (inv_at E sg h) (increase_last_voted_round r) (inv_at E sg h) (\<lambda>_. True)"
  unfolding increase_last_voted_round_def
  by (rule safe_modify, force simp: inv_at_def core_inv_def)+

lemma safe_emit:
  assumes "\<forall>e\<in>set es. effect_ok (dalek E) (my_committee E) sg h e" and "\<forall>t. Signed_timeout t \<notin> set es"
  shows "safely E sg (inv_at E sg h) (emit es) (inv_at E sg h) (\<lambda>_. True)"
  unfolding emit_def
  by (rule safe_modify) (use assms in \<open>auto simp: inv_at_def core_inv_def intro!: log_inv_append\<close>)

lemma safe_net [safe_rules]:
  "safely E sg (inv_at E sg h) (net_send a m) (inv_at E sg h) (\<lambda>_. True)"
  "safely E sg (inv_at E sg h) (net_broadcast as m) (inv_at E sg h) (\<lambda>_. True)"
  unfolding net_send_def net_broadcast_def by (rule safe_emit; auto)+

lemma safe_expect [safe_rules]:
  "safely E sg I (expect msg x) I (\<lambda>a. x = Some a)"
  by (cases x) (auto simp: expect_def intro: yields_pure)

lemma safe_deserialize [safe_rules]:
  "safely E sg I (deserialize e x) I (\<lambda>a. x = Ok a)"
  by (cases x) (simp_all add: deserialize_def yields_pure, simp add: leads_def)

lemma safe_read_store:
  "safely E sg (inv_at E sg h) (read_store E k) (inv_at E sg h)
     (\<lambda>r. \<forall>v b. r = Some v \<longrightarrow> de_block E v = Ok b \<longrightarrow>
        k = digest_bytes (block_digest (dalek E) b) \<and> proper E sg h b)"
  unfolding read_store_def
  by (rule yields_bnd_pure(1), rule yields_pure(5))
    (auto simp: inv_at_def core_inv_def blocks_inv_def proper_def)

lemma safe_get_parent_block:
  assumes "good E sg h b"
  shows "safely E sg (inv_at E sg h) (get_parent_block E b) (inv_at E sg h)
    (\<lambda>r. \<forall>p. r = Some p \<longrightarrow> good E sg h p \<and> parent_of (dalek E) (my_committee E) sg b p)"
  unfolding get_parent_block_def
proof (rule yields_if)
  show "qc_eq (block_qc b) qc_genesis \<Longrightarrow> safely E sg (inv_at E sg h) (ret (Some block_genesis)) (inv_at E sg h)
    (\<lambda>r. \<forall>p. r = Some p \<longrightarrow> good E sg h p \<and> parent_of (dalek E) (my_committee E) sg b p)"
    by (rule yields_pure) (simp add: parent_of_def)
next
  assume q: "\<not> qc_eq (block_qc b) qc_genesis"
  show "safely E sg (inv_at E sg h) (bnd (read_store E (digest_bytes (parent b)))
      (\<lambda>r. case r of Some bytes \<Rightarrow> bnd (deserialize SerializationError (de_block E bytes)) (\<lambda>p. ret (Some p))
         | None \<Rightarrow> sq (emit [To_synchronizer b]) (ret None))) (inv_at E sg h)
    (\<lambda>r. \<forall>p. r = Some p \<longrightarrow> good E sg h p \<and> parent_of (dalek E) (my_committee E) sg b p)"
    using assms q
    by (auto intro!: wi.yields_bnd [OF safe_read_store] wi.yields_bnd [OF safe_deserialize] wi.yields_sq
        yields_option yields_pure lg.keeps_rules log_keeps safe_emit proper_good
        simp: parent_of_def good_proper [OF assms, unfolded proper_def] digest.expand proper_def)
qed

lemma safe_get_ancestors:
  assumes "proper E sg h b"
  shows "safely E sg (inv_at E sg h) (get_ancestors E b) (inv_at E sg h)
    (\<lambda>r. \<forall>b0 b1. r = Some (b0, b1) \<longrightarrow> good E sg h b0 \<and> good E sg h b1
       \<and> parent_of (dalek E) (my_committee E) sg b b1 \<and> parent_of (dalek E) (my_committee E) sg b1 b0)"
  unfolding get_ancestors_def
  by (rule wi.yields_bnd [OF safe_get_parent_block [OF proper_good [OF assms]]])
    (auto intro!: yields_option wi.yields_bnd [OF safe_get_parent_block] wi.yields_bnd [OF safe_expect]
      yields_pure lg.keeps_rules log_keeps)

lemma safe_missing_payload:
  "safely E sg (inv_at E sg h) (missing_payload E xs) (inv_at E sg h) (\<lambda>_. True)"
  by (induction xs)
    (auto intro!: yields_pure wi.yields_bnd [OF safe_read_store] wi.yields_bnd lg.keeps_rules log_keeps)

lemma safe_mempool_verify:
  "proper E sg h b \<Longrightarrow> safely E sg (inv_at E sg h) (mempool_verify E b) (inv_at E sg h) (\<lambda>_. True)"
  unfolding mempool_verify_def
  by (auto intro!: wi.yields_bnd [OF safe_missing_payload] yields_if yields_pure wi.yields_sq safe_emit
      lg.keeps_rules log_keeps simp: proper_def)

lemma safe_mempool_cleanup [safe_rules]:
  "safely E sg (inv_at E sg h) (mempool_cleanup r) (inv_at E sg h) (\<lambda>_. True)"
  unfolding mempool_cleanup_def by (rule safe_emit) auto

lemma safe_cleanup_proposer [safe_rules]:
  "safely E sg (inv_at E sg h) (cleanup_proposer b0 b1 b) (inv_at E sg h) (\<lambda>_. True)"
  unfolding cleanup_proposer_def by (rule safe_emit) auto

text \<open>A write of a block under its digest, or of something that is no block.\<close>

lemma safe_write_store:
  assumes "trusted E sg"
    and "\<And>b. de_block E v = Ok b \<Longrightarrow> k = digest_bytes (block_digest (dalek E) b) \<and> proper E sg h b"
  shows "safely E sg (inv_at E sg h) (write_store E k v) (inv_at E sg h) (\<lambda>_. True)"
proof -
  have R: "rocksdb_ok (rocksdb E)" using assms(1) by (simp add: trusted_def)
  have "blocks_inv E sg h (store_write (rocksdb E) k v st)" if "blocks_inv E sg h st" for st
    using that assms(2) by (auto simp: blocks_inv_def st.read_write_if [OF R] proper_def split: if_splits)
  then show ?thesis
    unfolding write_store_def
    by (intro safe_modify) (auto simp: inv_at_def core_inv_def intro!: log_inv_append)
qed

lemma safe_store_block:
  assumes "trusted E sg" and "proper E sg h b"
  shows "safely E sg (inv_at E sg h) (store_block E b) (inv_at E sg h) (\<lambda>_. True)"
proof -
  have "safely E sg (inv_at E sg h) (write_store E (digest_bytes (block_digest (dalek E) b)) v) (inv_at E sg h) (\<lambda>_. True)"
    if "ser_block E b = Some v" for v
    using assms that by (intro safe_write_store) (auto simp: trusted_def bincode_ok_def)
  then show ?thesis
    unfolding store_block_def
    by (auto intro!: wi.yields_bnd [OF safe_expect] lg.keeps_rules log_keeps)
qed

lemma safe_walk_ancestors:
  assumes "good E sg h b0"
  shows "safely E sg (inv_at E sg h) (walk_ancestors E lc b0) (inv_at E sg h)
    (\<lambda>as. ancestry (parent_of (dalek E) (my_committee E) sg) b0 (rev as))"
proof (rule leadsI)
  fix s r t
  assume run: "walk_ancestors E lc b0 s = (r, t)" and B: "logged_within E sg t" and I: "inv_at E sg h s"
  show "inv_at E sg h t \<and> (\<forall>as. r = Ok as \<longrightarrow> ancestry (parent_of (dalek E) (my_committee E) sg) b0 (rev as))
      \<and> (\<forall>p. r = Panic p \<longrightarrow> p \<in> UNIV)"
  proof (cases "collect_ancestors E lc b0 [] s")
    case None
    then show ?thesis using run I by (simp add: walk_ancestors_def)
  next
    case (Some rt)
    then have rt: "rt = (r, t)" using run by (simp add: walk_ancestors_def)
    show ?thesis
      using collect_ancestors_yields [OF Some, where G = "good E sg h" and B = "logged_within E sg" and P = UNIV
          and I = "inv_at E sg h" and D = "parent_of (dalek E) (my_committee E) sg" and b = b0, OF safe_get_parent_block]
        wi.guard_back I B assms by (auto simp: rt)
  qed
qed

lemma safe_commit:
  assumes "good E sg h b0" and "two_chain (dalek E) (my_committee E) sg b0"
  shows "safely E sg (inv_at E sg h) (commit E b0) (inv_at E sg h) (\<lambda>_. True)"
proof -
  have "safely E sg (inv_at E sg h) (emit (map To_commit (rev (b0 # as)))) (inv_at E sg h) (\<lambda>_. True)"
    if "ancestry (parent_of (dalek E) (my_committee E) sg) b0 (rev as)" for as
    using that assms(2) by (intro safe_emit) (auto simp: committable_def intro!: exI [of _ b0])
  then show ?thesis
    unfolding commit_def Let_def
    by (auto intro!: yields_bnd_pure(1) yields_if yields_pure wi.yields_bnd [OF safe_walk_ancestors [OF assms(1)]]
        wi.yields_sq safe_rules lg.keeps_rules log_keeps)
qed

lemma unat_next_round:
  fixes r :: u64
  assumes "r < - 1"
  shows "unat (r + 1) = unat r + 1"
proof -
  have "unat r < unat (- 1 :: u64)" using assms by (simp add: word_less_nat_alt)
  also have "unat (- 1 :: u64) = 2 ^ 64 - 1" by (simp add: unsigned_minus_1_eq_mask mask_eq_exp_minus_1)
  finally show ?thesis by (intro trans [OF unat_add_no_overflow]) simp_all
qed

lemma below_next_round: "(r :: u64) < - 1 \<Longrightarrow> h \<le> r \<Longrightarrow> h < r + 1"
  by (simp add: word_less_nat_alt word_le_nat_alt unat_next_round)

lemma leads_modify: "(\<And>s. I s \<Longrightarrow> J (f s)) \<Longrightarrow> leads B P I (modify f) J (\<lambda>_. True)"
  by (rule leadsI) (auto simp: modify_def)

lemma advance_round_inv:
  assumes "r < - 1"
  shows "safely E sg (inv_at E sg h) (advance_round now r) (\<lambda>s. inv_at E sg h s \<and> r < cur_round s) (\<lambda>_. True)"
proof -
  have "inv_at E sg h (s\<lparr>my_timer := f, cur_round := r + 1, my_aggregator := cleanup (r + 1) (my_aggregator s)\<rparr>)"
    if "inv_at E sg h s" "\<not> r < cur_round s" for s f
  proof -
    have "h < r + 1" using that by (intro below_next_round [OF assms]) (auto simp: inv_at_def core_inv_def)
    then show ?thesis using that by (auto simp: inv_at_def core_inv_def agg_inv_cleanup)
  qed
  then show ?thesis
    unfolding advance_round_def
    by (intro leads_gets yields_if leads_pure leads_modify) (auto simp: below_next_round [OF assms order.refl])
qed

lemma safe_advance_round:
  "r < - 1 \<Longrightarrow> safely E sg (inv_at E sg h) (advance_round now r) (inv_at E sg h) (\<lambda>_. True)"
  by (rule leads_mono [OF advance_round_inv]) auto

text \<open>\<open>process_qc\<close> is the one procedure that raises the highest QC.\<close>

definition inv_from :: "('k, 'db) env \<Rightarrow> signed \<Rightarrow> u64 \<Rightarrow> 'db core \<Rightarrow> bool" where
  "inv_from E sg h s \<longleftrightarrow> core_inv E sg s \<and> h \<le> qc_round (high_qc s)"

lemma inv_from_0: "inv_from E sg 0 = core_inv E sg"
  by (rule ext) (simp add: inv_from_def)

lemma safely_from: "(\<And>h. k \<le> h \<Longrightarrow> safely E sg (inv_at E sg h) m (inv_at E sg h) Q) \<Longrightarrow> safely E sg (inv_from E sg k) m (inv_from E sg k) Q"
  by (fastforce simp: leads_def inv_at_def inv_from_def)

lemma update_high_qc_inv:
  assumes "core_inv E sg s" and "qc_attested (my_committee E) sg q" and "qc_round q < cur_round s"
    and "qc_round (high_qc s) < qc_round q"
  shows "core_inv E sg (s\<lparr>high_qc := q\<rparr>)"
  using assms by (auto simp: core_inv_def intro: log_inv_mono blocks_inv_mono)

lemma safe_update_high_qc:
  assumes "qc_attested (my_committee E) sg q"
  shows "safely E sg (\<lambda>s. inv_at E sg h s \<and> qc_round q < cur_round s) (update_high_qc q)
    (inv_from E sg (max h (qc_round q))) (\<lambda>_. True)"
  unfolding update_high_qc_def
  by (rule leads_modify) (auto simp: inv_at_def inv_from_def intro: update_high_qc_inv [OF _ assms])

lemma safe_process_qc:
  assumes "trusted E sg" and q: "qc_attested (my_committee E) sg q"
  shows "safely E sg (inv_from E sg k) (process_qc now q) (inv_from E sg (max k (qc_round q))) (\<lambda>_. True)"
proof -
  have last: "qc_round q < - 1" by (rule qc_attested_round [OF q])
  have total: "fst (advance_round now r s) = Ok ()" "fst (modify f s) = Ok ()" for r f and s :: "'db core"
    by (simp_all add: advance_round_def bnd_gets ret_def modify_def)
  have "safely E sg (inv_at E sg h) (process_qc now q) (inv_from E sg (max h (qc_round q))) (\<lambda>_. True)" for h
    unfolding process_qc_def
    by (rule wi.leads_sq_total [OF safe_timer(1)], rule wi.leads_sq_total [OF advance_round_inv [OF last]],
        rule safe_update_high_qc [OF q]) (auto intro!: lg.keeps_rules log_keeps simp: total)
  then show ?thesis
    by (fastforce simp: leads_def inv_at_def inv_from_def)
qed

lemma process_qc_from:
  assumes "trusted E sg" and "qc_attested (my_committee E) sg q"
  shows "safely E sg (inv_from E sg k) (process_qc now q) (inv_from E sg k) (\<lambda>_. True)"
  by (rule leads_mono [OF safe_process_qc [OF assms]]) (auto simp: inv_from_def)

lemma safe_leader [safe_rules]: "safely E sg I (leader E' r) I (\<lambda>_. True)"
  unfolding leader_def by (rule yields_any [OF safe_expect])

lemma safe_propose_if_leader:
  assumes "\<And>t'. t = Some t' \<Longrightarrow> tc_attested (my_committee E) sg t'"
  shows "safely E sg (inv_at E sg h) (propose_if_leader E t) (inv_at E sg h) (\<lambda>_. True)"
proof -
  have "safely E sg (inv_at E sg h) (generate_proposal t) (inv_at E sg h) (\<lambda>_. True)"
    unfolding generate_proposal_def
    by (rule yields_bnd_pure(1), rule safe_emit) (use assms in \<open>auto simp: inv_at_def core_inv_def\<close>)
  then show ?thesis
    unfolding propose_if_leader_def
    by (auto intro!: yields_bnd_pure(1) wi.yields_bnd [OF safe_leader] yields_if yields_pure
        lg.keeps_rules log_keeps)
qed

lemma safe_broadcast_message [safe_rules]:
  "safely E sg (inv_at E sg h) (broadcast_message E p m) (inv_at E sg h) (\<lambda>_. True)"
  unfolding broadcast_message_def Let_def
  by (auto intro!: wi.yields_bnd [OF safe_expect] safe_rules log_keeps)

lemma safe_add_vote:
  assumes "trusted E sg" and "vote_verify (dalek E) (my_committee E) v = Inr ()"
    and "signed_vote sg v"
  shows "safely E sg (inv_at E sg h) (zoom my_aggregator (\<lambda>a s. s\<lparr>my_aggregator := a\<rparr>) (add_vote (dalek E) v))
    (inv_at E sg h) (\<lambda>r. \<forall>q. r = Some q \<longrightarrow> qc_attested (my_committee E) sg q)"
proof (rule leadsI)
  fix s r t
  assume run: "zoom my_aggregator (\<lambda>a s. s\<lparr>my_aggregator := a\<rparr>) (add_vote (dalek E) v) s = (r, t)"
    and I: "inv_at E sg h s"
  obtain a' where add: "add_vote (dalek E) v (my_aggregator s) = (r, a')" and t: "t = s\<lparr>my_aggregator := a'\<rparr>"
    using run by (auto simp: zoom_def split: prod.splits)
  have "committee_ok (my_committee E)" "collision_free (dalek E) sg"
    "agg_inv (dalek E) (my_committee E) sg (my_aggregator s)"
    using assms(1) I by (simp_all add: trusted_def inv_at_def core_inv_def)
  note * = agg_inv_vote [OF this assms(2,3) add]
  show "inv_at E sg h t \<and> (\<forall>a. r = Ok a \<longrightarrow> (\<forall>q. a = Some q \<longrightarrow> qc_attested (my_committee E) sg q))
      \<and> (\<forall>p. r = Panic p \<longrightarrow> p \<in> UNIV)"
    using I * by (auto simp: t inv_at_def core_inv_def)
qed

lemma safe_add_timeout:
  assumes "trusted E sg" and "timeout_verify (dalek E) (my_committee E) m = Inr ()"
    and "signed_timeout sg m"
  shows "safely E sg (inv_at E sg h) (zoom my_aggregator (\<lambda>a s. s\<lparr>my_aggregator := a\<rparr>) (add_timeout m))
    (inv_at E sg h) (\<lambda>r. \<forall>q. r = Some q \<longrightarrow> tc_attested (my_committee E) sg q)"
proof (rule leadsI)
  fix s r t
  assume run: "zoom my_aggregator (\<lambda>a s. s\<lparr>my_aggregator := a\<rparr>) (add_timeout m) s = (r, t)"
    and I: "inv_at E sg h s"
  obtain a' where add: "add_timeout m (my_aggregator s) = (r, a')" and t: "t = s\<lparr>my_aggregator := a'\<rparr>"
    using run by (auto simp: zoom_def split: prod.splits)
  have "committee_ok (my_committee E)" "agg_inv (dalek E) (my_committee E) sg (my_aggregator s)"
    using assms(1) I by (simp_all add: trusted_def inv_at_def core_inv_def)
  note * = agg_inv_timeout [OF this assms(2,3) add]
  show "inv_at E sg h t \<and> (\<forall>a. r = Ok a \<longrightarrow> (\<forall>q. a = Some q \<longrightarrow> tc_attested (my_committee E) sg q))
      \<and> (\<forall>p. r = Panic p \<longrightarrow> p \<in> UNIV)"
    using I * by (auto simp: t inv_at_def core_inv_def)
qed

lemma tc_last: "tc_attested c sg t \<Longrightarrow> tc_round t < - 1"
  by (simp add: tc_attested_def)

lemma safe_handle_vote:
  assumes "trusted E sg"
    and "vote_verify (dalek E) (my_committee E) v = Inr () \<Longrightarrow> signed_vote sg v"
  shows "safely E sg (inv_from E sg k) (handle_vote E now v) (inv_from E sg k) (\<lambda>_. True)"
  unfolding handle_vote_def
  by (auto intro!: yields_bnd_pure yields_if yields_pure yields_option
      wi.yields_bnd [OF safely_from [OF safe_add_vote]] wi.yields_sq process_qc_from
      safely_from [OF safe_propose_if_leader] assms lg.keeps_rules log_keeps)

lemma safe_handle_timeout:
  assumes "trusted E sg" and "timeout_verify (dalek E) (my_committee E) m = Inr () \<Longrightarrow>
      signed_timeout sg m
      \<and> qc_attested (my_committee E) sg (timeout_high_qc m)"
  shows "safely E sg (inv_from E sg k) (handle_timeout E now m) (inv_from E sg k) (\<lambda>_. True)"
  unfolding handle_timeout_def
  by (auto intro!: yields_bnd_pure yields_if yields_pure yields_option wi.yields_sq process_qc_from
      wi.yields_bnd [OF safely_from [OF safe_add_timeout]] safely_from [OF safe_advance_round]
      safely_from [OF safe_broadcast_message] safely_from [OF safe_propose_if_leader]
      assms(1) lg.keeps_rules log_keeps tc_last dest: assms(2))

lemma safe_handle_tc:
  assumes "trusted E sg" and "genuine_tc (dalek E) (my_committee E) sg t"
  shows "safely E sg (inv_from E sg k) (handle_tc E now t) (inv_from E sg k) (\<lambda>_. True)"
proof -
  have att: "tc_verify (dalek E) (my_committee E) t = Inr () \<Longrightarrow> tc_attested (my_committee E) sg t"
    using assms by (intro attested_of_verify) (auto simp: trusted_def)
  show ?thesis
    unfolding handle_tc_def
    by (auto intro!: yields_bnd_pure yields_if yields_pure wi.yields_sq safely_from [OF safe_advance_round]
        safely_from [OF safe_propose_if_leader] lg.keeps_rules log_keeps tc_last att)
qed

lemma max_round_ge: "max_round rs = Some m \<Longrightarrow> r \<in> set rs \<Longrightarrow> r \<le> m"
proof (cases rs)
  case (Cons x xs)
  have "y \<le> fold max ys y \<and> (\<forall>z\<in>set ys. z \<le> fold max ys y)" for y :: u64 and ys
    by (induction ys arbitrary: y) (auto intro: order_trans [OF max.cobounded2] order_trans [OF max.cobounded1])
  then show "max_round rs = Some m \<Longrightarrow> r \<in> set rs \<Longrightarrow> r \<le> m"
    using Cons by auto
qed simp

lemma votable_of_rules:
  assumes "proper E sg h b" and "h < block_round b" and "safety_rule_2 b s = (Ok True, s)"
  shows "votable (my_committee E) sg b"
  using assms
  by (auto simp: votable_def proper_def safety_rule_2_run split: option.splits dest: max_round_ge intro: order_trans)

lemma safe_make_vote:
  assumes "proper E sg h b"
  shows "safely E sg (\<lambda>s. inv_at E sg h s \<and> cur_round s = block_round b) (make_vote E b) (inv_at E sg h)
    (\<lambda>r. \<forall>v. r = Some v \<longrightarrow> vote_author v = my_name E \<and> signed_vote sg v)"
proof (rule leadsI)
  fix s r t
  assume run: "make_vote E b s = (r, t)" and B: "logged_within E sg t"
    and I: "inv_at E sg h s \<and> cur_round s = block_round b"
  from run show "inv_at E sg h t \<and> (\<forall>a. r = Ok a \<longrightarrow>
      (\<forall>v. a = Some v \<longrightarrow> vote_author v = my_name E \<and> signed_vote sg v))
    \<and> (\<forall>p. r = Panic p \<longrightarrow> p \<in> UNIV)"
  proof (cases rule: make_vote_cases)
    case (voted v)
    have "votable (my_committee E) sg b"
      using voted(5) I by (intro votable_of_rules [OF assms]) (auto simp: inv_at_def core_inv_def)
    then have "\<forall>e\<in>set [Signed_vote b v]. effect_ok (dalek E) (my_committee E) sg h e"
      using assms by (simp add: proper_def)
    then have "log_inv (dalek E) (my_committee E) sg h (out s @ [Signed_vote b v])"
      using I by (intro log_inv_append) (auto simp: inv_at_def core_inv_def)
    then have "inv_at E sg h t" using I by (auto simp: voted(3) inv_at_def core_inv_def)
    moreover have "signed_vote sg v"
      using B by (simp add: voted(3) logged_within_def)
    ultimately show ?thesis using voted(1) vote_new_fields [OF voted(2)] by simp
  qed (use I in \<open>auto simp: inv_at_def core_inv_def\<close>)
qed

lemma safe_send_vote:
  assumes "trusted E sg" and "signed_vote sg v"
  shows "safely E sg (inv_from E sg k) (send_vote E now v) (inv_from E sg k) (\<lambda>_. True)"
  unfolding send_vote_def
  by (auto intro!: yields_bnd_pure wi.yields_bnd [OF safe_leader] yields_if wi.yields_bnd [OF safe_expect]
      safely_from [OF safe_net(1)] safe_handle_vote [OF assms(1)] assms lg.keeps_rules log_keeps)

lemma leads_from:
  "(\<And>h. k \<le> h \<Longrightarrow> safely E sg (inv_at E sg h) m (inv_from E sg k) Q) \<Longrightarrow>
   safely E sg (inv_from E sg k) m (inv_from E sg k) Q"
  by (fastforce simp: leads_def inv_at_def inv_from_def)

lemma at_from: "k \<le> h \<Longrightarrow> inv_at E sg h s \<Longrightarrow> inv_from E sg k s"
  by (simp add: inv_at_def inv_from_def)

lemma safe_vote_for_block:
  assumes E: "trusted E sg" and proper: "proper E sg h b" and h: "k \<le> h"
  shows "safely E sg (inv_at E sg h) (vote_for_block E now b) (inv_from E sg k) (\<lambda>_. True)"
  unfolding vote_for_block_def
proof (rule leads_gets, rule yields_if)
  fix a assume "\<not> a"
  then have "safely E sg (\<lambda>s. inv_at E sg h s \<and> (block_round b \<noteq> cur_round s) = a) (make_vote E b) (inv_at E sg h)
    (\<lambda>r. \<forall>v. r = Some v \<longrightarrow> vote_author v = my_name E \<and> signed_vote sg v)"
    by (intro leads_mono [OF safe_make_vote [OF proper]]) auto
  then show "safely E sg (\<lambda>s. inv_at E sg h s \<and> (block_round b \<noteq> cur_round s) = a)
      (bnd (make_vote E b) (\<lambda>r. case r of None \<Rightarrow> ret () | Some v \<Rightarrow> send_vote E now v))
      (inv_from E sg k) (\<lambda>_. True)"
    by (rule wi.leads_bnd)
      (auto intro!: yields_option leads_pure lg.keeps_rules log_keeps at_from [OF h]
        leads_mono [OF safe_send_vote [OF E, where k = k]])
qed (use h in \<open>auto intro!: leads_pure at_from\<close>)

lemma safe_commit_two_chain:
  assumes "proper E sg h b" and "good E sg h b0" and "good E sg h b1"
    and "parent_of (dalek E) (my_committee E) sg b b1" and "parent_of (dalek E) (my_committee E) sg b1 b0"
  shows "safely E sg (inv_at E sg h) (commit_two_chain E b0 b1) (inv_at E sg h) (\<lambda>_. True)"
  unfolding commit_two_chain_def
proof (rule yields_if)
  assume "block_round b0 + 1 = block_round b1"
  with assms have "two_chain (dalek E) (my_committee E) sg b0"
    unfolding two_chain_def proper_def by blast
  then show "safely E sg (inv_at E sg h) (sq (mempool_cleanup (block_round b0)) (commit E b0)) (inv_at E sg h) (\<lambda>_. True)"
    by (intro wi.yields_sq safe_mempool_cleanup safe_commit assms log_keeps)
qed (rule yields_pure, simp)

lemma safe_process_block:
  assumes E: "trusted E sg" and b: "block_attested (my_committee E) sg b"
    and k: "qc_round (block_qc b) \<le> k"
  shows "safely E sg (inv_from E sg k) (process_block E now b) (inv_from E sg k) (\<lambda>_. True)"
proof (rule leads_from)
  fix h assume h: "k \<le> h"
  have proper: "proper E sg h b" using b k h by (simp add: proper_def)
  show "safely E sg (inv_at E sg h) (process_block E now b) (inv_from E sg k) (\<lambda>_. True)"
    unfolding process_block_def
    by (rule wi.leads_bnd [OF safe_get_ancestors [OF proper]])
      (auto intro!: yields_option leads_pure wi.leads_sq [OF safe_store_block [OF E proper]]
        wi.leads_sq [OF safe_cleanup_proposer] wi.leads_sq [OF safe_commit_two_chain [OF proper]]
        safe_vote_for_block [OF E proper h] lg.keeps_rules log_keeps at_from [OF h])
qed

lemma safe_handle_proposal:
  assumes E: "trusted E sg" and b: "genuine_message (dalek E) (my_committee E) sg (Propose b)"
  shows "safely E sg (inv_from E sg 0) (handle_proposal E now b) (inv_from E sg 0) (\<lambda>_. True)"
proof -
  have att: "block_attested (my_committee E) sg b"
    if "block_verify (dalek E) (my_committee E) b = Inr ()"
    using that E b by (intro block_attested_of_verify) (auto simp: trusted_def)
  have rest: "safely E sg (inv_from E sg (max 0 (qc_round (block_qc b))))
      (sq (case block_tc b of None \<Rightarrow> ret () | Some t \<Rightarrow> advance_round now (tc_round t))
      (bnd (mempool_verify E b) (\<lambda>available. if \<not> available then ret () else process_block E now b)))
      (inv_from E sg 0) (\<lambda>_. True)"
    if b: "block_attested (my_committee E) sg b"
  proof (rule leads_mono [where J = "inv_from E sg (max 0 (qc_round (block_qc b)))"])
    have "safely E sg (inv_from E sg (max 0 (qc_round (block_qc b)))) (mempool_verify E b)
        (inv_from E sg (max 0 (qc_round (block_qc b)))) (\<lambda>_. True)"
      using b by (intro safely_from safe_mempool_verify) (simp add: proper_def)
    then show "safely E sg (inv_from E sg (max 0 (qc_round (block_qc b))))
      (sq (case block_tc b of None \<Rightarrow> ret () | Some t \<Rightarrow> advance_round now (tc_round t))
      (bnd (mempool_verify E b) (\<lambda>available. if \<not> available then ret () else process_block E now b)))
      (inv_from E sg (max 0 (qc_round (block_qc b)))) (\<lambda>_. True)"
      using b
      by (auto intro!: wi.yields_sq yields_option yields_pure wi.yields_bnd yields_if
          safely_from [OF safe_advance_round] safe_process_block [OF E b]
          tc_last [OF block_attested_parts(2) [OF b]] lg.keeps_rules log_keeps)
  qed (auto simp: inv_from_def)
  show ?thesis
    unfolding handle_proposal_def Let_def
    by (auto intro!: wi.yields_bnd [OF safe_leader] yields_bnd_pure wi.leads_sq [OF safe_process_qc [OF E]] rest
        lg.keeps_rules log_keeps att block_attested_parts(1) [OF att] simp: inv_from_def)
qed

lemma safe_local_timeout_round:
  assumes E: "trusted E sg"
  shows "safely E sg (core_inv E sg) (local_timeout_round E now) (core_inv E sg) (\<lambda>_. True)"
proof (rule leadsI)
  fix s r t
  assume run: "local_timeout_round E now s = (r, t)" and B: "logged_within E sg t" and I: "core_inv E sg s"
  let ?s = "s\<lparr>last_voted_round := max (last_voted_round s) (cur_round s)\<rparr>"
  have "core_inv E sg t"
  proof (cases "timeout_new (dalek E) (high_qc s) (cur_round s) (my_name E) (my_secret E)")
    case None
    with run I show ?thesis by (auto simp: local_timeout_run Let_def core_inv_def)
  next
    case (Some m)
    let ?s' = "?s\<lparr>out := out s @ [Signed_timeout m]\<rparr>"
    note m = timeout_new_fields [OF Some]
    have after: "after_timeout E now m ?s' = (r, t)"
      using run Some by (simp add: local_timeout_run Let_def)
    have keep: "keeps log_grows (after_timeout E now m)"
      by (auto simp: after_timeout_def intro!: lg.keeps_rules log_keeps)
    have "logged_within E sg ?s'"
      by (rule wi.guard_back [OF keepsD [OF keep after] B])
    then have "signed_timeout sg m" by (simp add: logged_within_def m)
    then have "safely E sg (inv_from E sg 0) (after_timeout E now m) (inv_from E sg 0) (\<lambda>_. True)"
      if "qc_attested (my_committee E) sg (high_qc s)"
      unfolding after_timeout_def using that
      by (auto intro!: wi.yields_sq safely_from [OF safe_timer(1)] safely_from [OF safe_broadcast_message]
          safe_handle_timeout [OF E] lg.keeps_rules log_keeps simp: m)
    moreover have "log_inv (dalek E) (my_committee E) sg (qc_round (high_qc s)) (out s @ [Signed_timeout m])"
      using I by (intro log_inv_append) (auto simp: core_inv_def m)
    then have "inv_from E sg 0 ?s'" using I by (auto simp: inv_from_def core_inv_def)
    ultimately have "inv_from E sg 0 t"
      using I after B by (auto simp: core_inv_def dest: leadsD(1))
    then show ?thesis by (simp add: inv_from_0)
  qed
  then show "core_inv E sg t \<and> (\<forall>a. r = Ok a \<longrightarrow> True) \<and> (\<forall>p. r = Panic p \<longrightarrow> p \<in> UNIV)" by simp
qed

section \<open>Runs\<close>

text \<open>
  What may arrive: from the network (through \<open>dispatch\<close>), messages whose verified signatures are genuine; from
  the other tasks of the node, a block that the core has handed out to the synchronizer or the payload waiter,
  or that the proposer made of what the core sent it; and writes of other tasks to the store that are no blocks.
\<close>

definition handed_out :: "('db, 'z) world_scheme \<Rightarrow> block \<Rightarrow> bool" where
  "handed_out s b \<longleftrightarrow> To_synchronizer b \<in> set (out s)
     \<or> (\<exists>ds. To_payload_waiter (Wait ds b) \<in> set (out s))
     \<or> block_wf b \<and> To_proposer (Make (block_round b) (block_qc b) (block_tc b)) \<in> set (out s)"

fun event_ok :: "('k, 'db) env \<Rightarrow> signed \<Rightarrow> 'db core \<Rightarrow> event \<Rightarrow> bool" where
  "event_ok E sg s (Message m) \<longleftrightarrow> for_core m \<and> genuine_message (dalek E) (my_committee E) sg m"
| "event_ok E sg s (Loopback b) \<longleftrightarrow> handed_out s b \<and> (\<exists>a. sg a (block_preimage b))"
| "event_ok E sg s Timer_fired \<longleftrightarrow> True"
| "event_ok E sg s (Other_write k v) \<longleftrightarrow> (\<forall>b. de_block E v \<noteq> Ok b)"

lemma handed_out_ok:
  assumes "core_inv E sg s" and "handed_out s b" and "\<exists>a. sg a (block_preimage b)"
  shows "block_attested (my_committee E) sg b \<and> qc_round (block_qc b) \<le> qc_round (high_qc s)"
  using assms by (auto simp: core_inv_def log_inv_def handed_out_def block_attested_def)

lemma timeout_attested:
  assumes "trusted E sg" and "genuine_message (dalek E) (my_committee E) sg (TimeoutMsg m)"
    and "timeout_verify (dalek E) (my_committee E) m = Inr ()"
  shows "signed_timeout sg m
    \<and> qc_attested (my_committee E) sg (timeout_high_qc m)"
proof -
  have "qc_eq (timeout_high_qc m) qc_genesis \<or> qc_verify (dalek E) (my_committee E) (timeout_high_qc m) = Inr ()"
    using assms(3) by (auto simp: timeout_verify_def split: if_splits)
  moreover have c: "committee_ok (my_committee E)" using assms(1) by (simp add: trusted_def)
  ultimately show ?thesis using assms(2,3) attested_of_verify(1) [OF c, of "dalek E"] by simp
qed

lemma step_inv:
  assumes E: "trusted E sg" and I: "core_inv E sg s" and ev: "event_ok E sg s ev"
    and run: "step E now ev s = (r, t)" and B: "logged_within E sg t"
  shows "core_inv E sg t"
proof -
  obtain r' where run: "handle E now ev s = (r', t)"
    using run by (auto simp: step_def split: prod.splits outcome.splits)
  show ?thesis
  proof (cases ev)
    case (Message m)
    with ev have m: "for_core m" "genuine_message (dalek E) (my_committee E) sg m" by simp_all
    have "safely E sg (inv_from E sg 0) (handle E now ev) (inv_from E sg 0) (\<lambda>_. True)"
    proof (cases m)
      case (Propose b)
      then show ?thesis using safe_handle_proposal [OF E] m by (simp add: Message handle_def)
    next
      case (VoteMsg v)
      then show ?thesis using safe_handle_vote [OF E] m by (simp add: Message handle_def)
    next
      case (TimeoutMsg x)
      then show ?thesis
        using safe_handle_timeout [OF E timeout_attested [OF E]] m by (simp add: Message handle_def)
    next
      case (TCMsg x)
      then show ?thesis using safe_handle_tc [OF E] m by (simp add: Message handle_def)
    next
      case (SyncRequest d k)
      then show ?thesis using m by (simp add: for_core_def)
    qed
    then show ?thesis using run I B by (auto simp: inv_from_0 dest: leadsD(1))
  next
    case (Loopback b)
    then have b: "block_attested (my_committee E) sg b"
      "qc_round (block_qc b) \<le> qc_round (high_qc s)"
      using handed_out_ok [OF I] ev by simp_all
    have "inv_from E sg (qc_round (high_qc s)) s" using I by (simp add: inv_from_def)
    then have "inv_from E sg (qc_round (high_qc s)) t"
      using leadsD(1) [OF safe_process_block [OF E b] _ B] run by (simp add: Loopback handle_def)
    then show ?thesis by (simp add: inv_from_def)
  next
    case Timer_fired
    then show ?thesis
      using leadsD(1) [OF safe_local_timeout_round [OF E] _ B I] run by (simp add: handle_def)
  next
    case (Other_write k v)
    have "safely E sg (inv_at E sg (qc_round (high_qc s))) (write_store E k v)
        (inv_at E sg (qc_round (high_qc s))) (\<lambda>_. True)"
      using ev by (intro safe_write_store [OF E]) (auto simp: Other_write)
    then show ?thesis
      using I run B by (auto simp: Other_write handle_def inv_at_def dest: leadsD(1))
  qed
qed

text \<open>A whole run: what arrives in each state, as long as the task lives.\<close>

fun events_ok :: "('k, 'db) env \<Rightarrow> signed \<Rightarrow> (instant \<times> event) list \<Rightarrow> 'db core \<Rightarrow> bool" where
  "events_ok E sg [] s \<longleftrightarrow> True"
| "events_ok E sg ((now, ev) # evs) s \<longleftrightarrow> event_ok E sg s ev
     \<and> (case step E now ev s of (Ok _, t) \<Rightarrow> events_ok E sg evs t | _ \<Rightarrow> True)"

definition run_ok ::
    "('k, 'db) env \<Rightarrow> signed \<Rightarrow> u64 \<Rightarrow> instant \<Rightarrow> 'db store \<Rightarrow> (instant \<times> event) list \<Rightarrow> bool" where
  "run_ok E sg ms now st evs \<longleftrightarrow>
     (\<forall>k v b. store_read (rocksdb E) k st = Inr (Some v) \<longrightarrow> de_block E v \<noteq> Ok b)
     \<and> (case boot E now (core_new E ms now st) of (Ok _, s) \<Rightarrow> events_ok E sg evs s | _ \<Rightarrow> True)"

lemma core_inv_new:
  assumes "\<forall>k v b. store_read (rocksdb E) k st = Inr (Some v) \<longrightarrow> de_block E v \<noteq> Ok b"
  shows "core_inv E sg (core_new E ms now st)"
  using assms
  by (auto simp: core_inv_def core_new_def agg_inv_new log_inv_def blocks_inv_def) (simp add: qc_genesis_def)

lemma boot_inv:
  assumes "core_inv E sg s" and "boot E now s = (r, t)" and "logged_within E sg t"
  shows "core_inv E sg t"
proof -
  have "safely E sg (inv_at E sg h) (boot E now) (inv_at E sg h) (\<lambda>_. True)" for h
    unfolding boot_def
    by (intro wi.yields_sq safe_timer safe_propose_if_leader log_keeps) simp
  then have "safely E sg (core_inv E sg) (boot E now) (core_inv E sg) (\<lambda>_. True)"
    by (rule safely_at)
  then show ?thesis using assms by (auto dest: leadsD(1))
qed

lemma core_loop_inv:
  assumes E: "trusted E sg"
  shows "core_inv E sg s \<Longrightarrow> events_ok E sg evs s \<Longrightarrow> logged_within E sg (snd (core_loop E evs s)) \<Longrightarrow>
    core_inv E sg (snd (core_loop E evs s))"
proof (induction evs arbitrary: s)
  case (Cons x evs)
  obtain now ev where x: "x = (now, ev)" by (cases x)
  obtain r t where st: "step E now ev s = (r, t)" by (cases "step E now ev s")
  have B: "logged_within E sg t"
  proof (cases r)
    case (Ok a)
    then have "logged_within E sg (snd (core_loop E evs t))"
      using Cons.prems(3) st by (simp add: x run_sq)
    then show ?thesis
      using wi.guard_back [OF keepsD [OF keeps_core_loop [of E evs], of t "fst (core_loop E evs t)" "snd (core_loop E evs t)"]]
      by simp
  qed (use Cons.prems(3) st in \<open>simp_all add: x run_sq\<close>)
  have t: "core_inv E sg t"
    using step_inv [OF E Cons.prems(1) _ st B] Cons.prems(2) by (simp add: x)
  show ?case
  proof (cases r)
    case (Ok a)
    then show ?thesis using Cons.IH [OF t] Cons.prems(2,3) st by (simp add: x run_sq)
  qed (use t st in \<open>simp_all add: x run_sq\<close>)
qed (simp add: ret_def)

lemma core_run_inv:
  assumes E: "trusted E sg" and ok: "run_ok E sg ms now st evs"
    and B: "logged_within E sg (snd (core_run E ms now st evs))"
  shows "core_inv E sg (snd (core_run E ms now st evs))"
proof -
  obtain r s where b: "boot E now (core_new E ms now st) = (r, s)"
    by (cases "boot E now (core_new E ms now st)")
  have new: "core_inv E sg (core_new E ms now st)"
    using ok by (intro core_inv_new) (simp add: run_ok_def)
  show ?thesis
  proof (cases r)
    case (Ok a)
    then have run: "snd (core_run E ms now st evs) = snd (core_loop E evs s)"
      using b by (simp add: core_run_def run_sq)
    have "logged_within E sg s"
      using wi.guard_back [OF keepsD [OF keeps_core_loop [of E evs], of s "fst (core_loop E evs s)" "snd (core_loop E evs s)"]]
        B by (simp add: run)
    then have "core_inv E sg s" by (rule boot_inv [OF new b])
    then show ?thesis using core_loop_inv [OF E] ok B Ok b by (simp add: run run_ok_def)
  next
    case (Err e)
    then show ?thesis using boot_inv [OF new b] B b by (simp add: core_run_def run_sq)
  next
    case (Panic p)
    then show ?thesis using boot_inv [OF new b] B b by (simp add: core_run_def run_sq)
  next
    case Diverge
    then show ?thesis using boot_inv [OF new b] B b by (simp add: core_run_def run_sq)
  qed
qed

end
