(* ===== verification/Agreement.thy ===== *)
theory Agreement
  imports Core_Safety
begin

text \<open>
  Safety of the whole system: honest nodes that run the core of \<open>consensus/src/core.rs\<close>, over any network
  and with fewer than a third of the stake faulty, commit blocks of one chain. The argument is that of a
  2-chain protocol: one certificate per round, and every certificate at or above the round of a committed
  block extends it, by induction on the round.
\<close>

section \<open>Systems of honest nodes\<close>

record ('k, 'db) node_run =
  node_env :: "('k, 'db) env"
  node_timeout :: u64
  node_boot :: instant
  node_store :: "'db store"
  node_events :: "(instant \<times> event) list"

definition final_core :: "('k, 'db) node_run \<Rightarrow> 'db core" where
  "final_core r = snd (core_run (node_env r) (node_timeout r) (node_boot r) (node_store r) (node_events r))"

text \<open>The messages an honest authority signs: the votes and timeouts of its core, and blocks.\<close>

definition made_by :: "effect list \<Rightarrow> bytes \<Rightarrow> bool" where
  "made_by es m \<longleftrightarrow>
     (\<exists>b v. Signed_vote b v \<in> set es \<and> m = vote_preimage (vote_hash v) (vote_round v))
     \<or> (\<exists>t. Signed_timeout t \<in> set es
          \<and> m = timeout_preimage (timeout_round t) (qc_round (timeout_high_qc t)))
     \<or> (\<exists>b. block_wf b \<and> m = block_preimage b)"

definition honest_node ::
    "'k dalek \<Rightarrow> committee \<Rightarrow> signed \<Rightarrow> public_key \<Rightarrow> ('k, 'db) node_run \<Rightarrow> bool" where
  "honest_node D c sg a r \<longleftrightarrow>
     dalek (node_env r) = D \<and> my_committee (node_env r) = c \<and> my_name (node_env r) = a
     \<and> trusted (node_env r) sg
     \<and> run_ok (node_env r) sg (node_timeout r) (node_boot r) (node_store r) (node_events r)
     \<and> logged_within (node_env r) sg (final_core r)
     \<and> (\<forall>m. sg a m \<longrightarrow> made_by (out (final_core r)) m)"

definition correct_system ::
    "'k dalek \<Rightarrow> committee \<Rightarrow> signed \<Rightarrow> public_key set \<Rightarrow> (public_key \<Rightarrow> ('k, 'db) node_run) \<Rightarrow> bool" where
  "correct_system D c sg F node \<longleftrightarrow> committee_ok c \<and> finite F \<and> 3 * weight_of c F < total_stake c
     \<and> (\<forall>a\<in>names c - F. honest_node D c sg a (node a))"

lemma sorted_wrt_cases:
  "sorted_wrt P xs \<Longrightarrow> x \<in> set xs \<Longrightarrow> y \<in> set xs \<Longrightarrow> x = y \<or> P x y \<or> P y x"
  by (induction xs) auto

lemma final_inv:
  assumes "honest_node D c sg a r"
  shows "votes_ordered (node_env r) (final_core r)" and "core_inv (node_env r) sg (final_core r)"
  using assms core_run_inv [of "node_env r" sg]
  by (simp_all add: honest_node_def final_core_def votes_ordered_run)

lemma honest_votes:
  assumes n: "honest_node D c sg a r" and "Signed_vote b v \<in> set (out (final_core r))"
  shows "votable c sg b" and "vote_hash v = block_digest D b" and "vote_round v = block_round b"
  using final_inv [OF n] assms
  by (force simp: honest_node_def core_inv_def log_inv_def votes_ordered_def dest!: vote_new_fields)+

lemma honest_vote_unique:
  assumes n: "honest_node D c sg a r" and "Signed_vote b v \<in> set (out (final_core r))"
    and "Signed_vote b' v' \<in> set (out (final_core r))" and "block_round b = block_round b'"
  shows "b = b'"
  using final_inv(1) [OF n] assms(2-4) sorted_wrt_cases [of vote_order]
  by (fastforce simp: votes_ordered_def)

lemma honest_vote_binds:
  assumes n: "honest_node D c sg a r" and b: "Signed_vote b v \<in> set (out (final_core r))"
    and t: "Signed_timeout t \<in> set (out (final_core r))" and "block_round b \<le> timeout_round t"
  shows "qc_round (block_qc b) \<le> qc_round (timeout_high_qc t)"
proof -
  have "sorted_wrt (\<lambda>x y. vote_order x y \<and> binds x y) (out (final_core r))"
    using final_inv [OF n] by (simp add: votes_ordered_def core_inv_def log_inv_def sorted_wrt_iff_nth_less)
  from sorted_wrt_cases [OF this b t] assms(4) show ?thesis by auto
qed

text \<open>What an honest authority has signed is what its log says, by the shape of the preimage.\<close>

lemma honest_signed_vote:
  assumes n: "honest_node D c sg a r" and "sg a (vote_preimage h k)" and "digest_wf h"
  shows "\<exists>b v. Signed_vote b v \<in> set (out (final_core r)) \<and> block_digest D b = h \<and> block_round b = k \<and> votable c sg b"
proof -
  have sha: "digest_wf (block_digest D b)" for b
    using n by (auto simp: honest_node_def trusted_def sha512_ok_def digest_wf_def block_digest_def hash32_def)
  have "made_by (out (final_core r)) (vote_preimage h k)"
    using n assms(2) by (simp add: honest_node_def)
  then show ?thesis
    unfolding made_by_def
  proof (elim disjE exE conjE)
    fix b v assume v: "Signed_vote b v \<in> set (out (final_core r))"
      and eq: "vote_preimage h k = vote_preimage (vote_hash v) (vote_round v)"
    note hv = honest_votes [OF n v]
    have "h = vote_hash v \<and> k = vote_round v"
      using vote_preimage_inj [OF assms(3) _ eq] sha hv by simp
    then show ?thesis using v hv by auto
  next
    fix t assume "vote_preimage h k = timeout_preimage (timeout_round t) (qc_round (timeout_high_qc t))"
    then have "length (vote_preimage h k) = 16" by (simp add: length_timeout_preimage)
    then show ?thesis using assms(3) by (simp add: length_vote_preimage)
  next
    fix b assume "block_wf b" "vote_preimage h k = block_preimage b"
    then have "length (vote_preimage h k) = 72 + 32 * length (block_payload b)"
      by (simp add: length_block_preimage)
    then show ?thesis using assms(3) by (simp add: length_vote_preimage)
  qed
qed

lemma honest_signed_timeout:
  assumes n: "honest_node D c sg a r" and "sg a (timeout_preimage k h)"
  shows "\<exists>t. Signed_timeout t \<in> set (out (final_core r)) \<and> timeout_round t = k \<and> qc_round (timeout_high_qc t) = h"
proof -
  have wf: "Signed_vote b v \<in> set (out (final_core r)) \<Longrightarrow> digest_wf (vote_hash v)" for b v
    using n honest_votes(2) [OF n]
    by (auto simp: honest_node_def trusted_def sha512_ok_def digest_wf_def block_digest_def hash32_def)
  have "made_by (out (final_core r)) (timeout_preimage k h)"
    using n assms(2) by (simp add: honest_node_def)
  then show ?thesis
    unfolding made_by_def
  proof (elim disjE exE conjE)
    fix b v assume "Signed_vote b v \<in> set (out (final_core r))"
      and "timeout_preimage k h = vote_preimage (vote_hash v) (vote_round v)"
    then have "length (vote_preimage (vote_hash v) (vote_round v)) = 16" and "digest_wf (vote_hash v)"
      using wf by (metis length_timeout_preimage)+
    then show ?thesis by (simp add: length_vote_preimage)
  next
    fix t assume "Signed_timeout t \<in> set (out (final_core r))"
      and "timeout_preimage k h = timeout_preimage (timeout_round t) (qc_round (timeout_high_qc t))"
    then show ?thesis by (auto simp: timeout_preimage_inj)
  next
    fix b assume "block_wf b" "timeout_preimage k h = block_preimage b"
    then have "length (timeout_preimage k h) = 72 + 32 * length (block_payload b)"
      by (simp add: length_block_preimage)
    then show ?thesis by (simp add: length_timeout_preimage)
  qed
qed

section \<open>One certificate per round\<close>

definition certified :: "committee \<Rightarrow> signed \<Rightarrow> digest \<Rightarrow> u64 \<Rightarrow> bool" where
  "certified c sg h r \<longleftrightarrow> (\<exists>q. qc_attested c sg q \<and> qc_hash q = h \<and> qc_round q = r)"

lemma system_honest:
  "correct_system D c sg F node \<Longrightarrow> a \<in> names c - F \<Longrightarrow> honest_node D c sg a (node a)"
  by (simp add: correct_system_def)

text \<open>Two quorums have an honest authority in common, whose node is one of the system.\<close>

lemma common_honest:
  assumes "correct_system D c sg F node" and "quorum c A" and "quorum c B"
  obtains a where "a \<in> A" and "a \<in> B" and "a \<in> names c - F" and "honest_node D c sg a (node a)"
proof -
  from assms obtain a where "a \<in> A" "a \<in> B" "a \<notin> F" "0 < stake c a"
    using quorums_share_honest [of c A B F] by (auto simp: correct_system_def)
  then show thesis using that [of a] assms(1) stake_pos_names [of c a] by (auto simp: correct_system_def)
qed

lemma vote_blocks_signed:
  assumes "votable c sg b"
  shows "block_wf b" and "\<exists>a. sg a (block_preimage b)" and "qc_attested c sg (block_qc b)"
    and "qc_round (block_qc b) < block_round b"
  using assms by (auto simp: votable_def block_attested_def)

lemma qc_voter:
  assumes S: "correct_system D c sg F node" and q: "qc_attested c sg q" and "\<not> qc_eq q qc_genesis"
  obtains a b v where "honest_node D c sg a (node a)" and "Signed_vote b v \<in> set (out (final_core (node a)))"
    and "block_digest D b = qc_hash q" and "block_round b = qc_round q" and "votable c sg b" and "a \<in> names c - F"
proof -
  have q': "digest_wf (qc_hash q)" "quorum c (fst ` set (qc_votes q))"
    "\<forall>a\<in>fst ` set (qc_votes q). sg a (vote_preimage (qc_hash q) (qc_round q))"
    using q assms(3) by (auto simp: qc_attested_def)
  obtain a where "a \<in> fst ` set (qc_votes q)" and a: "a \<in> names c - F" and n: "honest_node D c sg a (node a)"
    using common_honest [OF S q'(2) q'(2)] by blast
  with q' honest_signed_vote [OF n, of "qc_hash q" "qc_round q"] show thesis
    using that [OF n _ _ _ _ a] by blast
qed

text \<open>The node of any certificate knows that signed messages do not collide.\<close>

lemma honest_collision_free: "honest_node D c sg a r \<Longrightarrow> collision_free D sg"
  by (auto simp: honest_node_def trusted_def)

lemma same_digest:
  assumes "collision_free D sg" and "block_attested c sg b" and "block_attested c sg b'"
    and "block_digest D b = block_digest D b'"
  shows "block_round b = block_round b'" and "parent b = parent b'" and "block_payload b = block_payload b'"
proof -
  have "block_preimage b = block_preimage b'"
    using assms unfolding collision_free_def block_digest_def block_attested_def by blast
  then show "block_round b = block_round b'" and "parent b = parent b'" and "block_payload b = block_payload b'"
    using block_preimage_inj [of b b'] assms(2,3) by (auto simp: block_attested_def)
qed

lemma votable_attested: "votable c sg b \<Longrightarrow> block_attested c sg b"
  by (simp add: votable_def)

lemma qc_genesis_fields: "qc_eq q qc_genesis \<longleftrightarrow> qc_hash q = digest_default \<and> qc_round q = 0"
  by (simp add: qc_eq_def qc_genesis_def)

lemma certified_nongenesis:
  assumes S: "correct_system D c sg F node" and q: "qc_attested c sg q" and "\<not> qc_eq q qc_genesis"
  shows "qc_hash q \<noteq> digest_default" and "0 < qc_round q"
proof -
  obtain a b v where n: "honest_node D c sg a (node a)" and b: "block_digest D b = qc_hash q"
    "block_round b = qc_round q" "votable c sg b"
    by (rule qc_voter [OF S q assms(3)])
  show "qc_hash q \<noteq> digest_default"
    using b honest_collision_free [OF n] vote_blocks_signed(2) [OF b(3)]
    by (auto simp: collision_free_def block_digest_def)
  show "0 < qc_round q" using vote_blocks_signed(4) [OF b(3)] b(2) by (auto simp: word_greater_zero_iff)
qed

lemma certified_round_unique:
  assumes S: "correct_system D c sg F node" and "certified c sg h r" and "certified c sg h' r"
  shows "h = h'"
proof -
  obtain q q' where q: "qc_attested c sg q" "qc_hash q = h" "qc_round q = r"
    and q': "qc_attested c sg q'" "qc_hash q' = h'" "qc_round q' = r"
    using assms by (auto simp: certified_def)
  show ?thesis
  proof (cases "r = 0")
    case True
    then have "qc_eq q qc_genesis" "qc_eq q' qc_genesis"
      using certified_nongenesis(2) [OF S] q q' by (metis less_irrefl)+
    then show ?thesis using q q' by (simp add: qc_genesis_fields)
  next
    case False
    then have ng: "\<not> qc_eq q qc_genesis" "\<not> qc_eq q' qc_genesis"
      using q q' by (auto simp: qc_genesis_fields)
    have att: "digest_wf h" "quorum c (fst ` set (qc_votes q))" "\<forall>a\<in>fst ` set (qc_votes q). sg a (vote_preimage h r)"
      "digest_wf h'" "quorum c (fst ` set (qc_votes q'))" "\<forall>a\<in>fst ` set (qc_votes q'). sg a (vote_preimage h' r)"
      using q q' ng by (auto simp: qc_attested_def)
    obtain a where a: "a \<in> fst ` set (qc_votes q)" "a \<in> fst ` set (qc_votes q')" and n: "honest_node D c sg a (node a)"
      using common_honest [OF S att(2,5)] by blast
    obtain b v where b: "Signed_vote b v \<in> set (out (final_core (node a)))" "block_digest D b = h" "block_round b = r"
      using honest_signed_vote [OF n _ att(1)] att(3) a(1) by blast
    obtain b' v' where b': "Signed_vote b' v' \<in> set (out (final_core (node a)))" "block_digest D b' = h'" "block_round b' = r"
      using honest_signed_vote [OF n _ att(4)] att(6) a(2) by blast
    show ?thesis using honest_vote_unique [OF n b(1) b'(1)] b b' by simp
  qed
qed

lemma certified_hash_round:
  assumes S: "correct_system D c sg F node" and q: "qc_attested c sg q" and q': "qc_attested c sg q'"
    and "qc_hash q = qc_hash q'"
  shows "qc_round q = qc_round q'"
proof (cases "qc_eq q qc_genesis \<or> qc_eq q' qc_genesis")
  case True
  then have "qc_hash q = digest_default" "qc_hash q' = digest_default"
    using assms(4) by (metis qc_genesis_fields)+
  then have "qc_eq q qc_genesis" "qc_eq q' qc_genesis"
    using certified_nongenesis(1) [OF S q] certified_nongenesis(1) [OF S q'] by blast+
  then show ?thesis by (simp add: qc_genesis_fields)
next
  case False
  obtain a b v where n: "honest_node D c sg a (node a)" and b: "block_digest D b = qc_hash q"
    "block_round b = qc_round q" "votable c sg b"
    by (rule qc_voter [OF S q]) (use False in blast)
  obtain a' b' v' where "honest_node D c sg a' (node a')"
    and b': "block_digest D b' = qc_hash q'" "block_round b' = qc_round q'" "votable c sg b'"
    by (rule qc_voter [OF S q']) (use False in blast)
  show ?thesis
    using same_digest(1) [OF honest_collision_free [OF n] votable_attested [OF b(3)] votable_attested [OF b'(3)]]
      b b' assms(4) by simp
qed

text \<open>A block that an attested QC certifies has the round of the QC.\<close>

lemma certified_block_round:
  assumes S: "correct_system D c sg F node" and q: "qc_attested c sg q" and p: "block_attested c sg p"
    and "block_digest D p = qc_hash q" and "\<not> qc_eq q qc_genesis"
  shows "block_round p = qc_round q"
proof -
  obtain a b v where n: "honest_node D c sg a (node a)" and b: "block_digest D b = qc_hash q"
    "block_round b = qc_round q" "votable c sg b"
    by (rule qc_voter [OF S q assms(5)])
  show ?thesis
    using same_digest(1) [OF honest_collision_free [OF n] votable_attested [OF b(3)] p] b assms(4) by simp
qed

section \<open>One chain\<close>

text \<open>\<open>below D c sg h h'\<close>: the block with digest \<open>h\<close> is an ancestor of the one with digest \<open>h'\<close>, or the same.\<close>

inductive below :: "'k dalek \<Rightarrow> committee \<Rightarrow> signed \<Rightarrow> digest \<Rightarrow> digest \<Rightarrow> bool" for D c sg where
  below_self: "below D c sg h h"
| below_child: "block_attested c sg b \<Longrightarrow> below D c sg h (parent b) \<Longrightarrow> below D c sg h (block_digest D b)"

text \<open>The digest under which a QC refers to a block; the genesis QC refers to the genesis block by zeros.\<close>

definition block_id :: "'k dalek \<Rightarrow> block \<Rightarrow> digest" where
  "block_id D b = (if b = block_genesis then digest_default else block_digest D b)"

lemma below_digest:
  assumes "collision_free D sg" and "below D c sg h h'" and "h' = block_digest D b" and "block_attested c sg b"
  shows "h = block_digest D b \<or> below D c sg h (parent b)"
  using assms(2,3)
proof (cases rule: below.cases)
  case (below_child b')
  then have "block_digest D b' = block_digest D b" using assms(3) by simp
  then have "parent b' = parent b"
    using same_digest(2) [OF assms(1) below_child(2) assms(4)] by simp
  with below_child show ?thesis by simp
qed simp

lemma below_linear:
  assumes cf: "collision_free D sg" and "below D c sg h k"
  shows "below D c sg h' k \<Longrightarrow> below D c sg h h' \<or> below D c sg h' h"
  using assms(2)
proof (induction rule: below.induct)
  case (below_child b h)
  from below_digest [OF cf below_child.prems refl below_child.hyps(1)] show ?case
    using below_child below.below_child by metis
qed simp

lemma below_trans: "below D c sg h' h'' \<Longrightarrow> below D c sg h h' \<Longrightarrow> below D c sg h h''"
  by (induction rule: below.induct) (auto intro: below.intros)

lemma parent_certified:
  assumes S: "correct_system D c sg F node" and b: "qc_attested c sg (block_qc b)" and p: "parent_of D c sg b p"
  shows "block_id D p = parent b" and "block_round p = qc_round (block_qc b)"
    and "certified c sg (block_id D p) (block_round p)"
proof -
  have "block_id D p = parent b \<and> block_round p = qc_round (block_qc b)"
  proof (cases "qc_eq (block_qc b) qc_genesis")
    case True
    then have "p = block_genesis" using p by (simp add: parent_of_def)
    then show ?thesis using True by (simp add: block_id_def parent_def qc_genesis_fields) (simp add: block_genesis_def)
  next
    case False
    then have at: "block_attested c sg p" and d: "block_digest D p = parent b" using p by (simp_all add: parent_of_def)
    have r: "block_round p = qc_round (block_qc b)"
      using certified_block_round [OF S b at _ False] d by (simp add: parent_def)
    then have "block_round p \<noteq> 0" using certified_nongenesis(2) [OF S b False] by auto
    then have "p \<noteq> block_genesis" by (auto simp: block_genesis_def)
    with r d show ?thesis by (simp add: block_id_def)
  qed
  then show "block_id D p = parent b" and "block_round p = qc_round (block_qc b)"
    and "certified c sg (block_id D p) (block_round p)"
    using b by (auto simp: certified_def parent_def)
qed

lemma two_chain_parts:
  assumes S: "correct_system D c sg F node" and "two_chain D c sg b0"
  obtains b b1 :: block where "qc_attested c sg (block_qc b)" and "\<not> qc_eq (block_qc b) qc_genesis"
    and "qc_hash (block_qc b) = block_digest D b1" and "qc_round (block_qc b) = block_round b1"
    and "block_attested c sg b1" and "parent b1 = block_id D b0"
    and "certified c sg (block_id D b0) (block_round b0)"
    and "unat (block_round b1) = unat (block_round b0) + 1"
proof -
  obtain b b1 where b: "block_attested c sg b" "parent_of D c sg b b1" "parent_of D c sg b1 b0"
    "block_round b0 + 1 = block_round b1"
    using assms(2) by (auto simp: two_chain_def)
  note bq = block_attested_parts(1) [OF b(1)]
  have ng: "\<not> qc_eq (block_qc b) qc_genesis"
  proof
    assume "qc_eq (block_qc b) qc_genesis"
    then have "b1 = block_genesis" using b(2) by (simp add: parent_of_def)
    moreover from this have "b0 = block_genesis" using b(3) by (simp add: parent_of_def block_genesis_def qc_eq_def)
    ultimately show False using b(4) by (simp add: block_genesis_def)
  qed
  then have b1: "block_attested c sg b1" "block_digest D b1 = parent b" using b(2) by (simp_all add: parent_of_def)
  note b1q = block_attested_parts(1) [OF b1(1)]
  note p0 = parent_certified [OF S b1q b(3)]
  have "block_round b0 < - 1" using qc_attested_round [OF b1q] p0(2) by simp
  then have "unat (block_round b1) = unat (block_round b0) + 1" using b(4) unat_next_round by metis
  moreover have "qc_round (block_qc b) = block_round b1" using parent_certified(2) [OF S bq b(2)] by simp
  moreover have "qc_hash (block_qc b) = block_digest D b1" using b1(2) by (simp add: parent_def)
  ultimately show thesis using bq ng b1(1) p0(1,3) that [of b b1] by simp
qed

lemma two_chain_certified:
  assumes "correct_system D c sg F node" and "two_chain D c sg b0"
  shows "certified c sg (block_id D b0) (block_round b0)"
  by (rule two_chain_parts [OF assms])

text \<open>Some timeout in a TC past the 2-chain comes from an honest node that had voted for the head of it.\<close>

lemma tc_above_two_chain:
  assumes S: "correct_system D c sg F node" and tc: "two_chain D c sg b0" and ta: "tc_attested c sg t"
    and above: "unat (block_round b0) < unat (tc_round t)"
  obtains hr where "hr \<in> set (high_qc_rounds t)" and "block_round b0 \<le> hr"
proof -
  obtain b b1 :: block where bq: "qc_attested c sg (block_qc b)" "\<not> qc_eq (block_qc b) qc_genesis"
    "qc_hash (block_qc b) = block_digest D b1" "qc_round (block_qc b) = block_round b1"
    and b1: "block_attested c sg b1" "parent b1 = block_id D b0"
    and c0: "certified c sg (block_id D b0) (block_round b0)"
    and r1: "unat (block_round b1) = unat (block_round b0) + 1"
    by (rule two_chain_parts [OF S tc])
  have q: "digest_wf (qc_hash (block_qc b))" "quorum c (fst ` set (qc_votes (block_qc b)))" "quorum c (fst ` set (tc_votes t))"
    "\<forall>a\<in>fst ` set (qc_votes (block_qc b)). sg a (vote_preimage (block_digest D b1) (block_round b1))"
    using bq ta by (auto simp: qc_attested_def tc_attested_def)
  obtain a where a: "a \<in> fst ` set (qc_votes (block_qc b))" "a \<in> fst ` set (tc_votes t)" and n: "honest_node D c sg a (node a)"
    using common_honest [OF S q(2,3)] by blast
  obtain y w where y: "Signed_vote y w \<in> set (out (final_core (node a)))"
    "block_digest D y = block_digest D b1" "block_round y = block_round b1" "votable c sg y"
    using honest_signed_vote [OF n] q(1,4) a(1) bq(3) by metis
  obtain hr where hr: "sg a (timeout_preimage (tc_round t) hr)" "hr \<in> set (high_qc_rounds t)"
    using ta a(2) by (force simp: tc_attested_def high_qc_rounds_def)
  obtain m where m: "Signed_timeout m \<in> set (out (final_core (node a)))" "timeout_round m = tc_round t"
    "qc_round (timeout_high_qc m) = hr"
    using honest_signed_timeout [OF n hr(1)] by blast
  have "block_round y \<le> timeout_round m" using above r1 y(3) m(2) by (simp add: word_le_nat_alt)
  then have "qc_round (block_qc y) \<le> hr" using honest_vote_binds [OF n y(1) m(1)] m(3) by simp
  moreover have "parent y = parent b1"
    using same_digest(2) [OF honest_collision_free [OF n] votable_attested [OF y(4)] b1(1) y(2)] .
  then have "qc_hash (block_qc y) = block_id D b0" using b1(2) by (simp add: parent_def)
  then have "qc_round (block_qc y) = block_round b0"
    using certified_hash_round [OF S vote_blocks_signed(3) [OF y(4)]] c0 by (auto simp: certified_def)
  ultimately show thesis using that hr(2) by simp
qed

text \<open>A block past the 2-chain that can be voted for has a QC that is not below the head of it.\<close>

lemma votable_above_two_chain:
  assumes S: "correct_system D c sg F node" and tc: "two_chain D c sg b0" and x: "votable c sg x"
    and above: "unat (block_round b0) + 1 < unat (block_round x)"
  shows "block_round b0 \<le> qc_round (block_qc x)"
  using x unfolding votable_def
proof (elim conjE disjE)
  assume "qc_round (block_qc x) + 1 = block_round x"
  then have "unat (block_round x) = unat (qc_round (block_qc x)) + 1"
    using unat_next_round [OF qc_attested_round [OF vote_blocks_signed(3) [OF x]]] by simp
  then show ?thesis using above by (simp add: word_le_nat_alt)
next
  assume "\<exists>t. block_tc x = Some t \<and> tc_round t + 1 = block_round x \<and> (\<forall>hr\<in>set (high_qc_rounds t). hr \<le> qc_round (block_qc x))"
  then obtain t where t: "block_tc x = Some t" "tc_round t + 1 = block_round x"
    "\<forall>hr\<in>set (high_qc_rounds t). hr \<le> qc_round (block_qc x)"
    by auto
  have ta: "tc_attested c sg t" by (rule block_attested_parts(2) [OF votable_attested [OF x] t(1)])
  have "unat (block_round x) = unat (tc_round t) + 1" using unat_next_round [OF tc_last [OF ta]] t(2) by metis
  then obtain hr where "hr \<in> set (high_qc_rounds t)" "block_round b0 \<le> hr"
    using tc_above_two_chain [OF S tc ta] above by auto
  then show ?thesis using t(3) by force
qed

lemma certified_extends_two_chain:
  assumes S: "correct_system D c sg F node" and tc: "two_chain D c sg b0"
  shows "certified c sg h r \<Longrightarrow> block_round b0 \<le> r \<Longrightarrow> below D c sg (block_id D b0) h"
proof (induction "unat r" arbitrary: h r rule: less_induct)
  case less
  obtain b b1 :: block where bq: "qc_attested c sg (block_qc b)" "\<not> qc_eq (block_qc b) qc_genesis"
    "qc_hash (block_qc b) = block_digest D b1" "qc_round (block_qc b) = block_round b1"
    and b1: "block_attested c sg b1" "parent b1 = block_id D b0"
    and c0: "certified c sg (block_id D b0) (block_round b0)"
    and r1: "unat (block_round b1) = unat (block_round b0) + 1"
    by (rule two_chain_parts [OF S tc])
  have c1: "certified c sg (block_digest D b1) (block_round b1)" using bq by (auto simp: certified_def)
  consider "r = block_round b0" | "r = block_round b1" | "unat (block_round b1) < unat r"
    using less.prems(2) r1 by (auto simp: word_le_nat_alt) (metis Suc_lessI le_neq_implies_less word_unat_eq_iff)
  then show ?case
  proof cases
    case 1
    then have "h = block_id D b0" using certified_round_unique [OF S less.prems(1)] c0 by simp
    then show ?thesis by (simp add: below.below_self)
  next
    case 2
    then have "h = block_digest D b1" using certified_round_unique [OF S less.prems(1)] c1 by simp
    then show ?thesis using below.below_child [OF b1(1)] below.below_self [of D c sg "parent b1"] b1(2) by simp
  next
    case 3
    obtain q where q: "qc_attested c sg q" "qc_hash q = h" "qc_round q = r"
      using less.prems(1) by (auto simp: certified_def)
    have "r \<noteq> 0" using 3 by auto
    then have ng: "\<not> qc_eq q qc_genesis" using q by (simp add: qc_genesis_fields)
    obtain a x v where n: "honest_node D c sg a (node a)" and x: "block_digest D x = h" "block_round x = r" "votable c sg x"
      using qc_voter [OF S q(1) ng] q by metis
    note xb = vote_blocks_signed [OF x(3)]
    let ?k = "qc_round (block_qc x)"
    have k: "unat ?k < unat r" using xb(4) x(2) by (simp add: word_less_nat_alt)
    have "block_round b0 \<le> ?k" using votable_above_two_chain [OF S tc x(3)] 3 r1 x(2) by simp
    moreover have "certified c sg (parent x) ?k" using xb(3) by (auto simp: certified_def parent_def)
    ultimately have "below D c sg (block_id D b0) (parent x)" using less.hyps [OF k] by blast
    then show ?thesis using below.below_child [OF votable_attested [OF x(3)]] x(1) by metis
  qed
qed

text \<open>Every committed block is certified and lies below the head of the 2-chain it was committed with.\<close>

lemma committable_below:
  assumes S: "correct_system D c sg F node" and "committable D c sg b"
  obtains b0 where "two_chain D c sg b0" and "below D c sg (block_id D b) (block_id D b0)"
    and "certified c sg (block_id D b) (block_round b)"
proof -
  obtain b0 as where tc: "two_chain D c sg b0" and as: "ancestry (parent_of D c sg) b0 as" and b: "b \<in> set (b0 # as)"
    using assms(2) by (auto simp: committable_def)
  have start: "certified c sg (block_id D b0) (block_round b0)"
    by (rule two_chain_certified [OF S tc])
  have base: "b0 = block_genesis \<or> block_attested c sg b0"
    using tc by (auto simp: two_chain_def parent_of_def split: if_splits)
  have "below D c sg (block_id D b) (block_id D x) \<and> certified c sg (block_id D b) (block_round b)"
    if "x = block_genesis \<or> block_attested c sg x" "certified c sg (block_id D x) (block_round x)"
      "ancestry (parent_of D c sg) x ys" "b \<in> set (x # ys)" for x ys
    using that
  proof (induction ys arbitrary: x)
    case Nil
    then show ?case by (auto intro: below.intros)
  next
    case (Cons p ys)
    show ?case
    proof (cases "b = x")
      case True
      then show ?thesis using Cons.prems by (auto intro: below.intros)
    next
      case False
      have p: "parent_of D c sg x p" "ancestry (parent_of D c sg) p ys" using Cons.prems(3) by simp_all
      have xq: "qc_attested c sg (block_qc x)"
        using Cons.prems(1) block_attested_parts(1) by (auto simp: block_genesis_def)
      note pc = parent_certified [OF S xq p(1)]
      have "p = block_genesis \<or> block_attested c sg p" using p(1) by (auto simp: parent_of_def split: if_splits)
      then have IH: "below D c sg (block_id D b) (block_id D p)" "certified c sg (block_id D b) (block_round b)"
        using Cons.IH [OF _ pc(3) p(2)] Cons.prems(4) False by auto
      have "below D c sg (block_id D p) (block_id D x)"
      proof (cases "x = block_genesis")
        case True
        then have "p = block_genesis" using p(1) by (simp add: parent_of_def block_genesis_def qc_eq_def)
        then show ?thesis using True by (simp add: below.below_self)
      next
        case False
        then have "block_attested c sg x" "block_id D x = block_digest D x"
          using Cons.prems(1) by (simp_all add: block_id_def)
        then show ?thesis using below.below_child [of c sg x D "parent x"] pc(1) by (simp add: below.below_self)
      qed
      with IH show ?thesis using below_trans by blast
    qed
  qed
  from this [OF base start as b] tc show thesis using that by blast
qed

lemma commit_committable:
  "honest_node D c sg a r \<Longrightarrow> To_commit b \<in> set (out (final_core r)) \<Longrightarrow> committable D c sg b"
  using final_inv(2) [of D c sg a r] by (force simp: core_inv_def log_inv_def honest_node_def)

lemma commits_on_one_chain:
  assumes "correct_system D c sg F node" and "a \<in> names c - F" and "a' \<in> names c - F"
    and "To_commit b \<in> set (out (final_core (node a)))" and "To_commit b' \<in> set (out (final_core (node a')))"
  shows "(below D c sg (block_id D b) (block_id D b') \<or> below D c sg (block_id D b') (block_id D b))
    \<and> (block_round b = block_round b' \<longrightarrow> block_id D b = block_id D b')"
proof -
  note n = system_honest [OF assms(1,2)] and n' = system_honest [OF assms(1,3)]
  obtain b0 where b0: "two_chain D c sg b0" "below D c sg (block_id D b) (block_id D b0)"
    "certified c sg (block_id D b) (block_round b)"
    by (rule committable_below [OF assms(1) commit_committable [OF n assms(4)]])
  obtain b0' where b0': "two_chain D c sg b0'" "below D c sg (block_id D b') (block_id D b0')"
    "certified c sg (block_id D b') (block_round b')"
    by (rule committable_below [OF assms(1) commit_committable [OF n' assms(5)]])
  have c: "certified c sg (block_id D b0) (block_round b0)" "certified c sg (block_id D b0') (block_round b0')"
    by (rule two_chain_certified [OF assms(1) b0(1)], rule two_chain_certified [OF assms(1) b0'(1)])
  have "\<exists>h. below D c sg (block_id D b) h \<and> below D c sg (block_id D b') h"
  proof (cases "block_round b0 \<le> block_round b0'")
    case True
    then have "below D c sg (block_id D b0) (block_id D b0')"
      by (rule certified_extends_two_chain [OF assms(1) b0(1) c(2)])
    then show ?thesis using below_trans b0(2) b0'(2) by blast
  next
    case False
    then have "below D c sg (block_id D b0') (block_id D b0)"
      by (intro certified_extends_two_chain [OF assms(1) b0'(1) c(1)]) simp
    then show ?thesis using below_trans b0(2) b0'(2) by blast
  qed
  then show ?thesis
    using below_linear [OF honest_collision_free [OF n]] certified_round_unique [OF assms(1)] b0(3) b0'(3) by metis
qed

section \<open>Properties\<close>

text \<open>
  C1. Agreement. Take a committee, a set \<open>F\<close> of authorities with less than a third of the stake, and for
  every other authority a node that runs the core of this repository over arbitrary events, in which every
  verified signature of an honest authority was made by its node and signed messages do not collide. Then any
  two blocks that honest nodes hand to their applications lie on one chain of parents, and are the same
  block when they have the same round.
\<close>

theorem agreement:
  assumes "correct_system D c sg F node" and "a \<in> names c - F" and "a' \<in> names c - F"
    and "To_commit b \<in> set (out (final_core (node a)))" and "To_commit b' \<in> set (out (final_core (node a')))"
  shows "(below D c sg (block_id D b) (block_id D b') \<or> below D c sg (block_id D b') (block_id D b))
    \<and> (block_round b = block_round b' \<longrightarrow> block_id D b = block_id D b')"
  using assms by (rule commits_on_one_chain)


end
