(* ===== verification/Scenario.thy ===== *)
theory Scenario
  imports Agreement
begin

text \<open>
  A small system for the witnesses of the theorems on the core: the four authorities of
  \<open>test_committee\<close>, a \<open>dalek\<close> that accepts every signature and whose digests tell the messages of the
  scenario apart, \<open>bincode\<close> for three blocks and the messages with them, and a chain of one block per round.
\<close>

section \<open>The chain\<close>

definition scenario_dalek :: "bytes dalek" where
  "scenario_dalek =
     lax_dalek\<lparr>sha512 := \<lambda>m. [of_nat (length m), hd (drop 32 m @ [0])] @ replicate 62 0,
       keypair_sign := \<lambda>_ _. replicate 64 0\<rparr>"

definition scenario_digest :: "u8 \<Rightarrow> digest" where
  "scenario_digest i = Digest ([72, i] @ replicate 30 0)"

definition scenario_qc :: "u8 \<Rightarrow> qc" where
  "scenario_qc i = \<lparr>qc_hash = scenario_digest i, qc_round = ucast i,
     qc_votes = map (\<lambda>k. (test_key k, signature_default)) [1, 2, 3]\<rparr>"

definition scenario_block :: "u8 \<Rightarrow> block" where
  "scenario_block i = \<lparr>block_qc = (if i = 1 then qc_genesis else scenario_qc (i - 1)), block_tc = None,
     block_author = test_key (i + 1), block_round = ucast i, block_payload = [],
     block_signature = signature_default\<rparr>"

definition scenario_env :: "u8 \<Rightarrow> (bytes, bytes \<rightharpoonup> bytes) env" where
  "scenario_env i =
     \<lparr>dalek = scenario_dalek, rocksdb = map_rocksdb,
      ser_block = (\<lambda>b. let r = ucast (block_round b)
        in if r \<in> {1, 2, 3} \<and> b = scenario_block r then Some [r] else None),
      de_block = (\<lambda>v. case v of [r] \<Rightarrow> if r \<in> {1, 2, 3} then Ok (scenario_block r) else Err () | _ \<Rightarrow> Err ()),
      ser_msg = (\<lambda>_. Some []),
      de_msg = (\<lambda>v. case v of [r] \<Rightarrow> if r \<in> {1, 2, 3} then Ok (Propose (scenario_block r)) else Err () | _ \<Rightarrow> Err ()),
      my_name = test_key i, my_committee = test_committee, my_secret = SecretKey []\<rparr>"

definition scenario_events :: "(instant \<times> event) list" where
  "scenario_events = map (\<lambda>i. (unat i, Message (Propose (scenario_block i)))) [1, 2, 3]"

lemma scenario_env_simps [simp]:
  "dalek (scenario_env i) = scenario_dalek" "rocksdb (scenario_env i) = map_rocksdb"
  "my_name (scenario_env i) = test_key i" "my_committee (scenario_env i) = test_committee"
  "ser_msg (scenario_env i) m = Some []"
  by (simp_all add: scenario_env_def)

lemma scenario_verify [simp]:
  "signature_verify scenario_dalek s d k = Inr ()"
  by (simp add: signature_verify_def scenario_dalek_def lax_dalek_def)

lemma scenario_digests:
  "i \<in> {1, 2, 3} \<Longrightarrow> block_digest scenario_dalek (scenario_block i) = scenario_digest i"
  "h \<in> {1, 2, 3} \<Longrightarrow> hash32 scenario_dalek (vote_preimage (scenario_digest h) (ucast h)) = Digest ([40, h] @ replicate 30 0)"
  by (auto simp: block_digest_def hash32_def scenario_dalek_def block_preimage_def scenario_block_def
      test_key_def le_bytes_def upt_rec scenario_qc_def scenario_digest_def qc_genesis_def digest_default_def
      vote_preimage_def)

lemma scenario_batch [simp]: "verify_batch scenario_dalek d votes = Inr ()"
proof -
  have "\<exists>x. batch_collect scenario_dalek d votes [] [] [] = Inr x"
    using batch_collect_Inl [of scenario_dalek d votes "[]" "[]" "[]"]
    by (cases "batch_collect scenario_dalek d votes [] [] []") (auto simp: scenario_dalek_def lax_dalek_def)
  then show ?thesis by (auto simp: verify_batch_def scenario_dalek_def lax_dalek_def)
qed

lemma scenario_threshold: "quorum_threshold test_committee = 3"
  by (simp add: quorum_threshold_def test_committee_authorities)

lemma scenario_blocks_verify:
  "i \<in> {1, 2, 3} \<Longrightarrow> block_verify scenario_dalek test_committee (scenario_block i) = Inr ()"
  by (auto simp: block_verify_def scenario_block_def test_stake qc_eq_def qc_verify_def scenario_qc_def
      scenario_threshold)

lemma scenario_leaders:
  "get_leader test_committee 1 = Some (test_key 2)" "get_leader test_committee 2 = Some (test_key 3)"
  "get_leader test_committee 3 = Some (test_key 4)" "get_leader test_committee 4 = Some (test_key 1)"
  by (simp_all add: get_leader_def test_committee_authorities committee_size_def test_key_def
      less_eq_public_key_def)

lemma scenario_bincode [simp]:
  "i \<in> {1, 2, 3} \<Longrightarrow> ser_block (scenario_env k) (scenario_block i) = Some [i]"
  "i \<in> {1, 2, 3} \<Longrightarrow> de_block (scenario_env k) [i] = Ok (scenario_block i)"
  by (auto simp: scenario_env_def scenario_block_def)

section \<open>The run\<close>

lemma scenario_addresses:
  "address test_committee (test_key 3) = Some ([127, 0, 0, 1], 3)"
  "address test_committee (test_key 4) = Some ([127, 0, 0, 1], 4)"
  "address test_committee (test_key 1) = Some ([127, 0, 0, 1], 1)"
  by (simp_all add: address_def test_committee_authorities test_key_def)

lemma scenario_chain:
  "block_round (scenario_block i) = ucast i" "block_author (scenario_block i) = test_key (i + 1)"
  "block_tc (scenario_block i) = None" "block_payload (scenario_block i) = []"
  "block_qc (scenario_block i) = (if i = 1 then qc_genesis else scenario_qc (i - 1))"
  "parent (scenario_block i) = (if i = 1 then digest_default else scenario_digest (i - 1))"
  by (simp_all add: scenario_block_def parent_def qc_genesis_def scenario_qc_def)

lemma scenario_qcs:
  "qc_round (scenario_qc i) = ucast i" "qc_hash (scenario_qc i) = scenario_digest i"
  "qc_round qc_genesis = 0" "qc_eq qc_genesis qc_genesis" "i \<in> {1, 2, 3} \<Longrightarrow> \<not> qc_eq (scenario_qc i) qc_genesis"
  by (auto simp: scenario_qc_def qc_genesis_def qc_eq_def scenario_digest_def digest_default_def)

definition scenario_vote :: "u8 \<Rightarrow> public_key \<Rightarrow> vote" where
  "scenario_vote i k = \<lparr>vote_hash = scenario_digest i, vote_round = ucast i, vote_author = k,
     vote_signature = signature_default\<rparr>"

lemma scenario_sign: "signature_new scenario_dalek d sk = Some signature_default"
  by (simp add: signature_new_def scenario_dalek_def lax_dalek_def signature_default_def)

lemma scenario_votes:
  "i \<in> {1, 2, 3} \<Longrightarrow> vote_new scenario_dalek (scenario_block i) k sk = Some (scenario_vote i k)"
  "j \<in> {1, 2, 3} \<Longrightarrow> vote_verify scenario_dalek test_committee (scenario_vote i (test_key j)) = Inr ()"
  "vote_round (scenario_vote i k') = ucast i" "vote_author (scenario_vote i k') = k'"
  "vote_hash (scenario_vote i k') = scenario_digest i"
  by (auto simp: vote_new_def Let_def scenario_digests scenario_chain request_signature_def
      scenario_sign scenario_vote_def vote_verify_def test_stake)

lemma scenario_store:
  "store_read map_rocksdb k (store_write map_rocksdb k' v st) = (if k = k' then Inr (Some v) else store_read map_rocksdb k st)"
  "store_read map_rocksdb k (store_new Map.empty) = Inr None"
  "store_write_replies map_rocksdb k v (store_new d) = []"
  "store_write_replies map_rocksdb k v (store_write map_rocksdb k1 v1 (store_new d)) = []"
  "store_write_replies map_rocksdb k v (store_write map_rocksdb k1 v1 (store_write map_rocksdb k2 v2 (store_new d))) = []"
  using st.read_write_if [OF map_rocksdb_ok, of k k' v st]
  by (auto simp: store_read_def store_write_def store_write_replies_def store_new_def map_rocksdb_def Let_def)

lemma scenario_digest_eq: "digest_bytes (scenario_digest i) = digest_bytes (scenario_digest j) \<longleftrightarrow> i = j"
  by (simp add: scenario_digest_def)

lemma genesis_fields:
  "block_qc block_genesis = qc_genesis" "block_round block_genesis = 0" "block_payload block_genesis = []"
  by (simp_all add: block_genesis_def)

lemma collect_ancestors_done:
  "\<not> last_committed + 1 < block_round par \<Longrightarrow> collect_ancestors E last_committed par bs s = Some (Ok bs, s)"
  by (subst collect_ancestors.simps) simp

lemmas run_defs = bnd_def sq_def ret_def fail_def panic_def gets_def modify_def zoom_def lift_result_def
  expect_def emit_def ensure_def

lemmas core_defs = core_run_def boot_def core_new_def step_def handle_def handle_proposal_def
  leader_def propose_if_leader_def process_qc_def advance_round_def update_high_qc_def generate_proposal_def
  process_block_def get_ancestors_def get_parent_block_def mempool_verify_def store_block_def read_store_def
  write_store_def cleanup_proposer_def commit_two_chain_def vote_for_block_def make_vote_def safety_rule_2_def
  increase_last_voted_round_def send_vote_def handle_vote_def commit_def walk_ancestors_def mempool_cleanup_def
  net_send_def deserialize_def

definition logged :: "effect \<Rightarrow> bool" where
  "logged e \<longleftrightarrow> (case e of Signed_vote _ _ \<Rightarrow> True | Signed_timeout _ \<Rightarrow> True | To_commit _ \<Rightarrow> True | _ \<Rightarrow> False)"

definition scenario_node :: "public_key \<Rightarrow> (bytes, bytes \<rightharpoonup> bytes) node_run" where
  "scenario_node a = \<lparr>node_env = scenario_env (hd (public_key_bytes a)), node_timeout = 5000, node_boot = 0,
     node_store = store_new Map.empty, node_events = scenario_events\<rparr>"

lemmas scenario_eval = final_core_def scenario_node_def scenario_events_def scenario_digests
  scenario_leaders scenario_blocks_verify scenario_chain scenario_qcs scenario_votes scenario_store
  genesis_fields scenario_addresses run_defs core_defs collect_ancestors_done scenario_digest_eq
  add_vote_def qc_maker_append_def or_new_def aggregator_new_def cleanup_def Let_def vote_digest_def
  qc_maker_new_def scenario_threshold test_stake map_err_def

lemma scenario_run:
  assumes "k \<in> {1, 2, 3}"
  shows "case core_run (scenario_env k) 5000 0 (store_new Map.empty) scenario_events of (r, s) \<Rightarrow>
    r = Ok () \<and> filter logged (out s) =
    [Signed_vote (scenario_block 1) (scenario_vote 1 (test_key k)),
     Signed_vote (scenario_block 2) (scenario_vote 2 (test_key k)), To_commit (scenario_block 1),
     Signed_vote (scenario_block 3) (scenario_vote 3 (test_key k))]"
  using assms by (elim insertE emptyE; simp add: scenario_eval logged_def)

lemma scenario_final: "final_core (scenario_node (test_key k)) =
    snd (core_run (scenario_env k) 5000 0 (store_new Map.empty) scenario_events)"
  by (simp add: final_core_def scenario_node_def test_key_def)

lemma scenario_log:
  assumes "k \<in> {1, 2, 3}"
  shows "filter logged (out (final_core (scenario_node (test_key k)))) =
    [Signed_vote (scenario_block 1) (scenario_vote 1 (test_key k)),
     Signed_vote (scenario_block 2) (scenario_vote 2 (test_key k)), To_commit (scenario_block 1),
     Signed_vote (scenario_block 3) (scenario_vote 3 (test_key k))]"
  using scenario_run [OF assms] unfolding scenario_final by (simp split: prod.splits)

section \<open>The system of the scenario\<close>

definition scenario_signed :: signed where
  "scenario_signed a m \<longleftrightarrow> m \<in> (\<lambda>i. block_preimage (scenario_block i)) ` {1, 2, 3}
     \<union> (\<lambda>i. vote_preimage (scenario_digest i) (ucast i)) ` {1, 2, 3}"

lemma scenario_log_parts:
  assumes "k \<in> {1, 2, 3}"
  shows "Signed_timeout t \<notin> set (out (final_core (scenario_node (test_key k))))"
    and "Signed_vote b v \<in> set (out (final_core (scenario_node (test_key k)))) \<longleftrightarrow>
      (\<exists>i\<in>{1, 2, 3}. b = scenario_block i \<and> v = scenario_vote i (test_key k))"
    and "To_commit b \<in> set (out (final_core (scenario_node (test_key k)))) \<longleftrightarrow> b = scenario_block 1"
proof -
  let ?es = "out (final_core (scenario_node (test_key k)))"
  have iff: "e \<in> set ?es \<longleftrightarrow> e \<in> set (filter logged ?es)" if "logged e" for e
    using that by simp
  show "Signed_timeout t \<notin> set ?es"
    using iff [of "Signed_timeout t"] unfolding scenario_log [OF assms] by (simp add: logged_def)
  show "Signed_vote b v \<in> set ?es \<longleftrightarrow>
      (\<exists>i\<in>{1, 2, 3}. b = scenario_block i \<and> v = scenario_vote i (test_key k))"
    using iff [of "Signed_vote b v"] unfolding scenario_log [OF assms] by (simp add: logged_def)
  show "To_commit b \<in> set ?es \<longleftrightarrow> b = scenario_block 1"
    using iff [of "To_commit b"] unfolding scenario_log [OF assms] by (simp add: logged_def)
qed

lemma scenario_collision_free: "collision_free scenario_dalek scenario_signed"
proof -
  define decode where "decode d = (let i = digest_bytes d ! 1 in
    if digest_bytes d ! 0 = 72 then block_preimage (scenario_block i)
    else vote_preimage (scenario_digest i) (ucast i))" for d
  have "hash32 scenario_dalek (block_preimage (scenario_block i)) = scenario_digest i" if "i \<in> {1, 2, 3}" for i
    using that scenario_digests(1) by (simp add: block_digest_def)
  then have m: "decode (hash32 scenario_dalek m) = m \<and> digest_bytes (hash32 scenario_dalek m) ! 0 \<noteq> 0"
    if "scenario_signed a m" for a m
    using that scenario_digests(2) by (fastforce simp: scenario_signed_def decode_def scenario_digest_def Let_def)
  show ?thesis
    unfolding collision_free_def
  proof (intro conjI allI impI notI)
    show "n = n'" if "scenario_signed a n" "scenario_signed a' n'" "hash32 scenario_dalek n = hash32 scenario_dalek n'"
      for a a' n n' using that m by metis
    show False if "scenario_signed a n" "hash32 scenario_dalek n = digest_default" for a n
      using that m [of a n] by (simp add: digest_default_def)
  qed
qed

lemma scenario_trusted: "trusted (scenario_env k) scenario_signed"
  by (auto simp: trusted_def test_committee_ok map_rocksdb_ok bincode_ok_def sha512_ok_def scenario_collision_free)
    (auto simp: scenario_env_def scenario_dalek_def Let_def split: if_splits)

lemma scenario_signs:
  "i \<in> {1, 2, 3} \<Longrightarrow> scenario_signed a (block_preimage (scenario_block i))"
  "i \<in> {1, 2, 3} \<Longrightarrow> scenario_signed a (vote_preimage (scenario_digest i) (ucast i))"
  by (auto simp: scenario_signed_def)

lemma scenario_wf: "digest_wf (scenario_digest i)" "block_wf (scenario_block i)"
  by (auto simp: digest_wf_def scenario_digest_def block_wf_def scenario_block_def public_key_wf_def test_key_def
      qc_genesis_def digest_default_def scenario_qc_def)

lemma scenario_round: "i \<in> {1, 2, 3} \<Longrightarrow> (ucast (i :: u8) :: u64) < - 1"
  by (auto simp: order_less_le)

lemma scenario_genuine:
  assumes "i \<in> {1, 2, 3}"
  shows "genuine_message scenario_dalek test_committee scenario_signed (Propose (scenario_block i))"
proof -
  have "genuine_qc scenario_dalek test_committee scenario_signed (block_qc (scenario_block i))" if "i \<noteq> 1"
  proof -
    have "i - 1 \<in> {1, 2, 3}" using assms that by auto
    from scenario_signs(2) [OF this] scenario_round [OF this] that show ?thesis
      by (simp add: genuine_qc_def scenario_chain scenario_qcs scenario_wf)
  qed
  moreover have "genuine_qc scenario_dalek test_committee scenario_signed qc_genesis"
    by (simp add: genuine_qc_def qc_genesis_def digest_wf_def digest_default_def word_greater_zero_iff)
  ultimately show ?thesis
    using assms scenario_signs(1) [OF assms] scenario_wf(2) [of i]
    by (cases "i = 1") (simp_all add: scenario_chain del: insert_iff)
qed

lemma events_ok_messages:
  assumes "\<forall>(now, ev)\<in>set evs. \<exists>m. ev = Message m \<and> for_core m \<and> genuine_message (dalek E) (my_committee E) sg m"
  shows "events_ok E sg evs s"
  using assms by (induction evs arbitrary: s) (auto split: prod.split outcome.split)

lemma scenario_honest:
  assumes "k \<in> {1, 2, 3}"
  shows "honest_node scenario_dalek test_committee scenario_signed (test_key k) (scenario_node (test_key k))"
proof -
  let ?r = "scenario_node (test_key k)"
  have key: "hd (public_key_bytes (test_key k)) = k"
    by (simp add: test_key_def)
  then have env: "node_env ?r = scenario_env k"
    by (simp add: scenario_node_def)
  have "events_ok (scenario_env k) scenario_signed scenario_events s" for s
    using scenario_genuine
    by (intro events_ok_messages) (auto simp: scenario_events_def for_core_def simp del: genuine_message.simps)
  then have ok: "run_ok (node_env ?r) scenario_signed (node_timeout ?r) (node_boot ?r) (node_store ?r) (node_events ?r)"
    by (auto simp: run_ok_def env scenario_node_def key scenario_store split: prod.split outcome.split)
  have votes: "signed_vote scenario_signed (scenario_vote i (test_key k))" if "i \<in> {1, 2, 3}" for i
    using scenario_signs(2) [OF that] scenario_round [OF that] by (simp add: signed_vote_def scenario_votes scenario_wf)
  then have "logged_within (node_env ?r) scenario_signed (final_core ?r)"
    by (auto simp: logged_within_def scenario_log_parts [OF assms] simp del: insert_iff)
  moreover have "made_by (out (final_core ?r)) m" if "scenario_signed a m" for a m
    using that unfolding scenario_signed_def
  proof (elim UnE imageE)
    fix i assume "m = block_preimage (scenario_block i)"
    then show ?thesis using scenario_wf(2) [of i] unfolding made_by_def by blast
  next
    fix i :: u8 assume "m = vote_preimage (scenario_digest i) (ucast i)" and i: "i \<in> {1, 2, 3}"
    moreover have "Signed_vote (scenario_block i) (scenario_vote i (test_key k)) \<in> set (out (final_core ?r))"
      unfolding scenario_log_parts(2) [OF assms] using i by blast
    ultimately show ?thesis unfolding made_by_def scenario_votes(3,5) [of i "test_key k", symmetric] by blast
  qed
  ultimately show ?thesis
    using ok scenario_trusted by (simp add: honest_node_def env)
qed

lemma scenario_system:
  "correct_system scenario_dalek test_committee scenario_signed {test_key 4} scenario_node"
proof -
  have "names test_committee - {test_key 4} = test_key ` {1, 2, 3}"
    by (auto simp: names_def test_committee_authorities)
  then show ?thesis
    using scenario_honest by (auto simp: correct_system_def test_committee_ok weight_of_def test_stake
        test_committee_total simp del: insert_iff)
qed

text \<open>Two nodes of the scenario have committed the block of round 1.\<close>

theorem agreement_witness:
  "\<exists>b b'. To_commit b \<in> set (out (final_core (scenario_node (test_key 1))))
     \<and> To_commit b' \<in> set (out (final_core (scenario_node (test_key 3))))
     \<and> block_round b = 1 \<and> block_id scenario_dalek b = block_id scenario_dalek b'"
proof -
  have c: "To_commit (scenario_block 1) \<in> set (out (final_core (scenario_node (test_key 1))))"
    "To_commit (scenario_block 1) \<in> set (out (final_core (scenario_node (test_key 3))))"
    by (simp_all add: scenario_log_parts(3))
  have n: "test_key 1 \<in> names test_committee - {test_key 4}" "test_key 3 \<in> names test_committee - {test_key 4}"
    by (simp_all add: names_def test_committee_authorities)
  from agreement [OF scenario_system n c] c show ?thesis
    by (auto simp: scenario_chain intro!: exI [of _ "scenario_block 1"])
qed

end
