(* ===== verification/Core_Properties.thy ===== *)
theory Core_Properties
  imports Scenario
begin

text \<open>
  Properties of one node's core: what its state rests on after any run, and what \<open>Core::commit\<close> hands to the
  application, in which order, and that it returns. The blocks between the last committed round and the block
  committed are read back from the store, by the QCs they carry.
\<close>

section \<open>The walk up the parents\<close>

definition stored_parent :: "('k, 'db) env \<Rightarrow> 'db store \<Rightarrow> block \<Rightarrow> block \<Rightarrow> bool" where
  "stored_parent E st b p \<longleftrightarrow>
     (if qc_eq (block_qc b) qc_genesis then p = block_genesis
      else \<exists>v. store_read (rocksdb E) (digest_bytes (parent b)) st = Inr (Some v) \<and> de_block E v = Ok p)"

lemma get_parent_block_stored:
  "stored_parent E (my_store s) b p \<Longrightarrow> get_parent_block E b s = (Ok (Some p), s)"
  by (auto simp: stored_parent_def get_parent_block_def read_store_def deserialize_def run_defs map_err_def)

lemma get_parent_block_result:
  assumes "get_parent_block E b s = (Ok (Some p), s')"
  shows "s' = s \<and> stored_parent E (my_store s) b p"
  using assms
  by (auto simp: stored_parent_def get_parent_block_def read_store_def deserialize_def run_defs map_err_def
      split: if_splits sum.splits option.splits outcome.splits)

lemma collect_ancestors_run:
  assumes "ancestry (stored_parent E (my_store s)) b ps" and "\<forall>p\<in>set (butlast (b # ps)). lc + 1 < block_round p"
    and "\<not> lc + 1 < block_round (last (b # ps))"
  shows "collect_ancestors E lc b acc s = Some (Ok (rev ps @ acc), s)"
  using assms
proof (induction ps arbitrary: b acc)
  case Nil
  then show ?case by (simp add: collect_ancestors_done)
next
  case (Cons p ps)
  then have "get_parent_block E b s = (Ok (Some p), s)" by (simp add: get_parent_block_stored)
  moreover have "collect_ancestors E lc p (p # acc) s = Some (Ok (rev ps @ p # acc), s)"
    using Cons.prems by (intro Cons.IH) (auto split: if_splits)
  ultimately show ?case using Cons.prems(2) by (subst collect_ancestors.simps) simp
qed

text \<open>The blocks of a store, and a block next to it.\<close>

definition stored_block :: "('k, 'db) env \<Rightarrow> 'db store \<Rightarrow> block \<Rightarrow> bool" where
  "stored_block E st b \<longleftrightarrow> (\<exists>k v. store_read (rocksdb E) k st = Inr (Some v) \<and> de_block E v = Ok b)"

definition reads_return :: "('k, 'db) env \<Rightarrow> bool" where
  "reads_return E \<longleftrightarrow> (\<forall>v. de_block E v \<noteq> Diverge)"

lemma get_parent_block_no_diverge:
  assumes "reads_return E" and "get_parent_block E b s = (r, s')"
  shows "r \<noteq> Diverge"
  using assms
  by (auto simp: reads_return_def get_parent_block_def read_store_def deserialize_def run_defs map_err_def
      split: if_splits sum.splits option.splits outcome.splits)

lemma collect_ancestors_returns:
  assumes E: "reads_return E"
    and down: "\<And>b p. b = par \<or> stored_block E (my_store s) b \<Longrightarrow> stored_parent E (my_store s) b p \<Longrightarrow>
      block_round b \<noteq> 0 \<Longrightarrow> block_round p < block_round b"
  shows "\<exists>r s'. collect_ancestors E lc par acc s = Some (r, s') \<and> r \<noteq> Diverge"
  using down
proof (induction "unat (block_round par)" arbitrary: par acc rule: less_induct)
  case less
  show ?case
  proof (cases "lc + 1 < block_round par")
    case True
    then have pos: "block_round par \<noteq> 0" by auto
    obtain r s' where g: "get_parent_block E par s = (r, s')" by (cases "get_parent_block E par s")
    show ?thesis
    proof (cases "\<exists>p. r = Ok (Some p)")
      case r: True
      then obtain p where r: "r = Ok (Some p)" by blast
      note p = get_parent_block_result [OF g [unfolded r]]
      have lt: "block_round p < block_round par" using less.prems p pos by blast
      have "stored_block E (my_store s) p \<or> p = block_genesis"
        using p by (auto simp: stored_parent_def stored_block_def split: if_splits)
      then have walk: "\<exists>r s'. collect_ancestors E lc p (p # acc) s = Some (r, s') \<and> r \<noteq> Diverge"
      proof
        assume "stored_block E (my_store s) p"
        then show ?thesis using less.prems lt by (intro less.hyps) (auto simp: word_less_nat_alt)
      next
        assume "p = block_genesis"
        then have "\<not> lc + 1 < block_round p" by (simp add: genesis_fields)
        then show ?thesis by (simp add: collect_ancestors_done)
      qed
      then show ?thesis using True g p r by (subst collect_ancestors.simps) simp
    next
      case False
      then show ?thesis
        using True g get_parent_block_no_diverge [OF E g]
        by (subst collect_ancestors.simps) (auto split: outcome.split option.split)
    qed
  qed (simp add: collect_ancestors_done)
qed


section \<open>Properties\<close>

text \<open>
  C8. What the core knows is certified. After any run over messages with genuine signatures, the highest QC is
  signed by a quorum and below the current round; every block in the store lies under its own digest and was
  signed, with certificates that quorums signed; every block proposed on, voted for or committed rests on such
  certificates; and every block delivered is the head of a 2-chain or an ancestor of one.
\<close>

theorem core_state_certified:
  assumes "trusted E sg" and "run_ok E sg ms now st evs"
    and "logged_within E sg (snd (core_run E ms now st evs))"
    and s: "s = snd (core_run E ms now st evs)"
  shows "qc_attested (my_committee E) sg (high_qc s) \<and> qc_round (high_qc s) < cur_round s
    \<and> (\<forall>k v b. store_read (rocksdb E) k (my_store s) = Inr (Some v) \<longrightarrow> de_block E v = Ok b \<longrightarrow>
        k = digest_bytes (block_digest (dalek E) b) \<and> block_attested (my_committee E) sg b)
    \<and> (\<forall>r q t. To_proposer (Make r q t) \<in> set (out s) \<longrightarrow> qc_attested (my_committee E) sg q)
    \<and> (\<forall>b v. Signed_vote b v \<in> set (out s) \<longrightarrow> votable (my_committee E) sg b)
    \<and> (\<forall>b. To_commit b \<in> set (out s) \<longrightarrow> committable (dalek E) (my_committee E) sg b)"
  using core_run_inv [OF assms(1-3)]
  unfolding core_inv_def log_inv_def blocks_inv_def s [symmetric] by (force dest: bspec)

theorem core_state_certified_witness:
  "high_qc (final_core (scenario_node (test_key 2))) = scenario_qc 2
    \<and> qc_attested test_committee scenario_signed (scenario_qc 2)"
proof -
  let ?r = "scenario_node (test_key 2)"
  have n: "honest_node scenario_dalek test_committee scenario_signed (test_key 2) ?r"
    by (rule scenario_honest) simp
  have key: "hd (public_key_bytes (test_key 2)) = 2" by (simp add: test_key_def)
  then have q: "high_qc (final_core ?r) = scenario_qc 2"
    using key by (simp add: scenario_eval)
  show ?thesis
    using core_state_certified [of "node_env ?r" scenario_signed "node_timeout ?r" "node_boot ?r" "node_store ?r"
        "node_events ?r" "final_core ?r"] n q
    by (simp add: honest_node_def final_core_def)
qed

text \<open>
  C13. What \<open>commit\<close> delivers. When the chain of parents \<open>ps\<close> of the block, read from the store, reaches down
  to the first one at most one round above the last committed round, the call returns, records the round of the
  block and delivers every one of them once: the parent first, then the grandparent and so on, and the block
  itself last. A block that is not above the last committed round is not delivered and changes nothing.
\<close>

theorem commit_delivers:
  assumes "last_committed_round s < block_round b"
    and "ancestry (stored_parent E (my_store s)) b ps"
    and "\<forall>p\<in>set (butlast (b # ps)). last_committed_round s + 1 < block_round p"
    and "\<not> last_committed_round s + 1 < block_round (last (b # ps))"
  shows "commit E b s = (Ok (), s\<lparr>last_committed_round := block_round b, out := out s @ map To_commit (ps @ [b])\<rparr>)
    \<and> (\<forall>b'. block_round b' \<le> last_committed_round s \<longrightarrow> commit E b' s = (Ok (), s))"
  using assms collect_ancestors_run [OF assms(2-4), of "[]"]
  by (simp add: commit_def walk_ancestors_def run_defs Let_def)

text \<open>
  C14. \<open>commit\<close> returns. When deserialization returns and every block of the store, and the block committed, is
  above its stored parent in round, the walk up the parents ends, with a value, an error or a panic.
\<close>

theorem commit_terminates:
  assumes "\<forall>v. de_block E v \<noteq> Diverge"
    and "\<forall>b' p. b' = b \<or> stored_block E (my_store s) b' \<longrightarrow> stored_parent E (my_store s) b' p \<longrightarrow>
      block_round b' \<noteq> 0 \<longrightarrow> block_round p < block_round b'"
  shows "fst (commit E b s) \<noteq> Diverge"
proof -
  obtain r s' where "collect_ancestors E (last_committed_round s) b [] s = Some (r, s')" "r \<noteq> Diverge"
    using collect_ancestors_returns [of E b s "last_committed_round s" "[]"] assms
    by (auto simp: reads_return_def)
  then show ?thesis
    by (cases r) (auto simp: commit_def walk_ancestors_def run_defs Let_def)
qed

text \<open>
  A block is delivered again. When a round was skipped and the parent of the block to commit is the block
  committed last, the walk does not stop at it: the application receives that parent a second time, before the
  new block.
\<close>

theorem commit_redelivers:
  assumes "stored_parent E (my_store s) b p" and "block_round p = last_committed_round s"
    and "last_committed_round s < last_committed_round s + 1" and "last_committed_round s + 1 < block_round b"
  shows "commit E b s
    = (Ok (), s\<lparr>last_committed_round := block_round b, out := out s @ [To_commit p, To_commit b]\<rparr>)"
  using assms collect_ancestors_run [of E s b "[p]" "last_committed_round s" "[]"]
  by (simp add: commit_def walk_ancestors_def run_defs Let_def)

text \<open>A chain with rounds 1, 3 and 5, every second round having timed out, in the store of a core.\<close>

definition gap_block :: "u8 \<Rightarrow> block" where
  "gap_block r = \<lparr>block_qc = (if r = 1 then qc_genesis else \<lparr>qc_hash = scenario_digest (r - 2), qc_round = ucast r - 2, qc_votes = []\<rparr>),
     block_tc = None, block_author = test_key 1, block_round = ucast r, block_payload = [],
     block_signature = signature_default\<rparr>"

definition gap_env :: "(bytes, bytes \<rightharpoonup> bytes) env" where
  "gap_env = (scenario_env 1)\<lparr>de_block := \<lambda>v. Ok (gap_block (hd v))\<rparr>"

definition gap_core :: "u64 \<Rightarrow> (bytes \<rightharpoonup> bytes) core" where
  "gap_core last_committed = (core_new gap_env 5000 0 (store_new
     [digest_bytes (scenario_digest 1) \<mapsto> [1], digest_bytes (scenario_digest 3) \<mapsto> [3]]))
       \<lparr>last_committed_round := last_committed\<rparr>"

lemma gap_core_simps:
  "rocksdb gap_env = map_rocksdb" "de_block gap_env v = Ok (gap_block (hd v))"
  "my_store (gap_core r) = store_new [digest_bytes (scenario_digest 1) \<mapsto> [1], digest_bytes (scenario_digest 3) \<mapsto> [3]]"
  "last_committed_round (gap_core r) = r" "out (gap_core r) = []"
  by (simp_all add: gap_env_def gap_core_def core_new_def)

lemma gap_block_round: "block_round (gap_block r) = ucast r"
  by (simp add: gap_block_def)

lemma gap_parents:
  "stored_parent gap_env (my_store (gap_core r)) (gap_block 3) (gap_block 1)"
  "stored_parent gap_env (my_store (gap_core r)) (gap_block 5) (gap_block 3)"
  by (simp_all add: stored_parent_def gap_core_simps gap_block_def qc_eq_def qc_genesis_def parent_def
      store_read_def map_rocksdb_def store_new_def scenario_digest_def)

theorem commit_delivers_witness:
  "out (snd (commit gap_env (gap_block 5) (gap_core 0))) = map To_commit [gap_block 3, gap_block 1, gap_block 5]"
  using commit_delivers [of "gap_core 0" "gap_block 5" gap_env "[gap_block 3, gap_block 1]"]
  by (simp add: gap_parents [unfolded gap_core_simps] gap_core_simps gap_block_round)

theorem commit_redelivers_witness:
  "out (snd (commit gap_env (gap_block 3) (gap_core 1))) = [To_commit (gap_block 1), To_commit (gap_block 3)]"
  using commit_redelivers [of gap_env "gap_core 1" "gap_block 3" "gap_block 1"]
  by (simp add: gap_parents [unfolded gap_core_simps] gap_core_simps gap_block_round)

theorem commit_terminates_witness: "fst (commit gap_env (gap_block 5) (gap_core 0)) \<noteq> Diverge"
proof (rule commit_terminates)
  have down: "block_round p < block_round b"
    if b: "b \<in> {gap_block 1, gap_block 3, gap_block 5}" and p: "stored_parent gap_env (my_store (gap_core 0)) b p" for b p
    using b p
    by (auto simp: stored_parent_def gap_core_simps gap_block_def qc_eq_def qc_genesis_def parent_def genesis_fields
        store_read_def map_rocksdb_def store_new_def scenario_digest_def digest_default_def split: if_splits)
  have "b \<in> {gap_block 1, gap_block 3, gap_block 5}"
    if "b = gap_block 5 \<or> stored_block gap_env (my_store (gap_core 0)) b" for b
    using that by (auto simp: stored_block_def gap_core_simps store_read_def map_rocksdb_def store_new_def split: if_splits)
  with down show "\<forall>b p. b = gap_block 5 \<or> stored_block gap_env (my_store (gap_core 0)) b \<longrightarrow>
    stored_parent gap_env (my_store (gap_core 0)) b p \<longrightarrow> block_round b \<noteq> 0 \<longrightarrow> block_round p < block_round b"
    by blast
qed (simp add: gap_core_simps)

end
