(* ===== verification/Tasks.thy ===== *)
theory Tasks
  imports Prelude
begin

text \<open>
  What the background tasks share: the loop over the events that \<open>tokio::select!\<close> may pick, in any order,
  and the collections of futures (\<open>FuturesUnordered\<close>) that complete in any order, kept as lists from which any
  element may be taken.
\<close>

section \<open>Loops\<close>

text \<open>A task handles one event after the other, until it panics.\<close>

primrec run_all :: "('i \<Rightarrow> ('s, 'e, unit) proc) \<Rightarrow> 'i list \<Rightarrow> ('s, 'e, unit) proc" where
  "run_all h [] = ret ()"
| "run_all h (x # xs) = sq (h x) (run_all h xs)"

lemma run_all_inv:
  assumes "\<And>x s r t. x \<in> set xs \<Longrightarrow> I s \<Longrightarrow> h x s = (r, t) \<Longrightarrow> I t"
  shows "I s \<Longrightarrow> I (snd (run_all h xs s))"
  using assms
proof (induction xs arbitrary: s)
  case (Cons x xs)
  obtain r t where h: "h x s = (r, t)" by (cases "h x s")
  have t: "I t" by (rule Cons.prems(2) [OF _ Cons.prems(1) h]) simp
  have "I (snd (run_all h xs t))"
    by (rule Cons.IH [OF t]) (rule Cons.prems(2), auto)
  with t h show ?case by (cases r) (simp_all add: run_sq)
qed (simp add: ret_def)

text \<open>The same with the events handled so far in view; a panic leaves the rest of them unhandled.\<close>

lemma run_all_trace:
  assumes "\<And>ys x s r t. I ys s \<Longrightarrow> h x s = (r, t) \<Longrightarrow> I (ys @ [x]) t"
  shows "I ys s \<Longrightarrow> \<exists>zs rest. xs = zs @ rest \<and> I (ys @ zs) (snd (run_all h xs s))
    \<and> (fst (run_all h xs s) = Ok () \<longrightarrow> rest = [])"
proof (induction xs arbitrary: ys s)
  case (Cons x xs)
  obtain r t where h: "h x s = (r, t)" by (cases "h x s")
  have t: "I (ys @ [x]) t" by (rule assms [OF Cons.prems h])
  show ?case
  proof (cases "r = Ok ()")
    case True
    obtain zs rest where "xs = zs @ rest" "I ((ys @ [x]) @ zs) (snd (run_all h xs t))"
      "fst (run_all h xs t) = Ok () \<longrightarrow> rest = []"
      using Cons.IH [OF t] by blast
    then show ?thesis using True h by (intro exI [of _ "x # zs"] exI [of _ rest]) (simp add: run_sq)
  next
    case False
    then show ?thesis
      using t h by (intro exI [of _ "[x]"] exI [of _ xs]) (cases r, simp_all add: run_sq)
  qed
qed (simp add: ret_def)

lemma run_all_inputs:
  assumes step: "\<And>ys x s r t. I ys s \<Longrightarrow> h x s = (r, t) \<Longrightarrow> I (ys @ [x]) t"
    and more: "\<And>ys zs s. I ys s \<Longrightarrow> I (ys @ zs) s" and start: "I [] s"
  shows "I xs (snd (run_all h xs s))"
proof -
  have "\<exists>zs rest. xs = zs @ rest \<and> I ([] @ zs) (snd (run_all h xs s)) \<and> (fst (run_all h xs s) = Ok () \<longrightarrow> rest = [])"
  proof (rule run_all_trace [of I h])
    show "I ys s \<Longrightarrow> h x s = (r, t) \<Longrightarrow> I (ys @ [x]) t" for ys x s r t by (rule step)
  qed (rule start)
  then obtain zs rest where "xs = zs @ rest" "I zs (snd (run_all h xs s))" by auto
  with more show ?thesis by blast
qed

lemma run_all_append: "run_all h (xs @ ys) = sq (run_all h xs) (run_all h ys)"
  by (induction xs) (simp_all add: fun_eq_iff sq_def bnd_def ret_def split: prod.split outcome.split)

lemma run_all_total:
  assumes "\<And>x s. fst (h x s) = Ok ()"
  shows "run_all h xs s = (Ok (), fold (\<lambda>x s. snd (h x s)) xs s)"
proof (induction xs arbitrary: s)
  case (Cons x xs)
  have "h x s = (Ok (), snd (h x s))" using assms [of x s] by (cases "h x s") simp
  with Cons show ?case by (simp add: run_sq)
qed (simp add: ret_def)

lemma run_all_total_inv:
  assumes total: "\<And>x s. fst (h x s) = Ok ()"
    and step: "\<And>ys x s r t. I ys s \<Longrightarrow> h x s = (r, t) \<Longrightarrow> I (ys @ [x]) t" and start: "I [] s"
  shows "fst (run_all h xs s) = Ok ()" and "I xs (snd (run_all h xs s))"
proof -
  show ok: "fst (run_all h xs s) = Ok ()" by (simp add: run_all_total [of h, OF total])
  have "\<exists>zs rest. xs = zs @ rest \<and> I ([] @ zs) (snd (run_all h xs s)) \<and> (fst (run_all h xs s) = Ok () \<longrightarrow> rest = [])"
  proof (rule run_all_trace [of I h])
    show "I ys s \<Longrightarrow> h x s = (r, t) \<Longrightarrow> I (ys @ [x]) t" for ys x s r t by (rule step)
  qed (rule start)
  with ok show "I xs (snd (run_all h xs s))" by auto
qed

section \<open>Taking one element of a list\<close>

definition remove_at :: "nat \<Rightarrow> 'a list \<Rightarrow> 'a list" where
  "remove_at i xs = take i xs @ drop (Suc i) xs"

lemma remove_at_split: "i < length xs \<Longrightarrow> xs = take i xs @ xs ! i # drop (Suc i) xs"
  by (rule id_take_nth_drop)

lemma set_remove_at: "i < length xs \<Longrightarrow> set xs = insert (xs ! i) (set (remove_at i xs))"
  by (subst remove_at_split [of i xs]) (auto simp: remove_at_def)

lemma remove_at_subset: "set (remove_at i xs) \<subseteq> set xs"
  by (auto simp: remove_at_def dest: in_set_takeD in_set_dropD)

lemma map_remove_at: "map f (remove_at i xs) = remove_at i (map f xs)"
  by (simp add: remove_at_def take_map drop_map)

lemma distinct_remove_at: "distinct xs \<Longrightarrow> distinct (remove_at i xs)"
  by (auto simp: remove_at_def set_take_disj_set_drop_if_distinct)

lemma distinct_map_remove_at:
  assumes "distinct (map f xs)" and "i < length xs"
  shows "f (xs ! i) \<notin> f ` set (remove_at i xs)" and "distinct (map f (remove_at i xs))"
    and "f ` set (remove_at i xs) = f ` set xs - {f (xs ! i)}"
proof -
  have "distinct (map f (take i xs @ xs ! i # drop (Suc i) xs))"
    using assms remove_at_split [of i xs] by simp
  then show fresh: "f (xs ! i) \<notin> f ` set (remove_at i xs)" and "distinct (map f (remove_at i xs))"
    by (auto simp: remove_at_def)
  show "f ` set (remove_at i xs) = f ` set xs - {f (xs ! i)}"
    unfolding set_remove_at [OF assms(2)] using fresh by auto
qed

lemma count_remove_at:
  "i < length xs \<Longrightarrow> count_list xs x = (if xs ! i = x then 1 else 0) + count_list (remove_at i xs) x"
  by (subst remove_at_split [of i xs]) (simp_all add: remove_at_def)

lemma length_remove_at: "i < length xs \<Longrightarrow> length (remove_at i xs) = length xs - 1"
  by (simp add: remove_at_def)

section \<open>Maps with an order\<close>

text \<open>\<open>HashMap\<close>s that the code iterates over are lists of pairs, their order standing for that of the iteration.\<close>

lemma map_of_update: "map_of (AList.update k v xs) = (map_of xs)(k \<mapsto> v)"
  by (rule update_conv')

lemma map_of_delete: "map_of (AList.delete k xs) = (map_of xs)(k := None)"
  by (simp add: delete_conv' fun_eq_iff)

lemma keys_update: "fst ` set (AList.update k v xs) = insert k (fst ` set xs)"
  by (simp add: dom_update)

lemma keys_delete: "fst ` set (AList.delete k xs) = fst ` set xs - {k}"
  using arg_cong [OF delete_keys [of k xs], of set] by simp

lemma update_new: "k \<notin> fst ` set xs \<Longrightarrow> AList.update k v xs = xs @ [(k, v)]"
  by (induction xs) auto

lemma set_delete: "set (AList.delete k xs) = {x \<in> set xs. fst x \<noteq> k}"
  by (induction xs) auto

section \<open>Logs\<close>

text \<open>What a log has gained.\<close>

definition gained :: "'e list \<Rightarrow> 'e list \<Rightarrow> 'e list" where
  "gained es es' = drop (length es) es'"

lemma gained_append [simp]: "gained es (es @ es') = es'"
  by (simp add: gained_def)

lemma gained_simps [simp]: "gained es es = []" "gained [] es = es"
  by (simp_all add: gained_def)

text \<open>A field that no single effect changes is not changed by a list of them.\<close>

lemma fold_field: "(\<And>e n. f (g e n) = f n) \<Longrightarrow> f (fold g es n) = f n"
  by (induction es arbitrary: n) simp_all

text \<open>Two lists interleaved, when one of them gets longer.\<close>

lemma in_shuffles_cases:
  assumes "z # zs \<in> shuffles xs ys"
  obtains (left) xs' where "xs = z # xs'" "zs \<in> shuffles xs' ys" | (right) ys' where "ys = z # ys'" "zs \<in> shuffles xs ys'"
  using assms by (auto simp: Cons_in_shuffles_iff neq_Nil_conv)

lemma shuffles_snoc_left: "zs \<in> shuffles xs ys \<Longrightarrow> zs @ [x] \<in> shuffles (xs @ [x]) ys"
proof (induction zs arbitrary: xs ys)
  case (Cons z zs)
  from Cons.prems show ?case
    by (cases rule: in_shuffles_cases) (simp_all add: Cons.IH Cons_in_shuffles_leftI Cons_in_shuffles_rightI)
qed (simp add: Cons_in_shuffles_iff)

lemma shuffles_snoc_right: "zs \<in> shuffles xs ys \<Longrightarrow> zs @ [x] \<in> shuffles xs (ys @ [x])"
  using shuffles_snoc_left [of zs ys xs] by (simp add: shuffles_commutes [of xs])

lemma shuffles_map: "zs \<in> shuffles xs ys \<Longrightarrow> map f zs \<in> shuffles (map f xs) (map f ys)"
proof (induction zs arbitrary: xs ys)
  case (Cons z zs)
  from Cons.prems show ?case
    by (cases rule: in_shuffles_cases) (simp_all add: Cons.IH Cons_in_shuffles_leftI Cons_in_shuffles_rightI)
qed simp

end
