(* ===== verification/Block_Synchronizer.thy ===== *)
theory Block_Synchronizer
  imports Synchronizer Tasks
begin

text \<open>
  The task of \<open>consensus/src/synchronizer.rs\<close> (\<open>Synchronizer::new\<close>): it takes the blocks whose parent the
  core has not found, asks other nodes for the parent, and gives a block back once the parent is in the store.
  The futures in \<open>waiting\<close> are the blocks they deliver: the one for block \<open>b\<close> resolves when \<open>notify_read\<close> on
  the parent of \<open>b\<close> does, that is when the store has the parent.
\<close>

section \<open>The task\<close>

record 'db sync_task = "'db world" +
  sync_pending :: "digest set"
  sync_waiting :: "block list"
  sync_requests :: "(digest \<times> u128) list"

type_synonym ('db, 'a) sync_proc = "('db sync_task, consensus_error, 'a) proc"

definition sync_new :: "'db store \<Rightarrow> 'db sync_task" where
  "sync_new st = \<lparr>my_store = st, out = [], sync_pending = {}, sync_waiting = [], sync_requests = []\<rparr>"

text \<open>The branch \<open>Some(block) = rx_inner.recv()\<close>, at the system time \<open>now\<close> in milliseconds.\<close>

definition sync_request :: "('k, 'db) env \<Rightarrow> u128 \<Rightarrow> block \<Rightarrow> ('db, unit) sync_proc" where
  "sync_request E now b =
     bnd (gets (\<lambda>s. block_digest (dalek E) b \<in> sync_pending s)) (\<lambda>known.
     if known then ret ()
     else sq (modify (\<lambda>s. s\<lparr>sync_pending := insert (block_digest (dalek E) b) (sync_pending s),
            sync_waiting := sync_waiting s @ [b]\<rparr>))
       (bnd (gets (\<lambda>s. parent b \<in> fst ` set (sync_requests s))) (\<lambda>requested.
        if requested then ret ()
        else sq (modify (\<lambda>s. s\<lparr>sync_requests := AList.update (parent b) now (sync_requests s)\<rparr>))
          (bnd (expect ''Author of valid block is not in the committee''
                  (address (my_committee E) (block_author b))) (\<lambda>a.
           bnd (expect ''Failed to serialize sync request''
                  (ser_msg E (SyncRequest (parent b) (my_name E)))) (\<lambda>message.
           net_send a message))))))"

text \<open>
  The branch \<open>Some(result) = waiting.next()\<close>, for the future at position \<open>i\<close>; it is not ready while the
  parent is missing.
\<close>

definition sync_ready :: "('k, 'db) env \<Rightarrow> nat \<Rightarrow> ('db, unit) sync_proc" where
  "sync_ready E i =
     bnd (gets (\<lambda>s. if i < length (sync_waiting s) then Some (sync_waiting s ! i) else None)) (\<lambda>f.
     case f of
       None \<Rightarrow> ret ()
     | Some b \<Rightarrow>
         bnd (gets (\<lambda>s. store_read (rocksdb E) (digest_bytes (parent b)) (my_store s))) (\<lambda>result.
         case result of
           Inr None \<Rightarrow> ret ()
         | Inr (Some _) \<Rightarrow>
             sq (modify (\<lambda>s. s\<lparr>sync_waiting := remove_at i (sync_waiting s),
                   sync_pending := sync_pending s - {block_digest (dalek E) b},
                   sync_requests := AList.delete (parent b) (sync_requests s)\<rparr>))
               (emit [To_loopback b])
         | Inl e \<Rightarrow> modify (\<lambda>s. s\<lparr>sync_waiting := remove_at i (sync_waiting s)\<rparr>)))"

text \<open>The branch of the timer: the requests that are overdue go to every other authority.\<close>

primrec sync_retry ::
    "('k, 'db) env \<Rightarrow> u64 \<Rightarrow> u128 \<Rightarrow> (digest \<times> u128) list \<Rightarrow> ('db, unit) sync_proc" where
  "sync_retry E delay now [] = ret ()"
| "sync_retry E delay now (request # requests) =
     (case request of (d, timestamp) \<Rightarrow>
        sq (if timestamp + ucast delay < now
            then bnd (expect ''Failed to serialize sync request'' (ser_msg E (SyncRequest d (my_name E)))) (\<lambda>message.
                   net_broadcast (map snd (broadcast_addresses (my_committee E) (my_name E))) message)
            else ret ())
          (sync_retry E delay now requests))"

definition sync_timer :: "('k, 'db) env \<Rightarrow> u64 \<Rightarrow> u128 \<Rightarrow> ('db, unit) sync_proc" where
  "sync_timer E delay now = bnd (gets sync_requests) (sync_retry E delay now)"

text \<open>One turn of the loop; \<open>Sync_write\<close> is a write of another task to the shared store.\<close>

datatype sync_event =
    Sync_block block
  | Sync_ready nat
  | Sync_timer
  | Sync_write bytes bytes

definition sync_handle :: "('k, 'db) env \<Rightarrow> u64 \<Rightarrow> u128 \<times> sync_event \<Rightarrow> ('db, unit) sync_proc" where
  "sync_handle E delay x =
     (case x of (now, ev) \<Rightarrow>
        (case ev of
           Sync_block b \<Rightarrow> sync_request E now b
         | Sync_ready i \<Rightarrow> sync_ready E i
         | Sync_timer \<Rightarrow> sync_timer E delay now
         | Sync_write key value \<Rightarrow> write_store E key value))"

definition sync_run ::
    "('k, 'db) env \<Rightarrow> u64 \<Rightarrow> 'db store \<Rightarrow> (u128 \<times> sync_event) list \<Rightarrow>
       (consensus_error, unit) outcome \<times> 'db sync_task" where
  "sync_run E delay st evs = run_all (sync_handle E delay) evs (sync_new st)"


section \<open>The invariant\<close>

definition in_store :: "('k, 'db) env \<Rightarrow> 'db store \<Rightarrow> digest \<Rightarrow> bool" where
  "in_store E st d \<longleftrightarrow> (\<exists>v. store_read (rocksdb E) (digest_bytes d) st = Inr (Some v))"

lemma in_store_write:
  "rocksdb_ok (rocksdb E) \<Longrightarrow> in_store E st d \<Longrightarrow> in_store E (store_write (rocksdb E) k v st) d"
  by (auto simp: in_store_def st.read_write_if)

lemma store_read_cases:
  assumes "rocksdb_ok (rocksdb E)"
  obtains (absent) "store_read (rocksdb E) (digest_bytes d) st = Inr None" and "\<not> in_store E st d"
    | (present) v where "store_read (rocksdb E) (digest_bytes d) st = Inr (Some v)" and "in_store E st d"
  using st.read_total [OF assms, of "digest_bytes d" st] that by (auto simp: in_store_def) (metis option.exhaust)

definition sync_inputs :: "(u128 \<times> sync_event) list \<Rightarrow> block set" where
  "sync_inputs evs = {b. \<exists>now. (now, Sync_block b) \<in> set evs}"

definition sync_inv :: "('k, 'db) env \<Rightarrow> (u128 \<times> sync_event) list \<Rightarrow> 'db sync_task \<Rightarrow> bool" where
  "sync_inv E evs s \<longleftrightarrow>
     distinct (map (block_digest (dalek E)) (sync_waiting s))
     \<and> sync_pending s = block_digest (dalek E) ` set (sync_waiting s)
     \<and> (\<forall>b\<in>set (sync_waiting s). parent b \<in> fst ` set (sync_requests s) \<or> in_store E (my_store s) (parent b))
     \<and> fst ` set (sync_requests s) \<subseteq> parent ` set (sync_waiting s)
     \<and> set (sync_waiting s) \<subseteq> sync_inputs evs
     \<and> (\<forall>b. To_loopback b \<in> set (out s) \<longrightarrow> b \<in> sync_inputs evs \<and> in_store E (my_store s) (parent b))"

lemma sync_inputs_snoc:
  "sync_inputs (evs @ [x]) = sync_inputs evs \<union> (case x of (_, Sync_block b) \<Rightarrow> {b} | _ \<Rightarrow> {})"
  by (auto simp: sync_inputs_def split: prod.split sync_event.split)

lemma sync_inv_mono: "sync_inv E evs s \<Longrightarrow> sync_inputs evs \<subseteq> sync_inputs evs' \<Longrightarrow> sync_inv E evs' s"
  unfolding sync_inv_def by blast

text \<open>What only sends leaves the invariant.\<close>

lemma sync_inv_sends:
  "sync_inv E evs s \<Longrightarrow> \<forall>b. To_loopback b \<notin> set es \<Longrightarrow> sync_inv E evs (s\<lparr>out := out s @ es\<rparr>)"
  by (auto simp: sync_inv_def)

lemma sync_request_inv:
  assumes I: "sync_inv E evs s" and b: "b \<in> sync_inputs evs" and run: "sync_request E now b s = (r, t)"
  shows "sync_inv E evs t"
proof (cases "block_digest (dalek E) b \<in> sync_pending s")
  case True
  with I run show ?thesis by (simp add: sync_request_def proc_simps)
next
  case False
  let ?s = "s\<lparr>sync_pending := insert (block_digest (dalek E) b) (sync_pending s), sync_waiting := sync_waiting s @ [b],
      sync_requests := (if parent b \<in> fst ` set (sync_requests s) then sync_requests s
        else AList.update (parent b) now (sync_requests s))\<rparr>"
  have s: "sync_inv E evs ?s"
    using I False b by (auto simp: sync_inv_def keys_update)
  show ?thesis
  proof (cases "parent b \<in> fst ` set (sync_requests s)")
    case True
    then have "t = ?s" using False run by (auto simp: sync_request_def proc_simps)
    with s show ?thesis by simp
  next
    case new: False
    have "t = ?s \<or> (\<exists>a m. t = ?s\<lparr>out := out ?s @ [Net_send a m]\<rparr>)"
      using run False new
      by (auto simp: sync_request_def proc_simps expect_def net_send_def emit_def bnd_def panic_def modify_def ret_def
          split: option.splits)
    then show ?thesis using s sync_inv_sends [OF s] by auto
  qed
qed

lemma sync_ready_present:
  assumes "i < length (sync_waiting s)" and "b = sync_waiting s ! i"
    and "store_read (rocksdb E) (digest_bytes (parent b)) (my_store s) = Inr (Some v)"
  shows "sync_ready E i s = (Ok (), s\<lparr>sync_waiting := remove_at i (sync_waiting s),
      sync_pending := sync_pending s - {block_digest (dalek E) b},
      sync_requests := AList.delete (parent b) (sync_requests s), out := out s @ [To_loopback b]\<rparr>)"
  using assms by (simp add: sync_ready_def proc_simps emit_def)

lemma sync_ready_inv:
  assumes R: "rocksdb_ok (rocksdb E)" and I: "sync_inv E evs s" and run: "sync_ready E i s = (r, t)"
  shows "sync_inv E evs t"
proof (cases "i < length (sync_waiting s)")
  case i: True
  let ?b = "sync_waiting s ! i"
  from R show ?thesis
  proof (cases rule: store_read_cases [where d = "parent ?b" and st = "my_store s"])
    case absent
    with I run i show ?thesis by (simp add: sync_ready_def proc_simps)
  next
    case (present v)
    have t: "t = s\<lparr>sync_waiting := remove_at i (sync_waiting s),
        sync_pending := sync_pending s - {block_digest (dalek E) ?b},
        sync_requests := AList.delete (parent ?b) (sync_requests s), out := out s @ [To_loopback ?b]\<rparr>"
      using run sync_ready_present [OF i refl present(1)] by simp
    have d: "distinct (map (block_digest (dalek E)) (sync_waiting s))" using I by (simp add: sync_inv_def)
    note rm = distinct_map_remove_at [OF d i]
    have w: "set (sync_waiting s) = insert ?b (set (remove_at i (sync_waiting s)))" by (rule set_remove_at [OF i])
    have "\<forall>b\<in>set (remove_at i (sync_waiting s)). parent b \<in> fst ` set (AList.delete (parent ?b) (sync_requests s))
        \<or> in_store E (my_store s) (parent b)"
      using I present(2) w by (auto simp: sync_inv_def keys_delete)
    moreover have "fst ` set (AList.delete (parent ?b) (sync_requests s)) \<subseteq> parent ` set (remove_at i (sync_waiting s))"
      using I w by (auto simp: sync_inv_def keys_delete)
    moreover have "?b \<in> sync_inputs evs" using I i by (auto simp: sync_inv_def)
    moreover have "sync_pending t = block_digest (dalek E) ` set (remove_at i (sync_waiting s))"
      using I rm(3) by (simp add: sync_inv_def t)
    moreover have "set (remove_at i (sync_waiting s)) \<subseteq> sync_inputs evs" using I w by (simp add: sync_inv_def)
    moreover have "\<forall>b. To_loopback b \<in> set (out t) \<longrightarrow> b \<in> sync_inputs evs \<and> in_store E (my_store t) (parent b)"
      using I present(2) \<open>?b \<in> sync_inputs evs\<close> by (simp add: sync_inv_def t)
    ultimately show ?thesis
      using rm(2) unfolding sync_inv_def by (simp add: t)
  qed
qed (use I run in \<open>simp add: sync_ready_def proc_simps\<close>)

lemma sync_retry_inv:
  "sync_inv E evs s \<Longrightarrow> sync_retry E delay now rs s = (r, t) \<Longrightarrow> sync_inv E evs t"
proof (induction rs arbitrary: s)
  case (Cons x rs)
  obtain d ts where x: "x = (d, ts)" by (cases x)
  show ?case
  proof (cases "ts + ucast delay < now")
    case False
    with Cons show ?thesis by (simp add: x proc_simps)
  next
    case True
    show ?thesis
    proof (cases "ser_msg E (SyncRequest d (my_name E))")
      case None
      with Cons.prems True show ?thesis by (simp add: x expect_def sq_def bnd_def panic_def)
    next
      case (Some m)
      let ?es = "map (\<lambda>a. Net_send a m) (map snd (broadcast_addresses (my_committee E) (my_name E)))"
      have "sync_retry E delay now rs (s\<lparr>out := out s @ ?es\<rparr>) = (r, t)"
        using Cons.prems(2) True Some by (simp add: x expect_def sq_def bnd_def ret_def net_broadcast_def emit_def modify_def)
      then show ?thesis by (rule Cons.IH [rotated]) (rule sync_inv_sends [OF Cons.prems(1)], auto)
    qed
  qed
qed (simp add: ret_def)

lemma sync_handle_inv:
  assumes R: "rocksdb_ok (rocksdb E)" and I: "sync_inv E evs s" and run: "sync_handle E delay x s = (r, t)"
  shows "sync_inv E (evs @ [x]) t"
proof -
  obtain now ev where x: "x = (now, ev)" by (cases x)
  have I': "sync_inv E (evs @ [x]) s" by (rule sync_inv_mono [OF I]) (simp add: sync_inputs_snoc)
  show ?thesis
  proof (cases ev)
    case (Sync_block b)
    then have "b \<in> sync_inputs (evs @ [x])" by (simp add: x sync_inputs_snoc)
    then show ?thesis using sync_request_inv [OF I'] run Sync_block by (simp add: x sync_handle_def)
  next
    case (Sync_ready i)
    then show ?thesis using sync_ready_inv [OF R I'] run by (simp add: x sync_handle_def)
  next
    case Sync_timer
    then show ?thesis using sync_retry_inv [OF I'] run by (simp add: x sync_handle_def sync_timer_def bnd_gets)
  next
    case (Sync_write k v)
    let ?st = "store_write (rocksdb E) k v (my_store s)"
    have "in_store E (my_store s) d \<Longrightarrow> in_store E ?st d" for d by (rule in_store_write [OF R])
    then have "sync_inv E (evs @ [x]) (s\<lparr>my_store := ?st\<rparr>)" using I' by (auto simp: sync_inv_def)
    from sync_inv_sends [OF this, of "map Store_notify (store_write_replies (rocksdb E) k v (my_store s))"]
    show ?thesis using run by (auto simp: x Sync_write sync_handle_def write_store_def modify_def)
  qed
qed

lemma sync_inv_new: "sync_inv E [] (sync_new st)"
  by (simp add: sync_inv_def sync_new_def)

lemma sync_run_inv:
  assumes "rocksdb_ok (rocksdb E)"
  shows "sync_inv E evs (snd (sync_run E delay st evs))"
  unfolding sync_run_def
proof (rule run_all_inputs)
  show "sync_inv E ys s \<Longrightarrow> sync_inv E (ys @ zs) s" for ys zs s
    by (rule sync_inv_mono) (auto simp: sync_inputs_def)
qed (rule sync_handle_inv [OF assms], assumption+, rule sync_inv_new)

section \<open>Polling\<close>

text \<open>Turns that poll each of \<open>n\<close> futures, in any order: an index is one among those that are left.\<close>

fun polls :: "nat \<Rightarrow> (u128 \<times> sync_event) list \<Rightarrow> bool" where
  "polls n [] \<longleftrightarrow> n = 0"
| "polls n ((now, Sync_ready i) # evs) \<longleftrightarrow> i < n \<and> polls (n - 1) evs"
| "polls n ((now, Sync_block b) # evs) \<longleftrightarrow> False"
| "polls n (x # evs) \<longleftrightarrow> polls n evs"

definition loopbacks :: "effect list \<Rightarrow> block list" where
  "loopbacks es = concat (map (\<lambda>e. case e of To_loopback b \<Rightarrow> [b] | _ \<Rightarrow> []) es)"

lemma loopbacks_simps [simp]:
  "loopbacks [] = []" "loopbacks (es @ es') = loopbacks es @ loopbacks es'" "loopbacks [To_loopback b] = [b]"
  "loopbacks (map Store_notify rs) = []" "loopbacks (map (\<lambda>a. Net_send a m) as) = []"
  by (simp_all add: loopbacks_def comp_def)

lemma sync_retry_returns:
  assumes "\<forall>d. ser_msg E (SyncRequest d (my_name E)) \<noteq> None"
  shows "\<exists>es. sync_retry E delay now rs s = (Ok (), s\<lparr>out := out s @ es\<rparr>) \<and> loopbacks es = []"
proof (induction rs arbitrary: s)
  case (Cons x rs)
  obtain d ts where x: "x = (d, ts)" by (cases x)
  obtain m where m: "ser_msg E (SyncRequest d (my_name E)) = Some m" using assms by blast
  let ?es = "if ts + ucast delay < now
    then map (\<lambda>a. Net_send a m) (map snd (broadcast_addresses (my_committee E) (my_name E))) else []"
  obtain es where "sync_retry E delay now rs (s\<lparr>out := out s @ ?es\<rparr>)
      = (Ok (), s\<lparr>out := (out s @ ?es) @ es\<rparr>)" "loopbacks es = []"
    using Cons [of "s\<lparr>out := out s @ ?es\<rparr>"] by auto
  then show ?case
    by (intro exI [of _ "?es @ es"])
      (auto simp: x m loopbacks_def expect_def sq_def bnd_def ret_def net_broadcast_def emit_def modify_def)
qed (auto simp: ret_def intro: exI [of _ "[]"])

lemma mset_remove_at: "i < length xs \<Longrightarrow> mset xs = {#xs ! i#} + mset (remove_at i xs)"
  by (subst remove_at_split [of i xs]) (simp_all add: remove_at_def)

text \<open>A turn with one future less, or with the same ones.\<close>

lemma poll_turn:
  assumes R: "rocksdb_ok (rocksdb E)" and ser: "\<forall>d. ser_msg E (SyncRequest d (my_name E)) \<noteq> None"
    and stored: "\<forall>b\<in>set (sync_waiting s). in_store E (my_store s) (parent b)" and p: "polls (length (sync_waiting s)) (x # evs)"
  obtains t ds where "sync_handle E delay x s = (Ok (), t)" and "loopbacks (out t) = loopbacks (out s) @ ds"
    and "mset (sync_waiting s) = mset ds + mset (sync_waiting t)" and "polls (length (sync_waiting t)) evs"
    and "\<forall>b\<in>set (sync_waiting t). in_store E (my_store t) (parent b)"
proof -
  obtain now ev where x: "x = (now, ev)" by (cases x)
  show thesis
  proof (cases ev)
    case (Sync_block b)
    then show thesis using p by (simp add: x)
  next
    case (Sync_ready i)
    let ?b = "sync_waiting s ! i"
    have i: "i < length (sync_waiting s)" using p by (simp add: x Sync_ready)
    have "in_store E (my_store s) (parent ?b)" using stored nth_mem [OF i] by blast
    then obtain v where "store_read (rocksdb E) (digest_bytes (parent ?b)) (my_store s) = Inr (Some v)"
      by (auto simp: in_store_def)
    from sync_ready_present [OF i refl this] i stored p set_remove_at [OF i] mset_remove_at [OF i] show thesis
      by (intro that [where ds = "[?b]"]) (auto simp: x Sync_ready sync_handle_def length_remove_at)
  next
    case Sync_timer
    obtain es where "sync_retry E delay now (sync_requests s) s = (Ok (), s\<lparr>out := out s @ es\<rparr>)" "loopbacks es = []"
      using sync_retry_returns [OF ser] by blast
    then show thesis
      using p stored by (intro that [where t = "s\<lparr>out := out s @ es\<rparr>" and ds = "[]"]) (auto simp: x Sync_timer sync_handle_def sync_timer_def bnd_gets)
  next
    case (Sync_write k v)
    then show thesis
      using p stored in_store_write [OF R]
      by (intro that [where t = "s\<lparr>my_store := store_write (rocksdb E) k v (my_store s),
            out := out s @ map Store_notify (store_write_replies (rocksdb E) k v (my_store s))\<rparr>" and ds = "[]"]) (auto simp: x sync_handle_def write_store_def modify_def)
  qed
qed

lemma polls_deliver:
  assumes R: "rocksdb_ok (rocksdb E)" and ser: "\<forall>d. ser_msg E (SyncRequest d (my_name E)) \<noteq> None"
  shows "\<forall>b\<in>set (sync_waiting s). in_store E (my_store s) (parent b) \<Longrightarrow> polls (length (sync_waiting s)) polling \<Longrightarrow> sync_inv E evs s \<Longrightarrow>
    \<exists>t bs. run_all (sync_handle E delay) polling s = (Ok (), t) \<and> loopbacks (out t) = loopbacks (out s) @ bs
      \<and> mset bs = mset (sync_waiting s) \<and> sync_waiting t = [] \<and> sync_pending t = {} \<and> sync_requests t = []"
proof (induction polling arbitrary: s evs)
  case Nil
  then show ?case by (auto simp: sync_inv_def ret_def)
next
  case (Cons x polling)
  obtain t ds where t: "sync_handle E delay x s = (Ok (), t)" "loopbacks (out t) = loopbacks (out s) @ ds"
    "mset (sync_waiting s) = mset ds + mset (sync_waiting t)" "polls (length (sync_waiting t)) polling"
    "\<forall>b\<in>set (sync_waiting t). in_store E (my_store t) (parent b)"
    by (rule poll_turn [OF R ser Cons.prems(1,2)])
  obtain u bs where "run_all (sync_handle E delay) polling t = (Ok (), u)" "loopbacks (out u) = loopbacks (out t) @ bs"
    "mset bs = mset (sync_waiting t)" "sync_waiting u = []" "sync_pending u = {}" "sync_requests u = []"
    using Cons.IH [OF t(5,4) sync_handle_inv [OF R Cons.prems(3) t(1)]] by blast
  then show ?case using t(1-3) by (intro exI [of _ u] exI [of _ "ds @ bs"]) (simp add: run_sq)
qed

section \<open>Properties\<close>

text \<open>
  C25. No missing parent is forgotten. On a database without errors, after any run of the synchronizer over any
  blocks, writes and timer ticks, interleaved in any way: a block is waiting at most once; each block waiting has
  a request outstanding for its parent, or the parent has arrived; there are requests for no other digest; and a
  block is given back to the core only if the core handed it in and its parent is in the store.
\<close>

theorem synchronizer_keeps_requests:
  assumes "rocksdb_ok (rocksdb E)" and s: "s = snd (sync_run E delay st evs)"
  shows "distinct (map (block_digest (dalek E)) (sync_waiting s))
    \<and> (\<forall>b\<in>set (sync_waiting s). block_digest (dalek E) b \<in> sync_pending s
        \<and> (parent b \<in> fst ` set (sync_requests s) \<or> in_store E (my_store s) (parent b)))
    \<and> (\<forall>d\<in>fst ` set (sync_requests s). \<exists>b\<in>set (sync_waiting s). parent b = d)
    \<and> (\<forall>b. To_loopback b \<in> set (out s) \<longrightarrow> (\<exists>now. (now, Sync_block b) \<in> set evs) \<and> in_store E (my_store s) (parent b))"
proof -
  have I: "sync_inv E evs s" using sync_run_inv [OF assms(1)] by (simp add: s)
  from I have d: "distinct (map (block_digest (dalek E)) (sync_waiting s))"
    and p: "sync_pending s = block_digest (dalek E) ` set (sync_waiting s)"
    and q: "\<forall>b\<in>set (sync_waiting s). parent b \<in> fst ` set (sync_requests s) \<or> in_store E (my_store s) (parent b)"
    and r: "fst ` set (sync_requests s) \<subseteq> parent ` set (sync_waiting s)"
    and l: "\<forall>b. To_loopback b \<in> set (out s) \<longrightarrow> b \<in> sync_inputs evs \<and> in_store E (my_store s) (parent b)"
    unfolding sync_inv_def by - (elim conjE, assumption)+
  show ?thesis
  proof (intro conjI ballI allI impI)
    show "distinct (map (block_digest (dalek E)) (sync_waiting s))" by (rule d)
    show "block_digest (dalek E) b \<in> sync_pending s" if "b \<in> set (sync_waiting s)" for b
      using that unfolding p by (rule imageI)
    show "parent b \<in> fst ` set (sync_requests s) \<or> in_store E (my_store s) (parent b)"
      if "b \<in> set (sync_waiting s)" for b using bspec [OF q that] .
    show "\<exists>b\<in>set (sync_waiting s). parent b = k" if "k \<in> fst ` set (sync_requests s)" for k
      using subsetD [OF r that] by (metis imageE)
    show "\<exists>now. (now, Sync_block b) \<in> set evs" "in_store E (my_store s) (parent b)"
      if "To_loopback b \<in> set (out s)" for b
      using l [rule_format, OF that] by (simp_all add: sync_inputs_def)
  qed
qed

text \<open>
  C26. Once the parents have arrived, every waiting block is given back, whichever future is polled first. However the futures that are still there
  are chosen, one by one, and whatever writes to the store and ticks of the timer come in between, the task returns from all of these turns; once it has
  had as many futures as there were blocks, it has handed each of these blocks to the core exactly once, and no block and no request is left.
\<close>

theorem synchronizer_delivers_all:
  assumes "rocksdb_ok (rocksdb E)" and "s = snd (sync_run E delay st evs)"
    and "\<forall>b\<in>set (sync_waiting s). in_store E (my_store s) (parent b)"
    and "\<forall>d. ser_msg E (SyncRequest d (my_name E)) \<noteq> None" and "polls (length (sync_waiting s)) polling"
  shows "\<exists>t bs. run_all (sync_handle E delay) polling s = (Ok (), t) \<and> loopbacks (out t) = loopbacks (out s) @ bs
    \<and> mset bs = mset (sync_waiting s) \<and> sync_waiting t = [] \<and> sync_pending t = {} \<and> sync_requests t = []"
  using polls_deliver [OF assms(1,4) _ assms(5)] sync_run_inv [OF assms(1), of evs delay st] assms(2,3) by blast

text \<open>
  Retrying: every tick of the timer sends each request that is older than the retry delay, and no other, to
  every other authority of the committee.
\<close>

theorem synchronizer_retries:
  assumes "\<forall>d. ser_msg E (SyncRequest d (my_name E)) = Some (f d)"
  shows "sync_timer E delay now s = (Ok (), s\<lparr>out := out s @ concat (map (\<lambda>(d, _).
      map (\<lambda>(_, a). Net_send a (f d)) (broadcast_addresses (my_committee E) (my_name E)))
      (filter (\<lambda>(_, timestamp). timestamp + ucast delay < now) (sync_requests s)))\<rparr>)"
proof -
  have "sync_retry E delay now rs s = (Ok (), s\<lparr>out := out s @ concat (map (\<lambda>(d, _).
      map (\<lambda>(_, a). Net_send a (f d)) (broadcast_addresses (my_committee E) (my_name E)))
      (filter (\<lambda>(_, timestamp). timestamp + ucast delay < now) rs))\<rparr>)" for rs
  proof (induction rs arbitrary: s)
    case (Cons x rs)
    obtain d ts where x: "x = (d, ts)" by (cases x)
    show ?case
      using assms Cons
      by (simp add: x expect_def sq_def bnd_def ret_def net_broadcast_def emit_def modify_def comp_def split_beta)
  qed (simp add: ret_def)
  then show ?thesis by (simp add: sync_timer_def bnd_gets)
qed

end
