(* ===== verification/Payload_Waiter.thy ===== *)
theory Payload_Waiter
  imports Mempool_Driver Block_Synchronizer
begin

text \<open>
  The task \<open>PayloadWaiter\<close> of \<open>consensus/src/mempool.rs\<close>: it keeps the blocks whose payload is missing until
  all of it is in the store, and drops those whose round is over. A cancel channel is a number; its sender lives
  in \<open>pending\<close>, so that a waiter is cancelled exactly when its channel is no longer there: \<open>run\<close> sends on a
  channel only to drop it right after, and dropping the sender closes it.
\<close>

section \<open>The task\<close>

type_synonym channel = nat

record waiter =
  waiter_missing :: "digest list"
  waiter_block :: block
  waiter_channel :: channel

record 'db payload_task = "'db world" +
  payload_pending :: "(digest \<times> u64 \<times> channel) list"
  payload_waiting :: "waiter list"
  next_channel :: channel

type_synonym ('db, 'a) payload_proc = "('db payload_task, consensus_error, 'a) proc"

definition payload_new :: "'db store \<Rightarrow> 'db payload_task" where
  "payload_new st =
     \<lparr>my_store = st, out = [], payload_pending = [], payload_waiting = [], next_channel = 0\<rparr>"

definition payload_wait :: "('k, 'db) env \<Rightarrow> digest list \<Rightarrow> block \<Rightarrow> ('db, unit) payload_proc" where
  "payload_wait E missing b =
     (let d = block_digest (dalek E) b in
      bnd (gets (\<lambda>s. d \<in> fst ` set (payload_pending s))) (\<lambda>known.
      if known then ret ()
      else modify (\<lambda>s. s\<lparr>
        payload_pending := AList.update d (block_round b, next_channel s) (payload_pending s),
        payload_waiting := payload_waiting s @
          [\<lparr>waiter_missing = missing, waiter_block = b, waiter_channel = next_channel s\<rparr>],
        next_channel := next_channel s + 1\<rparr>)))"

definition payload_cleanup :: "u64 \<Rightarrow> ('db, unit) payload_proc" where
  "payload_cleanup r = modify (\<lambda>s. s\<lparr>payload_pending := filter (\<lambda>(_, k, _). k > r) (payload_pending s)\<rparr>)"

text \<open>\<open>try_join_all\<close> over the \<open>notify_read\<close>s of one waiter: \<open>None\<close> while a digest is missing.\<close>

fun join_all :: "('k, 'db) env \<Rightarrow> 'db store \<Rightarrow> digest list \<Rightarrow> (store_error + unit) option" where
  "join_all E st [] = Some (Inr ())"
| "join_all E st (x # xs) =
     (case store_read (rocksdb E) (digest_bytes x) st of
        Inl e \<Rightarrow> Some (Inl e)
      | Inr (Some _) \<Rightarrow> join_all E st xs
      | Inr None \<Rightarrow> (case join_all E st xs of Some (Inl e) \<Rightarrow> Some (Inl e) | _ \<Rightarrow> None))"

definition cancelled :: "'db payload_task \<Rightarrow> waiter \<Rightarrow> bool" where
  "cancelled s w \<longleftrightarrow> waiter_channel w \<notin> (\<lambda>(_, _, c). c) ` set (payload_pending s)"

text \<open>
  \<open>PayloadWaiter::waiter\<close>: what the future yields when it is polled, \<open>None\<close> while it is not ready. When both
  branches of its \<open>select!\<close> are ready, \<open>pick\<close> is the one taken.
\<close>

definition waiter_result ::
    "('k, 'db) env \<Rightarrow> bool \<Rightarrow> 'db payload_task \<Rightarrow> waiter \<Rightarrow> (store_error + block option) option" where
  "waiter_result E pick s w =
     (case join_all E (my_store s) (waiter_missing w) of
        None \<Rightarrow> if cancelled s w then Some (Inr None) else None
      | Some r \<Rightarrow>
          if cancelled s w \<and> \<not> pick then Some (Inr None)
          else Some (case r of Inl e \<Rightarrow> Inl e | Inr _ \<Rightarrow> Inr (Some (waiter_block w))))"

text \<open>The branch \<open>Some(result) = waiting.next()\<close>, for the future at position \<open>i\<close>.\<close>

definition payload_ready :: "('k, 'db) env \<Rightarrow> bool \<Rightarrow> nat \<Rightarrow> ('db, unit) payload_proc" where
  "payload_ready E pick i =
     bnd (gets (\<lambda>s. if i < length (payload_waiting s) then waiter_result E pick s (payload_waiting s ! i) else None)) (\<lambda>f.
     case f of
       None \<Rightarrow> ret ()
     | Some result \<Rightarrow>
         sq (modify (\<lambda>s. s\<lparr>payload_waiting := remove_at i (payload_waiting s)\<rparr>))
           (case result of
              Inr (Some b) \<Rightarrow>
                sq (modify (\<lambda>s. s\<lparr>payload_pending := AList.delete (block_digest (dalek E) b) (payload_pending s)\<rparr>))
                  (emit [To_loopback b])
            | Inr None \<Rightarrow> ret ()
            | Inl e \<Rightarrow> ret ()))"

datatype payload_event =
    Payload_message payload_waiter_message
  | Payload_ready bool nat
  | Payload_write bytes bytes

definition payload_handle :: "('k, 'db) env \<Rightarrow> payload_event \<Rightarrow> ('db, unit) payload_proc" where
  "payload_handle E ev =
     (case ev of
        Payload_message (Wait missing b) \<Rightarrow> payload_wait E missing b
      | Payload_message (Waiter_cleanup r) \<Rightarrow> payload_cleanup r
      | Payload_ready pick i \<Rightarrow> payload_ready E pick i
      | Payload_write key value \<Rightarrow> write_store E key value)"

definition payload_run ::
    "('k, 'db) env \<Rightarrow> 'db store \<Rightarrow> payload_event list \<Rightarrow> (consensus_error, unit) outcome \<times> 'db payload_task" where
  "payload_run E st evs = run_all (payload_handle E) evs (payload_new st)"


section \<open>The invariant\<close>

lemma join_all_ok:
  assumes "rocksdb_ok (rocksdb E)"
  shows "join_all E st xs = (if \<forall>x\<in>set xs. in_store E st x then Some (Inr ()) else None)"
proof (induction xs)
  case (Cons x xs)
  from assms show ?case
    by (cases rule: store_read_cases [where d = x and st = st]) (simp_all add: Cons)
qed simp

definition payload_awaited :: "payload_event list \<Rightarrow> digest list \<Rightarrow> block \<Rightarrow> bool" where
  "payload_awaited evs missing b \<longleftrightarrow> Payload_message (Wait missing b) \<in> set evs"

definition waiters_inv :: "('k, 'db) env \<Rightarrow> payload_event list \<Rightarrow> 'db payload_task \<Rightarrow> bool" where
  "waiters_inv E evs s \<longleftrightarrow>
     distinct (map waiter_channel (payload_waiting s))
     \<and> (\<forall>w\<in>set (payload_waiting s). waiter_channel w < next_channel s
          \<and> payload_awaited evs (waiter_missing w) (waiter_block w))
     \<and> (\<forall>(d, r, c)\<in>set (payload_pending s). \<exists>w\<in>set (payload_waiting s). waiter_channel w = c
          \<and> block_digest (dalek E) (waiter_block w) = d \<and> block_round (waiter_block w) = r)"

definition looped_inv :: "('k, 'db) env \<Rightarrow> payload_event list \<Rightarrow> 'db store \<Rightarrow> effect list \<Rightarrow> bool" where
  "looped_inv E evs st es \<longleftrightarrow> (\<forall>b. To_loopback b \<in> set es \<longrightarrow>
     (\<exists>missing. payload_awaited evs missing b \<and> (\<forall>x\<in>set missing. in_store E st x)))"

definition payload_inv :: "('k, 'db) env \<Rightarrow> payload_event list \<Rightarrow> 'db payload_task \<Rightarrow> bool" where
  "payload_inv E evs s \<longleftrightarrow> waiters_inv E evs s \<and> looped_inv E evs (my_store s) (out s)"

lemmas payload_inv_defs = payload_inv_def waiters_inv_def looped_inv_def

text \<open>
  What a step does to the entries: none leaves but by giving back a block with its digest, or by a cleanup for its
  round or a later one.
\<close>

definition payload_drops :: "u64 \<Rightarrow> payload_event \<Rightarrow> bool" where
  "payload_drops j ev \<longleftrightarrow> (\<exists>k. ev = Payload_message (Waiter_cleanup k) \<and> j \<le> k)"

definition gives_back :: "('k, 'db) env \<Rightarrow> digest \<Rightarrow> effect list \<Rightarrow> bool" where
  "gives_back E d es \<longleftrightarrow> (\<exists>b. To_loopback b \<in> set es \<and> block_digest (dalek E) b = d)"

definition payload_keeps :: "('k, 'db) env \<Rightarrow> payload_event \<Rightarrow> 'db payload_task \<Rightarrow> 'db payload_task \<Rightarrow> bool" where
  "payload_keeps E ev s t \<longleftrightarrow>
     (\<exists>es. out t = out s @ es \<and> (\<forall>e\<in>set (payload_pending s).
        e \<in> set (payload_pending t) \<or> gives_back E (fst e) es \<or> payload_drops (fst (snd e)) ev))
     \<and> (\<forall>m b. ev = Payload_message (Wait m b) \<longrightarrow> block_digest (dalek E) b \<in> fst ` set (payload_pending t))"

lemma payload_keepsI:
  assumes "set (payload_pending s) \<subseteq> set (payload_pending t)" and "out t = out s @ es"
    and "\<And>m b. ev = Payload_message (Wait m b) \<Longrightarrow> block_digest (dalek E) b \<in> fst ` set (payload_pending t)"
  shows "payload_keeps E ev s t"
  using assms unfolding payload_keeps_def by blast

lemma payload_awaited_append:
  "payload_awaited (evs @ evs') m b \<longleftrightarrow> payload_awaited evs m b \<or> payload_awaited evs' m b"
  by (auto simp: payload_awaited_def)

lemma waiters_inv_more: "waiters_inv E evs s \<Longrightarrow> waiters_inv E (evs @ zs) s"
  by (auto simp: waiters_inv_def payload_awaited_append)

lemma looped_inv_more: "looped_inv E evs st es \<Longrightarrow> looped_inv E (evs @ zs) st es"
  unfolding looped_inv_def payload_awaited_append by blast

lemma payload_inv_more: "payload_inv E evs s \<Longrightarrow> payload_inv E (evs @ zs) s"
  by (simp add: payload_inv_def waiters_inv_more looped_inv_more)

lemma payload_wait_inv:
  assumes I: "payload_inv E evs s" and run: "payload_wait E missing b s = (r, t)"
  defines "ev \<equiv> Payload_message (Wait missing b)"
  shows "payload_inv E (evs @ [ev]) t \<and> payload_keeps E ev s t"
proof (cases "block_digest (dalek E) b \<in> fst ` set (payload_pending s)")
  case True
  then have t: "t = s" using run by (simp add: payload_wait_def proc_simps Let_def)
  from True have "payload_keeps E ev s t"
    unfolding t by (intro payload_keepsI [where es = "[]"]) (auto simp: ev_def)
  then show ?thesis using payload_inv_more [OF I] t by simp
next
  case False
  let ?w = "\<lparr>waiter_missing = missing, waiter_block = b, waiter_channel = next_channel s\<rparr>"
  have aw: "payload_awaited (evs @ [ev]) m b' \<longleftrightarrow> payload_awaited evs m b' \<or> m = missing \<and> b' = b" for m b'
    by (auto simp: payload_awaited_def ev_def)
  have t: "payload_waiting t = payload_waiting s @ [?w]" "next_channel t = next_channel s + 1"
    "payload_pending t = payload_pending s @ [(block_digest (dalek E) b, block_round b, next_channel s)]"
    "out t = out s" "my_store t = my_store s"
    using False run by (auto simp: payload_wait_def proc_simps update_new Let_def)
  have w: "waiters_inv E evs s" using I by (simp add: payload_inv_def)
  have "distinct (map waiter_channel (payload_waiting t))"
    using w by (auto simp: waiters_inv_def t)
  moreover have "\<forall>w\<in>set (payload_waiting t). waiter_channel w < next_channel t
      \<and> payload_awaited (evs @ [ev]) (waiter_missing w) (waiter_block w)"
    using w by (auto simp: waiters_inv_def t aw)
  moreover have "\<forall>(d, r, c)\<in>set (payload_pending t). \<exists>w\<in>set (payload_waiting t). waiter_channel w = c
      \<and> block_digest (dalek E) (waiter_block w) = d \<and> block_round (waiter_block w) = r"
    using w by (auto simp: waiters_inv_def t)
  moreover have "looped_inv E (evs @ [ev]) (my_store t) (out t)"
    using I by (simp add: payload_inv_def t looped_inv_more)
  moreover have "payload_keeps E ev s t"
    by (rule payload_keepsI [where es = "[]"]) (auto simp: t ev_def)
  ultimately show ?thesis by (simp add: payload_inv_def waiters_inv_def)
qed

lemma payload_cleanup_inv:
  assumes I: "payload_inv E evs s" and run: "payload_cleanup k s = (r, t)"
  defines "ev \<equiv> Payload_message (Waiter_cleanup k)"
  shows "payload_inv E (evs @ [ev]) t \<and> payload_keeps E ev s t"
proof -
  have t: "t = s\<lparr>payload_pending := filter (\<lambda>(_, j, _). j > k) (payload_pending s)\<rparr>"
    using run by (simp add: payload_cleanup_def modify_def)
  have "payload_drops j ev" if "\<not> j > k" for j using that by (simp add: payload_drops_def ev_def)
  then have "payload_keeps E ev s t" unfolding payload_keeps_def by (auto simp: t ev_def)
  then show ?thesis
    using payload_inv_more [OF I, of "[ev]"] by (auto simp: payload_inv_def waiters_inv_def t)
qed

lemma payload_ready_cases:
  assumes R: "rocksdb_ok (rocksdb E)" and run: "payload_ready E pick i s = (r, t)"
  obtains (idle) "t = s"
    | (dropped) "i < length (payload_waiting s)" and "cancelled s (payload_waiting s ! i)"
        and "t = s\<lparr>payload_waiting := remove_at i (payload_waiting s)\<rparr>"
    | (given) "i < length (payload_waiting s)"
        and "\<forall>x\<in>set (waiter_missing (payload_waiting s ! i)). in_store E (my_store s) x"
        and "t = s\<lparr>payload_waiting := remove_at i (payload_waiting s),
          payload_pending := AList.delete (block_digest (dalek E) (waiter_block (payload_waiting s ! i))) (payload_pending s),
          out := out s @ [To_loopback (waiter_block (payload_waiting s ! i))]\<rparr>"
proof (cases "i < length (payload_waiting s)")
  case True
  let ?w = "payload_waiting s ! i"
  consider "waiter_result E pick s ?w = None"
    | "waiter_result E pick s ?w = Some (Inr None)" and "cancelled s ?w"
    | "waiter_result E pick s ?w = Some (Inr (Some (waiter_block ?w)))"
        and "\<forall>x\<in>set (waiter_missing ?w). in_store E (my_store s) x"
    by (cases "\<forall>x\<in>set (waiter_missing ?w). in_store E (my_store s) x"; cases "cancelled s ?w"; cases pick)
      (auto simp: waiter_result_def join_all_ok [OF R])
  then show thesis
  proof cases
    case 1
    then show thesis using idle run True by (simp add: payload_ready_def proc_simps)
  next
    case 2
    then show thesis using dropped run True by (simp add: payload_ready_def proc_simps)
  next
    case 3
    then show thesis using given run True by (simp add: payload_ready_def proc_simps emit_def)
  qed
qed (use idle run in \<open>simp add: payload_ready_def proc_simps\<close>)

lemma waiters_inv_remove:
  assumes "waiters_inv E evs s" and i: "i < length (payload_waiting s)"
    and "set ps \<subseteq> set (payload_pending s)" and "\<forall>(d, r, c)\<in>set ps. c \<noteq> waiter_channel (payload_waiting s ! i)"
  shows "waiters_inv E evs (s\<lparr>payload_waiting := remove_at i (payload_waiting s), payload_pending := ps, out := es\<rparr>)"
proof -
  let ?w = "payload_waiting s ! i" and ?ws = "remove_at i (payload_waiting s)"
  have w: "set (payload_waiting s) = insert ?w (set ?ws)" by (rule set_remove_at [OF i])
  have "\<exists>w\<in>set ?ws. waiter_channel w = c \<and> block_digest (dalek E) (waiter_block w) = d \<and> block_round (waiter_block w) = r"
    if "(d, r, c) \<in> set ps" for d r c
  proof -
    from that assms(1,3) obtain w where "w \<in> set (payload_waiting s)" "waiter_channel w = c"
        "block_digest (dalek E) (waiter_block w) = d" "block_round (waiter_block w) = r"
      by (fastforce simp: waiters_inv_def)
    moreover have "c \<noteq> waiter_channel ?w" using assms(4) that by auto
    ultimately show ?thesis using w by auto
  qed
  with assms(1) i w distinct_map_remove_at(2) show ?thesis by (auto simp: waiters_inv_def)
qed

lemma payload_ready_inv:
  assumes R: "rocksdb_ok (rocksdb E)" and I: "payload_inv E evs s" and run: "payload_ready E pick i s = (r, t)"
  shows "payload_inv E evs t \<and> payload_keeps E (Payload_ready pick i) s t"
  using R run
proof (cases rule: payload_ready_cases)
  case idle
  with I show ?thesis by (auto intro: payload_keepsI)
next
  case dropped
  have "\<forall>(d, r, c)\<in>set (payload_pending s). c \<noteq> waiter_channel (payload_waiting s ! i)"
    using dropped(2) by (force simp: cancelled_def)
  then have "waiters_inv E evs (s\<lparr>payload_waiting := remove_at i (payload_waiting s), payload_pending := payload_pending s, out := out s\<rparr>)"
    using I dropped(1) by (intro waiters_inv_remove) (simp_all add: payload_inv_def)
  then show ?thesis using I by (auto simp: payload_inv_def dropped(3) intro: payload_keepsI)
next
  case given
  let ?w = "payload_waiting s ! i" and ?ps = "AList.delete (block_digest (dalek E) (waiter_block (payload_waiting s ! i))) (payload_pending s)"
  have w: "waiters_inv E evs s" "?w \<in> set (payload_waiting s)" using I given(1) by (simp_all add: payload_inv_def)
  have sub: "set ?ps \<subseteq> set (payload_pending s)" by (auto simp: set_delete)
  have "c \<noteq> waiter_channel ?w" if "(d, k, c) \<in> set ?ps" for d k c
  proof
    assume c: "c = waiter_channel ?w"
    from that sub w(1) obtain w' where w': "w' \<in> set (payload_waiting s)" "waiter_channel w' = c"
        "block_digest (dalek E) (waiter_block w') = d"
      by (fastforce simp: waiters_inv_def)
    then have "w' = ?w" using w c by (auto simp: waiters_inv_def distinct_map dest: inj_onD)
    then show False using that w'(3) by (auto simp: set_delete)
  qed
  then have "waiters_inv E evs (s\<lparr>payload_waiting := remove_at i (payload_waiting s), payload_pending := ?ps,
      out := out s @ [To_loopback (waiter_block ?w)]\<rparr>)"
    by (intro waiters_inv_remove [OF w(1) given(1) sub]) auto
  moreover have "payload_awaited evs (waiter_missing ?w) (waiter_block ?w)"
    using w by (simp add: waiters_inv_def)
  then have "looped_inv E evs (my_store s) (out s @ [To_loopback (waiter_block ?w)])"
    using I given(2) by (auto simp: payload_inv_def looped_inv_def)
  moreover have "payload_keeps E (Payload_ready pick i) s t"
    by (auto simp: payload_keeps_def given(3) gives_back_def set_delete)
  ultimately show ?thesis by (simp add: payload_inv_def given(3))
qed

lemma payload_write_inv:
  assumes R: "rocksdb_ok (rocksdb E)" and I: "payload_inv E evs s" and run: "write_store E k v s = (r, t)"
  shows "payload_inv E evs t \<and> payload_keeps E (Payload_write k v) s t"
proof -
  let ?st = "store_write (rocksdb E) k v (my_store s)"
    and ?es = "map Store_notify (store_write_replies (rocksdb E) k v (my_store s))"
  have t: "t = s\<lparr>my_store := ?st, out := out s @ ?es\<rparr>" using run by (simp add: write_store_def modify_def)
  have lb: "To_loopback b \<in> set (out s @ ?es) \<longleftrightarrow> To_loopback b \<in> set (out s)" for b by auto
  have mono: "in_store E (my_store s) x \<Longrightarrow> in_store E ?st x" for x by (rule in_store_write [OF R])
  have "looped_inv E evs ?st (out s @ ?es)"
    using I mono unfolding payload_inv_def looped_inv_def lb by blast
  moreover have "waiters_inv E evs t = waiters_inv E evs s" by (simp add: waiters_inv_def t)
  moreover have "payload_keeps E (Payload_write k v) s t" by (rule payload_keepsI) (simp_all add: t)
  ultimately show ?thesis using I unfolding payload_inv_def by (simp add: t)
qed

lemma payload_handle_inv:
  assumes R: "rocksdb_ok (rocksdb E)" and I: "payload_inv E evs s" and run: "payload_handle E ev s = (r, t)"
  shows "payload_inv E (evs @ [ev]) t \<and> payload_keeps E ev s t"
proof (cases ev)
  case (Payload_message m)
  then show ?thesis
    using payload_wait_inv [OF I] payload_cleanup_inv [OF I] run
    by (cases m) (simp_all add: payload_handle_def)
next
  case (Payload_ready pick i)
  then show ?thesis
    using payload_ready_inv [OF R payload_inv_more [OF I]] run by (simp add: payload_handle_def)
next
  case (Payload_write k v)
  then show ?thesis
    using payload_write_inv [OF R payload_inv_more [OF I]] run by (simp add: payload_handle_def)
qed

lemma payload_handle_total: "fst (payload_handle E ev s) = Ok ()"
  by (cases ev; (cases "snd (payload_handle E ev s)")?)
    (auto simp: payload_handle_def payload_wait_def payload_cleanup_def payload_ready_def write_store_def Let_def
      proc_simps emit_def run_proc split: payload_waiter_message.split option.split sum.split)

text \<open>Runs: the invariant, and what happens to one entry on the way.\<close>

lemma payload_loop_inv:
  assumes "rocksdb_ok (rocksdb E)" and "payload_inv E ys s"
  shows "\<exists>t. run_all (payload_handle E) evs s = (Ok (), t) \<and> payload_inv E (ys @ evs) t"
  using assms(2)
proof (induction evs arbitrary: ys s)
  case (Cons ev evs)
  obtain r t where h: "payload_handle E ev s = (r, t)" by (cases "payload_handle E ev s")
  from payload_handle_inv [OF assms(1) Cons.prems h] Cons.IH [of "ys @ [ev]" t] h payload_handle_total [of E ev s]
  show ?case by (simp add: run_sq)
qed (simp add: ret_def)

lemma payload_loop_keeps:
  assumes "rocksdb_ok (rocksdb E)" and "payload_inv E ys s" and "e \<in> set (payload_pending s)"
    and "run_all (payload_handle E) evs s = (r, t)"
  shows "\<exists>es. out t = out s @ es \<and> (e \<in> set (payload_pending t) \<or> gives_back E (fst e) es
    \<or> (\<exists>ev\<in>set evs. payload_drops (fst (snd e)) ev))"
proof -
  have grow: "\<exists>es. out t = out s @ es" if "run_all (payload_handle E) evs s = (r, t)" "payload_inv E ys s" for evs ys s
    using that
  proof (induction evs arbitrary: ys s)
    case (Cons ev evs)
    obtain q u where h: "payload_handle E ev s = (q, u)" by (cases "payload_handle E ev s")
    note step = payload_handle_inv [OF assms(1) Cons.prems(2) h]
    then obtain es where "out u = out s @ es" unfolding payload_keeps_def by blast
    moreover have "run_all (payload_handle E) evs u = (r, t)"
      using Cons.prems(1) h payload_handle_total [of E ev s] by (simp add: run_sq)
    from Cons.IH [OF this] step obtain es' where "out t = out u @ es'" by blast
    ultimately show ?case by simp
  qed (simp add: ret_def)
  show ?thesis using assms(2-4)
  proof (induction evs arbitrary: ys s)
    case (Cons ev evs)
    obtain q u where h: "payload_handle E ev s = (q, u)" by (cases "payload_handle E ev s")
    note step = payload_handle_inv [OF assms(1) Cons.prems(1) h]
    then obtain es where es: "out u = out s @ es"
      "e \<in> set (payload_pending u) \<or> gives_back E (fst e) es \<or> payload_drops (fst (snd e)) ev"
      using Cons.prems(2) unfolding payload_keeps_def by blast
    have rest: "run_all (payload_handle E) evs u = (r, t)"
      using Cons.prems(3) h payload_handle_total [of E ev s] by (simp add: run_sq)
    from grow [OF rest] step obtain es' where es': "out t = out u @ es'" by blast
    show ?case
    proof (cases "e \<in> set (payload_pending u)")
      case True
      from Cons.IH [OF _ True rest] step obtain es'' where "out t = out u @ es''"
        "e \<in> set (payload_pending t) \<or> gives_back E (fst e) es'' \<or> (\<exists>ev\<in>set evs. payload_drops (fst (snd e)) ev)"
        by blast
      then show ?thesis using es(1) by (intro exI [of _ "es @ es''"]) (auto simp: gives_back_def)
    next
      case False
      then show ?thesis using es es' by (intro exI [of _ "es @ es'"]) (auto simp: gives_back_def)
    qed
  qed (simp add: ret_def)
qed

lemma payload_inv_new: "payload_inv E [] (payload_new st)"
  by (simp add: payload_inv_defs payload_new_def)

lemma payload_entry:
  assumes "payload_inv E evs s" and "(d, j, c) \<in> set (payload_pending s)"
  obtains w where "w \<in> set (payload_waiting s)" and "\<not> cancelled s w" and "block_digest (dalek E) (waiter_block w) = d"
    and "block_round (waiter_block w) = j" and "payload_awaited evs (waiter_missing w) (waiter_block w)"
proof -
  from assms obtain w where w: "w \<in> set (payload_waiting s)" "waiter_channel w = c"
      "block_digest (dalek E) (waiter_block w) = d" "block_round (waiter_block w) = j"
    by (fastforce simp: payload_inv_def waiters_inv_def)
  moreover have "\<not> cancelled s w" using assms(2) w(2) by (force simp: cancelled_def)
  ultimately show thesis using that assms(1) by (auto simp: payload_inv_def waiters_inv_def)
qed

section \<open>Properties\<close>

text \<open>
  C27. The payload waiter gives back what it may and loses nothing it should keep. On a database without errors it
  never panics, and after any run: a block was given back only if it was handed in and all the payload it was
  waiting for is in the store; and for every block handed in, its digest is pending with a waiter that is not
  cancelled, or since then a block with that digest was given back, or a cleanup came for a round at or above that
  of a block with that digest (which is the same block unless the hash function collides).
\<close>

theorem payload_waiter_correct:
  assumes "rocksdb_ok (rocksdb E)" and "payload_run E st evs = (r, s)"
  shows "r = Ok ()
    \<and> (\<forall>b. To_loopback b \<in> set (out s) \<longrightarrow> (\<exists>missing. Payload_message (Wait missing b) \<in> set evs
        \<and> (\<forall>x\<in>set missing. in_store E (my_store s) x)))
    \<and> (\<forall>pre missing b post. evs = pre @ Payload_message (Wait missing b) # post \<longrightarrow>
        (\<exists>es. out s = out (snd (payload_run E st (pre @ [Payload_message (Wait missing b)]))) @ es
          \<and> ((\<exists>w\<in>set (payload_waiting s). \<not> cancelled s w \<and> block_digest (dalek E) (waiter_block w) = block_digest (dalek E) b)
             \<or> gives_back E (block_digest (dalek E) b) es
             \<or> (\<exists>missing' b'. payload_awaited (pre @ [Payload_message (Wait missing b)]) missing' b'
                  \<and> block_digest (dalek E) b' = block_digest (dalek E) b \<and> (\<exists>ev\<in>set post. payload_drops (block_round b') ev)))))"
proof (intro conjI allI impI)
  note loop = payload_loop_inv [OF assms(1) payload_inv_new [of E st]]
  have I: "r = Ok ()" "payload_inv E evs s" using loop [of evs] assms(2) by (simp_all add: payload_run_def)
  then show "r = Ok ()" by simp
  show "\<exists>missing. Payload_message (Wait missing b) \<in> set evs \<and> (\<forall>x\<in>set missing. in_store E (my_store s) x)"
    if "To_loopback b \<in> set (out s)" for b
    using I(2) that by (auto simp: payload_inv_def looped_inv_def payload_awaited_def)
  fix pre missing b post assume evs: "evs = pre @ Payload_message (Wait missing b) # post"
  let ?ev = "Payload_message (Wait missing b)" and ?d = "block_digest (dalek E) b"
  obtain u where u: "run_all (payload_handle E) pre (payload_new st) = (Ok (), u)" "payload_inv E pre u"
    using loop [of pre] by auto
  obtain q w where w: "payload_handle E ?ev u = (q, w)" by (cases "payload_handle E ?ev u")
  have q: "q = Ok ()" using payload_handle_total [of E ?ev u] w by simp
  note step = payload_handle_inv [OF assms(1) u(2) w]
  then have "?d \<in> fst ` set (payload_pending w)" unfolding payload_keeps_def by blast
  then obtain j c where e: "(?d, j, c) \<in> set (payload_pending w)" by force
  have at: "snd (payload_run E st (pre @ [?ev])) = w"
    using u(1) w q by (simp add: payload_run_def run_all_append run_sq ret_def)
  have "run_all (payload_handle E) post w = (r, s)"
    using assms(2) u(1) w q by (simp add: payload_run_def evs run_all_append run_sq)
  from payload_loop_keeps [OF assms(1) conjunct1 [OF step] e this] obtain es where es: "out s = out w @ es"
    "(?d, j, c) \<in> set (payload_pending s) \<or> gives_back E ?d es \<or> (\<exists>ev\<in>set post. payload_drops j ev)"
    by auto
  have "\<exists>missing' b'. payload_awaited (pre @ [?ev]) missing' b' \<and> block_digest (dalek E) b' = ?d \<and> block_round b' = j"
    using payload_entry [OF _ e] step by metis
  moreover have "\<exists>w\<in>set (payload_waiting s). \<not> cancelled s w \<and> block_digest (dalek E) (waiter_block w) = ?d"
    if "(?d, j, c) \<in> set (payload_pending s)"
    using payload_entry [OF I(2) that] by metis
  ultimately show "\<exists>es. out s = out (snd (payload_run E st (pre @ [?ev]))) @ es
      \<and> ((\<exists>w\<in>set (payload_waiting s). \<not> cancelled s w \<and> block_digest (dalek E) (waiter_block w) = ?d)
         \<or> gives_back E ?d es
         \<or> (\<exists>missing' b'. payload_awaited (pre @ [?ev]) missing' b'
              \<and> block_digest (dalek E) b' = ?d \<and> (\<exists>ev\<in>set post. payload_drops (block_round b') ev)))"
    unfolding at using es by blast
qed

end
