(* ===== verification/Availability.thy ===== *)
theory Availability
  imports Core_Safety Payload_Waiter
begin

text \<open>
  The payload of a block is in the store before the core votes for it or goes on with it: the promise of the mempool
  driver of \<open>consensus/src/mempool.rs\<close> to the core. The invariant is relative to a set \<open>A\<close> of digests that are in
  the store when an event comes; while the core handles the event it looks at no others.
\<close>

section \<open>The invariant\<close>

text \<open>What the core says of a block when it puts an effect into its log.\<close>

fun backed :: "digest set \<Rightarrow> effect \<Rightarrow> bool" where
  "backed A (Signed_vote b v) \<longleftrightarrow> set (block_payload b) \<subseteq> A"
| "backed A (To_commit b) \<longleftrightarrow> set (block_payload b) \<subseteq> A"
| "backed A (To_synchronizer b) \<longleftrightarrow> set (block_payload b) \<subseteq> A"
| "backed A (To_payload_waiter (Wait ds b)) \<longleftrightarrow> set (block_payload b) \<subseteq> A \<union> set ds"
| "backed A _ \<longleftrightarrow> True"

definition blocks_backed :: "('k, 'db) env \<Rightarrow> digest set \<Rightarrow> 'db store \<Rightarrow> bool" where
  "blocks_backed E A st \<longleftrightarrow> (\<forall>k v b. store_read (rocksdb E) k st = Inr (Some v) \<longrightarrow> de_block E v = Ok b \<longrightarrow>
     set (block_payload b) \<subseteq> A)"

definition available_at :: "('k, 'db) env \<Rightarrow> digest set \<Rightarrow> 'db core \<Rightarrow> bool" where
  "available_at E A s \<longleftrightarrow> (\<forall>d\<in>A. in_store E (my_store s) d) \<and> (\<forall>e\<in>set (out s). backed A e) \<and> blocks_backed E A (my_store s)"

text \<open>With the digests that are in the store now.\<close>

definition available :: "('k, 'db) env \<Rightarrow> 'db core \<Rightarrow> bool" where
  "available E s \<longleftrightarrow> available_at E {d. in_store E (my_store s) d} s"

lemma backed_mono: "backed A e \<Longrightarrow> A \<subseteq> B \<Longrightarrow> backed B e"
  by (cases "(A, e)" rule: backed.cases) auto

lemma available_at_now: "available_at E A s \<Longrightarrow> available E s"
  unfolding available_def available_at_def blocks_backed_def
  by (auto intro: backed_mono) blast

section \<open>Steps that neither write nor vote\<close>

fun unbacked :: "effect \<Rightarrow> bool" where
  "unbacked (Signed_vote b v) \<longleftrightarrow> False"
| "unbacked (To_commit b) \<longleftrightarrow> False"
| "unbacked (To_synchronizer b) \<longleftrightarrow> False"
| "unbacked (To_payload_waiter (Wait ds b)) \<longleftrightarrow> False"
| "unbacked _ \<longleftrightarrow> True"

definition quiet :: "('db, 'z) world_scheme \<Rightarrow> ('db, 'z) world_scheme \<Rightarrow> bool" where
  "quiet s t \<longleftrightarrow> my_store t = my_store s \<and> (\<exists>es. out t = out s @ es \<and> (\<forall>e\<in>set es. unbacked e))"

interpretation qt: step_relation quiet
proof
  show "quiet s s" for s :: "('a, 'b) world_scheme" by (simp add: quiet_def)
  show "quiet s t \<Longrightarrow> quiet t u \<Longrightarrow> quiet s u" for s t u :: "('a, 'b) world_scheme"
    by (auto simp: quiet_def)
qed

interpretation av: guarded "\<lambda>_ _. True" "\<lambda>_. True"
  by unfold_locales simp_all

named_theorems quiet_keeps

lemma quiet_basic [quiet_keeps]:
  "\<forall>e\<in>set es. unbacked e \<Longrightarrow> keeps quiet (emit es)"
  "(\<And>s. my_store (f s) = my_store s) \<Longrightarrow> (\<And>s. out (f s) = out s) \<Longrightarrow> keeps quiet (modify f)"
  "keeps quiet (zoom my_aggregator (\<lambda>a s. s\<lparr>my_aggregator := a\<rparr>) m)"
  "keeps quiet (expect msg x)" "keeps quiet (deserialize e y)" "keeps quiet (read_store E k)"
  "keeps quiet (net_send a message)" "keeps quiet (net_broadcast as message)" "keeps quiet (mempool_cleanup r)"
proof -
  show e: "keeps quiet (emit es)" if "\<forall>e\<in>set es. unbacked e" for es
    using that by (auto simp: emit_def quiet_def intro!: keeps_modify)
  show "(\<And>s. my_store (f s) = my_store s) \<Longrightarrow> (\<And>s. out (f s) = out s) \<Longrightarrow> keeps quiet (modify f)"
    by (auto simp: quiet_def intro!: keeps_modify)
  show "keeps quiet (zoom my_aggregator (\<lambda>a s. s\<lparr>my_aggregator := a\<rparr>) m)"
    by (auto simp: keeps_def zoom_def quiet_def split: prod.split)
  show "keeps quiet (expect msg x)" by (cases x) (auto simp: expect_def intro: qt.keeps_rules)
  show "keeps quiet (deserialize e y)" by (cases y) (auto simp: deserialize_def keeps_def ret_def fail_def panic_def qt.rel_refl)
  show "keeps quiet (read_store E k)" by (auto simp: read_store_def intro!: qt.keeps_rules)
  show "keeps quiet (net_send a message)" "keeps quiet (net_broadcast as message)" "keeps quiet (mempool_cleanup r)"
    by (auto simp: net_send_def net_broadcast_def mempool_cleanup_def intro!: e)
qed

lemma quiet_rounds [quiet_keeps]:
  "keeps quiet (increase_last_voted_round r)" "keeps quiet (update_high_qc q)" "keeps quiet (advance_round now r)"
  "keeps quiet (process_qc now q)" "keeps quiet (generate_proposal t)" "keeps quiet (leader E r)"
  "keeps quiet (propose_if_leader E t)" "keeps quiet (broadcast_message E p m)" "keeps quiet (cleanup_proposer b0 b1 b)"
  "keeps quiet (safety_rule_2 b)" "keeps quiet (missing_payload E xs)"
proof -
  show r: "keeps quiet (increase_last_voted_round r)" "keeps quiet (update_high_qc q)" "keeps quiet (advance_round now r)" for r q
    by (auto simp: increase_last_voted_round_def update_high_qc_def advance_round_def intro!: qt.keeps_rules quiet_keeps)
  show "keeps quiet (process_qc now q)"
    by (auto simp: process_qc_def intro!: qt.keeps_rules quiet_keeps r)
  show g: "keeps quiet (generate_proposal t)" "keeps quiet (leader E r)" for t r
    by (auto simp: generate_proposal_def leader_def intro!: qt.keeps_rules quiet_keeps)
  show "keeps quiet (propose_if_leader E t)"
    by (auto simp: propose_if_leader_def intro!: qt.keeps_rules g)
  show "keeps quiet (broadcast_message E p m)" "keeps quiet (cleanup_proposer b0 b1 b)" "keeps quiet (safety_rule_2 b)"
    by (auto simp: broadcast_message_def cleanup_proposer_def safety_rule_2_def Let_def intro!: qt.keeps_rules quiet_keeps)
  show "keeps quiet (missing_payload E xs)" by (induction xs) (auto intro!: qt.keeps_rules quiet_keeps)
qed

lemma quiet_handlers [quiet_keeps]:
  "keeps quiet (handle_vote E now v)" "keeps quiet (handle_timeout E now t)" "keeps quiet (local_timeout_round E now)"
  "keeps quiet (handle_tc E now c)" "keeps quiet (send_vote E now v)" "keeps quiet (boot E now)"
proof -
  show h: "keeps quiet (handle_vote E now v)" "keeps quiet (handle_timeout E now t)" for v t
    by (auto simp: handle_vote_def handle_timeout_def intro!: qt.keeps_rules quiet_keeps)
  show "keeps quiet (local_timeout_round E now)" "keeps quiet (handle_tc E now c)" "keeps quiet (send_vote E now v)"
    "keeps quiet (boot E now)"
    by (auto simp: local_timeout_round_def handle_tc_def send_vote_def boot_def intro!: qt.keeps_rules quiet_keeps h)
qed

lemma quiet_available: "quiet s t \<Longrightarrow> available_at E A s \<Longrightarrow> available_at E A t"
proof -
  have "unbacked e \<Longrightarrow> backed A e" for e by (cases "(A, e)" rule: backed.cases) auto
  then show "quiet s t \<Longrightarrow> available_at E A s \<Longrightarrow> available_at E A t"
    by (auto simp: quiet_def available_at_def)
qed

section \<open>Blocks\<close>

abbreviation backs ::
    "('k, 'db) env \<Rightarrow> digest set \<Rightarrow> ('db, 'a) core_proc \<Rightarrow> ('a \<Rightarrow> bool) \<Rightarrow> bool" where
  "backs E A m Q \<equiv> yields (\<lambda>_. True) UNIV (available_at E A) m Q"

lemma backs_quiet: "keeps quiet m \<Longrightarrow> backs E A m (\<lambda>_. True)"
  by (rule leadsI) (auto dest: keepsD intro: quiet_available)

lemmas backs_atoms = quiet_keeps [THEN backs_quiet]

lemma keeps_nothing: "keeps (\<lambda>_ _. True) m"
  by (simp add: keeps_def)

lemmas backs_bnd = av.yields_bnd [OF _ _ keeps_nothing]
lemmas backs_sq = av.yields_sq [OF _ _ keeps_nothing]

lemma backs_emit: "\<forall>e\<in>set es. backed A e \<Longrightarrow> backs E A (emit es) (\<lambda>_. True)"
  unfolding emit_def by (intro yields_modify) (auto simp: available_at_def)

lemma backs_read_store:
  "backs E A (read_store E k) (\<lambda>r. \<forall>v b. r = Some v \<longrightarrow> de_block E v = Ok b \<longrightarrow> set (block_payload b) \<subseteq> A)"
  unfolding read_store_def
  by (rule yields_bnd_pure(1), rule yields_pure(5)) (fastforce simp: available_at_def blocks_backed_def)

lemma backs_deserialize: "backs E A (deserialize e x) (\<lambda>a. x = Ok a)"
  by (cases x) (auto simp: deserialize_def leads_def ret_def fail_def panic_def)

lemma backs_expect: "backs E A (expect msg x) (\<lambda>a. x = Some a)"
  by (cases x) (auto simp: expect_def leads_def ret_def panic_def)

lemma backs_get_parent_block:
  assumes "set (block_payload b) \<subseteq> A"
  shows "backs E A (get_parent_block E b) (\<lambda>r. \<forall>p. r = Some p \<longrightarrow> set (block_payload p) \<subseteq> A)"
  unfolding get_parent_block_def using assms
  by (auto intro!: yields_if yields_pure backs_bnd [OF backs_read_store] backs_bnd [OF backs_deserialize]
      backs_sq yields_option backs_emit simp: block_genesis_def)

lemma backs_get_ancestors:
  assumes "set (block_payload b) \<subseteq> A"
  shows "backs E A (get_ancestors E b) (\<lambda>r. \<forall>b0 b1. r = Some (b0, b1) \<longrightarrow> set (block_payload b0) \<subseteq> A)"
  unfolding get_ancestors_def
  by (rule backs_bnd [OF backs_get_parent_block [OF assms]])
    (auto intro!: yields_option backs_bnd [OF backs_get_parent_block] backs_bnd [OF backs_expect]
      yields_pure)

lemma backs_write:
  assumes R: "rocksdb_ok (rocksdb E)" and "\<And>b. de_block E v = Ok b \<Longrightarrow> set (block_payload b) \<subseteq> A"
  shows "backs E A (write_store E k v) (\<lambda>_. True)"
proof -
  have "blocks_backed E A (store_write (rocksdb E) k v st)" if "blocks_backed E A st" for st
    using that assms(2) unfolding blocks_backed_def by (auto simp: st.read_write_if [OF R] split: if_splits)
  then show ?thesis
    unfolding write_store_def by (intro yields_modify) (auto simp: available_at_def in_store_write [OF R])
qed

lemma backs_store_block:
  assumes "rocksdb_ok (rocksdb E)" and "bincode_ok E" and "set (block_payload b) \<subseteq> A"
  shows "backs E A (store_block E b) (\<lambda>_. True)"
  unfolding store_block_def using assms
  by (auto simp: bincode_ok_def intro!: backs_bnd [OF backs_expect] backs_write)

lemma backs_walk_ancestors:
  assumes "set (block_payload b0) \<subseteq> A"
  shows "backs E A (walk_ancestors E lc b0) (\<lambda>as. \<forall>a\<in>set as. set (block_payload a) \<subseteq> A)"
proof (rule leadsI)
  fix s r t assume run: "walk_ancestors E lc b0 s = (r, t)" and I: "available_at E A s"
  show "available_at E A t \<and> (\<forall>as. r = Ok as \<longrightarrow> (\<forall>a\<in>set as. set (block_payload a) \<subseteq> A)) \<and> (\<forall>p. r = Panic p \<longrightarrow> p \<in> UNIV)"
  proof (cases "collect_ancestors E lc b0 [] s")
    case None
    then show ?thesis using run I by (auto simp: walk_ancestors_def)
  next
    case (Some rt)
    then have rt: "rt = (r, t)" using run by (simp add: walk_ancestors_def)
    have parents: "set (block_payload b) \<subseteq> A \<Longrightarrow>
        backs E A (get_parent_block E b) (\<lambda>r. \<forall>a. r = Some a \<longrightarrow> set (block_payload a) \<subseteq> A \<and> True)" for b
      using backs_get_parent_block [of b A E] by simp
    show ?thesis
      using collect_ancestors_yields [OF Some parents, where b = b0] I assms by (auto simp: rt)
  qed
qed

lemma backs_commit:
  assumes "set (block_payload b0) \<subseteq> A"
  shows "backs E A (commit E b0) (\<lambda>_. True)"
  unfolding commit_def Let_def using assms
  by (auto intro!: yields_bnd_pure(1) yields_if yields_pure backs_bnd [OF backs_walk_ancestors [OF assms]]
      backs_sq backs_emit quiet_basic(2) [THEN backs_quiet])

lemma backs_vote_for_block:
  assumes "set (block_payload b) \<subseteq> A"
  shows "backs E A (vote_for_block E now b) (\<lambda>_. True)"
proof -
  have "backs E A (make_vote E b) (\<lambda>_. True)"
    unfolding make_vote_def using assms
    by (auto intro!: yields_bnd_pure(1) backs_bnd [OF quiet_rounds(10) [THEN backs_quiet]]
        backs_bnd [OF backs_expect] yields_if yields_pure backs_sq backs_emit quiet_rounds(1) [THEN backs_quiet])
  then show ?thesis
    unfolding vote_for_block_def
    by (auto intro!: yields_bnd_pure(1) yields_if yields_pure backs_bnd yields_option backs_atoms)
qed

lemma backs_process_block:
  assumes "rocksdb_ok (rocksdb E)" and "bincode_ok E" and "set (block_payload b) \<subseteq> A"
  shows "backs E A (process_block E now b) (\<lambda>_. True)"
proof -
  have "backs E A (commit_two_chain E b0 b1) (\<lambda>_. True)" if "set (block_payload b0) \<subseteq> A" for b0 b1
    unfolding commit_two_chain_def using that
    by (auto intro!: yields_if yields_pure backs_sq backs_commit backs_atoms)
  then show ?thesis
    unfolding process_block_def using assms
    by (auto intro!: backs_bnd [OF backs_get_ancestors] yields_option yields_pure backs_sq backs_store_block
        backs_vote_for_block backs_atoms)
qed

section \<open>Proposals and steps\<close>

text \<open>While nothing is written, the digests in the store are those that were there when the event came.\<close>

definition available_now :: "('k, 'db) env \<Rightarrow> digest set \<Rightarrow> 'db core \<Rightarrow> bool" where
  "available_now E A s \<longleftrightarrow> available_at E A s \<and> A = {d. in_store E (my_store s) d}"

lemma available_now_at: "available_now E A s \<Longrightarrow> available_at E A s"
  unfolding available_now_def by blast

lemma available_now_self: "available E s \<longleftrightarrow> available_now E {d. in_store E (my_store s) d} s"
  by (simp add: available_def available_now_def)

abbreviation starts_with ::
    "('k, 'db) env \<Rightarrow> digest set \<Rightarrow> ('db, 'a) core_proc \<Rightarrow> ('a \<Rightarrow> bool) \<Rightarrow> bool" where
  "starts_with E A m Q \<equiv> yields (\<lambda>_. True) UNIV (available_now E A) m Q"

lemma starts_quiet: "keeps quiet m \<Longrightarrow> starts_with E A m (\<lambda>_. True)"
  by (rule leadsI) (auto simp: available_now_def dest!: keepsD intro: quiet_available; simp add: quiet_def)

lemma missing_payload_run:
  assumes "missing_payload E xs s = (Ok ms, t)"
  shows "set xs \<subseteq> {d. in_store E (my_store s) d} \<union> set ms"
  using assms
proof (induction xs arbitrary: ms t)
  case (Cons x xs)
  from Cons.prems obtain v s1 ms' where v: "read_store E (digest_bytes x) s = (Ok v, s1)"
    and ms': "missing_payload E xs s1 = (Ok ms', t)" and ms: "ms = (if v = None then x # ms' else ms')"
    by (auto elim!: bnd_Ok_cases simp: ret_def)
  have s1: "s1 = s" "store_read (rocksdb E) (digest_bytes x) (my_store s) = Inr v"
    using v by (auto simp: read_store_def bnd_gets lift_result_def map_err_def split: sum.splits)
  show ?case using Cons.IH [of ms' t] ms' s1 ms by (cases v) (auto simp: in_store_def)
qed simp

lemma backs_mempool_verify:
  "leads (\<lambda>_. True) UNIV (available_now E A) (mempool_verify E b) (available_at E A)
     (\<lambda>r. r \<longrightarrow> set (block_payload b) \<subseteq> A)"
proof -
  have m: "starts_with E A (missing_payload E xs) (\<lambda>ms. set xs \<subseteq> A \<union> set ms)" for xs
    using starts_quiet [OF quiet_rounds(11), of E A E xs]
    by (auto simp: leads_def available_now_def dest!: missing_payload_run)
  show ?thesis
    unfolding mempool_verify_def
    by (rule av.leads_bnd [OF m _ keeps_nothing])
      (auto dest!: available_now_at intro!: available_now_at
        simp: leads_def ret_def sq_def bnd_def emit_def modify_def available_at_def)
qed

lemma backs_handle_proposal:
  assumes "rocksdb_ok (rocksdb E)" and "bincode_ok E"
  shows "leads (\<lambda>_. True) UNIV (available_now E A) (handle_proposal E now b) (available_at E A) (\<lambda>_. True)"
proof -
  have stop: "available_now E A s \<Longrightarrow> available_at E A s" for s by (rule available_now_at)
  note bind = av.leads_bnd [OF _ _ keeps_nothing stop]
  note seq = av.leads_sq [OF _ _ keeps_nothing stop]
  have q: "starts_with E A (lift_result x) (\<lambda>_. True)" for x :: "consensus_error + unit" by (intro yields_pure) simp
  have o: "starts_with E A (case block_tc b of None \<Rightarrow> ret () | Some t \<Rightarrow> advance_round now (tc_round t)) (\<lambda>_. True)"
    by (intro starts_quiet qt.keeps_rules quiet_keeps)
  have v: "leads (\<lambda>_. True) UNIV (available_now E A)
      (bnd (mempool_verify E b) (\<lambda>available. if \<not> available then ret () else process_block E now b)) (available_at E A) (\<lambda>_. True)"
    by (rule av.leads_bnd [OF backs_mempool_verify _ keeps_nothing])
      (auto intro!: yields_pure backs_process_block assms)
  show ?thesis
    unfolding handle_proposal_def Let_def
    by (rule bind [OF starts_quiet [OF quiet_rounds(6)]], rule seq [OF q], rule seq [OF q],
        rule seq [OF starts_quiet [OF quiet_rounds(4)]], rule seq [OF o], rule v)
qed

text \<open>What the events must satisfy: blocks that come back have their payload, and other tasks write no blocks.\<close>

fun event_backed :: "('k, 'db) env \<Rightarrow> digest set \<Rightarrow> event \<Rightarrow> bool" where
  "event_backed E A (Loopback b) \<longleftrightarrow> set (block_payload b) \<subseteq> A"
| "event_backed E A (Other_write k v) \<longleftrightarrow> (\<forall>b. de_block E v \<noteq> Ok b)"
| "event_backed E A _ \<longleftrightarrow> True"

lemma step_available:
  fixes E :: "('k, 'db) env"
  assumes R: "rocksdb_ok (rocksdb E)" and B: "bincode_ok E" and now: "available_now E A s" and ev: "event_backed E A ev"
    and run: "step E now ev s = (r, t)"
  shows "available_at E A t"
proof -
  have at: "available_at E A s" by (rule available_now_at [OF now])
  obtain r' where h: "handle E now ev s = (r', t)"
    using run by (auto simp: step_def split: prod.splits outcome.splits)
  have q: "available_at E A t" if "keeps quiet m" "m s = (r', t)" for m :: "('db, unit) core_proc"
    using quiet_available [OF keepsD [OF that] at] .
  have k: "available_at E A t" if "backs E A m (\<lambda>_. True)" "m s = (r', t)" for m :: "('db, unit) core_proc"
    using leadsD(1) [OF that _ at] by simp
  show ?thesis
  proof (cases ev)
    case (Message m)
    show ?thesis
    proof (cases m)
      case (Propose b)
      have "handle_proposal E now b s = (r', t)" using h by (simp add: Message Propose handle_def)
      from leadsD(1) [OF backs_handle_proposal [OF R B] this _ now] show ?thesis by simp
    next
      case (VoteMsg v)
      then show ?thesis using h q [OF quiet_handlers(1)] by (simp add: Message handle_def)
    next
      case (TimeoutMsg c)
      then show ?thesis using h q [OF quiet_handlers(2)] by (simp add: Message handle_def)
    next
      case (TCMsg c)
      then show ?thesis using h q [OF quiet_handlers(4)] by (simp add: Message handle_def)
    next
      case (SyncRequest d k)
      then show ?thesis using h at by (simp add: Message handle_def panic_def)
    qed
  next
    case (Loopback b)
    then show ?thesis using h ev k [OF backs_process_block [OF R B]] by (simp add: handle_def)
  next
    case Timer_fired
    then show ?thesis using h q [OF quiet_handlers(3)] by (simp add: handle_def)
  next
    case (Other_write key v)
    then show ?thesis using h ev k [OF backs_write [OF R]] by (auto simp: handle_def)
  qed
qed

end
