(* ===== verification/Core_Progress.thy ===== *)
theory Core_Progress
  imports Core_Properties Availability
begin

text \<open>
  Progress of the core of \<open>consensus/src/core.rs\<close>: the votes of a quorum, or the timeouts of one, that reach a core take it out of
  their round, whatever the order in which they come and however often some of them are repeated.
\<close>

section \<open>Votes\<close>

definition vote_maker :: "u64 \<Rightarrow> digest \<Rightarrow> 'db core \<Rightarrow> qc_maker" where
  "vote_maker r d s = or_new qc_maker_new (or_new Map.empty (votes_aggregators (my_aggregator s) r) d)"

text \<open>The core after it has made a QC for round \<open>r\<close>.\<close>

definition voted_past :: "('k, 'db) env \<Rightarrow> digest \<Rightarrow> u64 \<Rightarrow> 'db core \<Rightarrow> bool" where
  "voted_past E h r t \<longleftrightarrow> cur_round t = r + 1 \<and> qc_hash (high_qc t) = h \<and> qc_round (high_qc t) = r
     \<and> (get_leader (my_committee E) (r + 1) = Some (my_name E) \<longrightarrow> To_proposer (Make (r + 1) (high_qc t) None) \<in> set (out t))"

definition collects_votes :: "('k, 'db) env \<Rightarrow> u64 \<Rightarrow> digest \<Rightarrow> vote list \<Rightarrow> 'db core \<Rightarrow> bool" where
  "collects_votes E r d seen s \<longleftrightarrow> cur_round s \<le> r \<and> qc_round (high_qc s) < r \<and> agg_committee (my_aggregator s) = my_committee E
     \<and> collect_all (qc_step (my_committee E)) seen qc_maker_new = (0, vote_maker r d s)"

lemma next_round: "(r :: u64) < - 1 \<Longrightarrow> r < r + 1"
  using unat_next_round [of r] by (simp add: word_less_nat_alt)

lemma vote_step:
  assumes "authorities (my_committee E) \<noteq> []" and S: "collects_votes E (vote_round v) (vote_digest (dalek E) v) seen s"
    and v: "vote_verify (dalek E) (my_committee E) v = Inr ()"
  shows "\<exists>t. step E now (Message (VoteMsg v)) s = (Ok (), t)
    \<and> (voted_past E (vote_hash v) (vote_round v) t \<or> collects_votes E (vote_round v) (vote_digest (dalek E) v) (seen @ [v]) t)"
proof -
  let ?c = "my_committee E" and ?r = "vote_round v" and ?d = "vote_digest (dalek E) v"
  have new: "\<not> ?r < cur_round s" and high: "qc_round (high_qc s) < ?r" and c: "agg_committee (my_aggregator s) = ?c"
    and m: "collect_all (qc_step ?c) seen qc_maker_new = (0, vote_maker ?r ?d s)"
    using S by (auto simp: collects_votes_def)
  obtain l where l: "get_leader ?c (?r + 1) = Some l" using get_leader_Some [OF assms(1)] by blast
  obtain res m' where app: "qc_maker_append v ?c (vote_maker ?r ?d s) = (res, m')" by (cases "qc_maker_append v ?c (vote_maker ?r ?d s)")
  let ?a = "(my_aggregator s)\<lparr>votes_aggregators := (votes_aggregators (my_aggregator s))
      (?r \<mapsto> (or_new Map.empty (votes_aggregators (my_aggregator s) ?r))(?d \<mapsto> m'))\<rparr>"
  have add: "add_vote (dalek E) v (my_aggregator s) = (res, ?a)"
    using app c by (simp add: add_vote_def vote_maker_def Let_def)
  have snoc: "collect_all (qc_step ?c) (seen @ [v]) qc_maker_new = (if \<exists>q. res = Ok (Some q) then Suc 0 else 0, m')"
    using m app by (simp add: collect_all_snoc qc_step_def)
  show ?thesis
  proof (cases "\<exists>q. res = Ok (Some q)")
    case True
    then obtain q where res: "res = Ok (Some q)" by blast
    then have q: "qc_hash q = vote_hash v" "qc_round q = ?r"
      using app by (auto simp: qc_maker_append_def Let_def split: if_splits)
    show ?thesis
      using new high v add res q l
      by (simp add: step_def handle_def handle_vote_def run_defs process_qc_def advance_round_def update_high_qc_def
          propose_if_leader_def leader_def generate_proposal_def voted_past_def)
  next
    case False
    then have quiet: "collect_all (qc_step ?c) (seen @ [v]) qc_maker_new = (0, m')" using snoc by simp
    have "step E now (Message (VoteMsg v)) s = (Ok (), s\<lparr>my_aggregator := ?a\<rparr>)"
      using new v add False app
      by (cases res) (auto simp: step_def handle_def handle_vote_def run_defs qc_maker_append_def Let_def split: option.splits if_splits)
    moreover have "collects_votes E ?r ?d (seen @ [v]) (s\<lparr>my_aggregator := ?a\<rparr>)"
      using S quiet by (simp add: collects_votes_def vote_maker_def or_new_def)
    ultimately show ?thesis by blast
  qed
qed

lemma old_messages_ignored:
  assumes "\<forall>x\<in>set xs. (\<exists>v. snd x = Message (VoteMsg v) \<and> vote_round v < cur_round s)
      \<or> (\<exists>t. snd x = Message (TimeoutMsg t) \<and> timeout_round t < cur_round s)"
  shows "core_loop E xs s = (Ok (), s)"
  using assms
proof (induction xs)
  case (Cons x xs)
  obtain now ev where x: "x = (now, ev)" by (cases x)
  have "step E now ev s = (Ok (), s)"
    using Cons.prems by (auto simp: x step_def handle_def handle_vote_def handle_timeout_def run_defs)
  with Cons show ?case by (simp add: x run_sq)
qed (simp add: ret_def)

lemma votes_loop:
  assumes c: "committee_ok (my_committee E)" "authorities (my_committee E) \<noteq> []" and r: "r < - 1"
  shows "\<forall>x\<in>set vs. vote_hash (snd x) = h \<and> vote_round (snd x) = r \<and> vote_verify (dalek E) (my_committee E) (snd x) = Inr () \<Longrightarrow>
    collects_votes E r d seen s \<Longrightarrow> \<forall>x\<in>set vs. vote_digest (dalek E) (snd x) = d \<Longrightarrow>
    quorum (my_committee E) (vote_author ` set (seen @ map snd vs)) \<Longrightarrow>
    \<exists>t. core_loop E (map (\<lambda>(now, v). (now, Message (VoteMsg v))) vs) s = (Ok (), t) \<and> voted_past E h r t"
proof (induction vs arbitrary: seen s)
  case Nil
  then show ?case
    using qm.emits_once [OF c(1), of seen] by (simp add: collects_votes_def quorum_def weight_of_def)
next
  case (Cons x vs)
  obtain now v where x: "x = (now, v)" by (cases x)
  have v: "vote_hash v = h" "vote_round v = r" "vote_digest (dalek E) v = d" "vote_verify (dalek E) (my_committee E) v = Inr ()"
    using Cons.prems by (simp_all add: x)
  obtain t where t: "step E now (Message (VoteMsg v)) s = (Ok (), t)"
    and "voted_past E h r t \<or> collects_votes E r d (seen @ [v]) t"
    using vote_step [OF c(2) _ v(4), of seen s now] Cons.prems(2) v by auto
  from this(2) show ?case
  proof
    assume p: "voted_past E h r t"
    have "core_loop E (map (\<lambda>(now, v). (now, Message (VoteMsg v))) vs) t = (Ok (), t)"
      using Cons.prems(1) p next_round [OF r] by (intro old_messages_ignored) (auto simp: voted_past_def)
    with t p show ?thesis by (simp add: x run_sq)
  next
    assume "collects_votes E r d (seen @ [v]) t"
    from Cons.IH [OF _ this] Cons.prems t show ?thesis by (simp add: x run_sq)
  qed
qed

section \<open>Timeouts\<close>

definition timeout_maker :: "u64 \<Rightarrow> 'db core \<Rightarrow> tc_maker" where
  "timeout_maker r s = or_new tc_maker_new (timeouts_aggregators (my_aggregator s) r)"

definition collects_timeouts :: "('k, 'db) env \<Rightarrow> u64 \<Rightarrow> timeout list \<Rightarrow> 'db core \<Rightarrow> bool" where
  "collects_timeouts E r seen s \<longleftrightarrow> cur_round s \<le> r \<and> agg_committee (my_aggregator s) = my_committee E
     \<and> collect_all (tc_step (my_committee E)) seen tc_maker_new = (0, timeout_maker r s)"

text \<open>The QC in a timeout may already take the core past the round; if not, it leaves the timeouts of the round alone.\<close>

lemma process_qc_run:
  assumes "qc_round q < - 1"
  shows "\<exists>u. process_qc now q s = (Ok (), u) \<and> out u = out s \<and> agg_committee (my_aggregator u) = agg_committee (my_aggregator s)
    \<and> (r < cur_round u \<or> (cur_round s \<le> r \<longrightarrow> cur_round u \<le> r \<and> timeout_maker r u = timeout_maker r s))"
proof -
  have n: "unat (qc_round q + 1) = unat (qc_round q) + 1" by (rule unat_next_round [OF assms])
  show ?thesis
  proof (cases "qc_round q < cur_round s")
    case True
    then show ?thesis
      by (simp add: process_qc_def advance_round_def update_high_qc_def run_defs timeout_maker_def)
  next
    case False
    have "r < qc_round q + 1 \<or> qc_round q + 1 \<le> r" by (metis not_less)
    with False show ?thesis
      by (auto simp: process_qc_def advance_round_def update_high_qc_def run_defs timeout_maker_def cleanup_def)
  qed
qed

text \<open>The timeout that completes a TC.\<close>

lemma timeout_completes:
  assumes a: "authorities (my_committee E) \<noteq> []" and ser: "\<And>m. ser_msg E m \<noteq> None"
    and new: "\<not> timeout_round x < cur_round s" and r: "timeout_round x < - 1"
    and v: "timeout_verify (dalek E) (my_committee E) x = Inr ()" and u: "process_qc now (timeout_high_qc x) s = (Ok (), u)"
    and add: "add_timeout x (my_aggregator u) = (Ok (Some y), ag)" and y: "tc_round y = timeout_round x"
  shows "\<exists>t. step E now (Message (TimeoutMsg x)) s = (Ok (), t) \<and> timeout_round x < cur_round t"
proof -
  let ?r = "timeout_round x"
  let ?w = "(if ?r < cur_round u then u\<lparr>my_aggregator := ag\<rparr>
    else u\<lparr>my_timer := start_round now (reset now (my_timer u)), cur_round := ?r + 1, my_aggregator := cleanup (?r + 1) ag\<rparr>)"
  have w: "?r < cur_round ?w" using next_round [OF r] by simp
  obtain m where m: "ser_msg E (TCMsg y) = Some m" using ser [of "TCMsg y"] by auto
  have "\<exists>es. broadcast_message E f (TCMsg y) w = (Ok (), w\<lparr>out := out w @ es\<rparr>)" for f w
    by (auto simp: broadcast_message_def m run_defs Let_def net_broadcast_def)
  then obtain es where es: "broadcast_message E ''Failed to serialize timeout certificate'' (TCMsg y) ?w
    = (Ok (), ?w\<lparr>out := out ?w @ es\<rparr>)" by blast
  have "\<exists>t. propose_if_leader E z w = (Ok (), t) \<and> cur_round t = cur_round w" for z w
    using get_leader_Some [OF a, of "cur_round w"] by (auto simp: propose_if_leader_def leader_def run_defs generate_proposal_def)
  then obtain t where t: "propose_if_leader E (Some y) (?w\<lparr>out := out ?w @ es\<rparr>) = (Ok (), t)"
    "cur_round t = cur_round (?w\<lparr>out := out ?w @ es\<rparr>)" by blast
  have z: "zoom my_aggregator (\<lambda>a s. s\<lparr>my_aggregator := a\<rparr>) (add_timeout x) u = (Ok (Some y), u\<lparr>my_aggregator := ag\<rparr>)"
    by (simp add: zoom_def add)
  have "advance_round now (tc_round y) (u\<lparr>my_aggregator := ag\<rparr>) = (Ok (), ?w)"
    by (simp add: advance_round_def run_defs y)
  then have "handle_timeout E now x s = (Ok (), t)"
    using new v u z es t(1) by (simp add: handle_timeout_def bnd_gets proc_simps)
  then have "step E now (Message (TimeoutMsg x)) s = (Ok (), t)" by (simp add: step_def handle_def)
  moreover have "?r < cur_round t" by (cases "?r < cur_round u") (use t(2) w in simp_all)
  ultimately show ?thesis by blast
qed

lemma timeout_step:
  assumes a: "authorities (my_committee E) \<noteq> []" and ser: "\<And>m. ser_msg E m \<noteq> None"
    and S: "collects_timeouts E (timeout_round x) seen s" and r: "timeout_round x < - 1"
    and v: "timeout_verify (dalek E) (my_committee E) x = Inr ()" and q: "qc_round (timeout_high_qc x) < - 1"
  shows "\<exists>t. step E now (Message (TimeoutMsg x)) s = (Ok (), t)
    \<and> (timeout_round x < cur_round t \<or> collects_timeouts E (timeout_round x) (seen @ [x]) t)"
proof -
  let ?c = "my_committee E" and ?r = "timeout_round x"
  have new: "\<not> ?r < cur_round s" and c: "agg_committee (my_aggregator s) = ?c"
    and m: "collect_all (tc_step ?c) seen tc_maker_new = (0, timeout_maker ?r s)"
    using S by (auto simp: collects_timeouts_def)
  obtain u where u: "process_qc now (timeout_high_qc x) s = (Ok (), u)" "agg_committee (my_aggregator u) = ?c"
    "?r < cur_round u \<or> cur_round u \<le> ?r \<and> timeout_maker ?r u = timeout_maker ?r s"
    using process_qc_run [OF q, of now s ?r] new c by auto
  obtain res m' where app: "tc_maker_append x ?c (timeout_maker ?r u) = (res, m')"
    by (cases "tc_maker_append x ?c (timeout_maker ?r u)")
  let ?a = "(my_aggregator u)\<lparr>timeouts_aggregators := (timeouts_aggregators (my_aggregator u))(?r \<mapsto> m')\<rparr>"
  have add: "add_timeout x (my_aggregator u) = (res, ?a)"
    using app u(2) by (simp add: add_timeout_def timeout_maker_def Let_def)
  show ?thesis
  proof (cases "\<exists>q. res = Ok (Some q)")
    case True
    then obtain y where res: "res = Ok (Some y)" by blast
    then have y: "tc_round y = ?r" using app by (auto simp: tc_maker_append_def Let_def split: if_splits)
    from timeout_completes [OF a ser new r v u(1) add [unfolded res] y] show ?thesis by blast
  next
    case False
    have t: "step E now (Message (TimeoutMsg x)) s = (Ok (), u\<lparr>my_aggregator := ?a\<rparr>)"
    proof -
      have z: "zoom my_aggregator (\<lambda>a s. s\<lparr>my_aggregator := a\<rparr>) (add_timeout x) u = (res, u\<lparr>my_aggregator := ?a\<rparr>)"
        by (simp add: zoom_def add)
      have "res = Ok None \<or> (\<exists>e. res = Err e)"
        using app False by (auto simp: tc_maker_append_def Let_def split: if_splits)
      then show ?thesis using new v u(1) z by (auto simp: step_def handle_def handle_timeout_def proc_simps)
    qed
    show ?thesis
    proof (cases "?r < cur_round u")
      case True
      with t show ?thesis by simp
    next
      case below: False
      then have u': "cur_round u \<le> ?r" "timeout_maker ?r u = timeout_maker ?r s" using u(3) by auto
      have "collect_all (tc_step ?c) (seen @ [x]) tc_maker_new = (0, m')"
        using m app False u'(2) by (simp add: collect_all_snoc tc_step_def)
      then have "collects_timeouts E ?r (seen @ [x]) (u\<lparr>my_aggregator := ?a\<rparr>)"
        using u(2) u'(1) by (simp add: collects_timeouts_def timeout_maker_def or_new_def)
      with t show ?thesis by blast
    qed
  qed
qed

lemma timeouts_loop:
  assumes c: "committee_ok (my_committee E)" "authorities (my_committee E) \<noteq> []" and r: "r < - 1"
    and ser: "\<And>m. ser_msg E m \<noteq> None"
  shows "\<forall>x\<in>set ts. timeout_round (snd x) = r \<and> qc_round (timeout_high_qc (snd x)) < - 1
      \<and> timeout_verify (dalek E) (my_committee E) (snd x) = Inr () \<Longrightarrow>
    collects_timeouts E r seen s \<Longrightarrow>
    quorum (my_committee E) (timeout_author ` set (seen @ map snd ts)) \<Longrightarrow>
    \<exists>t. core_loop E (map (\<lambda>(now, x). (now, Message (TimeoutMsg x))) ts) s = (Ok (), t) \<and> r < cur_round t"
proof (induction ts arbitrary: seen s)
  case Nil
  then show ?case
    using tm.emits_once [OF c(1), of seen] by (simp add: collects_timeouts_def quorum_def weight_of_def)
next
  case (Cons y ts)
  obtain now x where y: "y = (now, x)" by (cases y)
  have x: "timeout_round x = r" "qc_round (timeout_high_qc x) < - 1" "timeout_verify (dalek E) (my_committee E) x = Inr ()"
    using Cons.prems by (simp_all add: y)
  obtain t where t: "step E now (Message (TimeoutMsg x)) s = (Ok (), t)"
    and "r < cur_round t \<or> collects_timeouts E r (seen @ [x]) t"
    using timeout_step [OF c(2) ser _ _ x(3,2), of seen s now] Cons.prems(2) x(1) r by auto
  from this(2) show ?case
  proof
    assume p: "r < cur_round t"
    have "core_loop E (map (\<lambda>(now, x). (now, Message (TimeoutMsg x))) ts) t = (Ok (), t)"
      using Cons.prems(1) p by (intro old_messages_ignored) auto
    with t p show ?thesis by (simp add: y run_sq)
  next
    assume "collects_timeouts E r (seen @ [x]) t"
    from Cons.IH [OF _ this] Cons.prems t show ?thesis by (simp add: y run_sq)
  qed
qed

lemma quorum_members: "quorum c A \<Longrightarrow> authorities c \<noteq> []"
  using quorum_threshold_pos [of c] by (auto simp: quorum_def weight_of_def stake_def)

section \<open>A proposal on the happy path\<close>

lemma process_qc_current:
  assumes "cur_round s \<le> qc_round q + 1" and "qc_round q < - 1"
  shows "\<exists>u. process_qc now q s = (Ok (), u) \<and> cur_round u = qc_round q + 1 \<and> my_store u = my_store s \<and> out u = out s
    \<and> last_voted_round u = last_voted_round s \<and> last_committed_round u = last_committed_round s"
proof (cases "qc_round q < cur_round s")
  case True
  then have "cur_round s = qc_round q + 1"
    using assms unat_next_round [OF assms(2)] by (simp add: word_less_nat_alt word_le_nat_alt word_unat_eq_iff)
  with True show ?thesis by (simp add: process_qc_def advance_round_def update_high_qc_def run_defs)
next
  case False
  then show ?thesis by (simp add: process_qc_def advance_round_def update_high_qc_def run_defs)
qed

lemma mempool_verify_present:
  assumes "\<forall>x\<in>set (block_payload b). in_store E (my_store s) x"
  shows "mempool_verify E b s = (Ok True, s)"
proof -
  have "missing_payload E xs s = (Ok [], s)" if "\<forall>x\<in>set xs. in_store E (my_store s) x" for xs
    using that by (induction xs) (auto simp: in_store_def read_store_def run_defs map_err_def)
  from this [OF assms] show ?thesis by (simp add: mempool_verify_def run_defs)
qed

lemma get_ancestors_stored:
  assumes "stored_parent E (my_store s) b b1" and "stored_parent E (my_store s) b1 b0"
  shows "get_ancestors E b s = (Ok (Some (b0, b1)), s)"
  using get_parent_block_stored [OF assms(1)] get_parent_block_stored [OF assms(2)]
  by (simp add: get_ancestors_def run_defs)

text \<open>A write under a new key leaves the parents where they are.\<close>

lemma stored_parent_write:
  assumes "rocksdb_ok (rocksdb E)" and "store_read (rocksdb E) k st = Inr None" and "stored_parent E st x y"
  shows "stored_parent E (store_write (rocksdb E) k v st) x y"
  using assms(2,3) by (auto simp: stored_parent_def st.read_write_if [OF assms(1)])

lemma ancestry_mono: "ancestry D b as \<Longrightarrow> (\<And>x y. D x y \<Longrightarrow> D' x y) \<Longrightarrow> ancestry D' b as"
  by (induction as arbitrary: b) auto

lemma make_vote_run:
  assumes "last_voted_round s < block_round b" and "qc_round (block_qc b) + 1 = block_round b" and "block_tc b = None"
    and "vote_new (dalek E) b (my_name E) (my_secret E) = Some v"
  shows "make_vote E b s = (Ok (Some v), s\<lparr>last_voted_round := block_round b, out := out s @ [Signed_vote b v]\<rparr>)"
  using assms by (simp add: make_vote_def safety_rule_2_def increase_last_voted_round_def run_defs Let_def max_def)

lemma handle_vote_returns:
  assumes "authorities (my_committee E) \<noteq> []"
  shows "\<exists>r t. handle_vote E now v s = (r, t) \<and> (r = Ok () \<or> (\<exists>e. r = Err e)) \<and> last_voted_round t = last_voted_round s
    \<and> last_committed_round t = last_committed_round s \<and> (cur_round t = cur_round s \<or> cur_round t = vote_round v + 1)"
proof -
  define l where "l k = the (get_leader (my_committee E) k)" for k
  have l: "get_leader (my_committee E) k = Some (l k)" for k using get_leader_Some [OF assms, of k] by (auto simp: l_def)
  obtain res a where a: "add_vote (dalek E) v (my_aggregator s) = (res, a)" by (cases "add_vote (dalek E) v (my_aggregator s)")
  then have "res = Ok None \<or> (\<exists>q. res = Ok (Some q) \<and> qc_round q = vote_round v) \<or> (\<exists>e. res = Err e)"
    by (auto simp: add_vote_def qc_maker_append_def Let_def split: prod.splits if_splits)
  then show ?thesis
    using a by (cases "vote_verify (dalek E) (my_committee E) v")
      (auto simp: handle_vote_def process_qc_def advance_round_def update_high_qc_def propose_if_leader_def leader_def l
        generate_proposal_def run_defs split: option.splits)
qed

text \<open>The vote for a block of the current round is signed, and goes to the leader of the next round.\<close>

lemma vote_for_block_run:
  assumes a: "authorities (my_committee E) \<noteq> []" and cur: "cur_round s = block_round b" and voted: "last_voted_round s < block_round b"
    and ext: "qc_round (block_qc b) + 1 = block_round b" "block_tc b = None"
    and v: "vote_new (dalek E) b (my_name E) (my_secret E) = Some v"
    and l: "get_leader (my_committee E) (block_round b + 1) = Some l" and addr: "address (my_committee E) l = Some addr"
    and m: "ser_msg E (VoteMsg v) = Some m"
  shows "\<exists>r t es. vote_for_block E now b s = (r, t) \<and> (r = Ok () \<or> (\<exists>e. r = Err e)) \<and> out t = out s @ Signed_vote b v # es
    \<and> my_store t = my_store s \<and> (l \<noteq> my_name E \<longrightarrow> Net_send addr m \<in> set es) \<and> commits es = []
    \<and> last_voted_round t = block_round b \<and> last_committed_round t = last_committed_round s
    \<and> (cur_round t = block_round b \<or> cur_round t = block_round b + 1)"
proof -
  let ?s = "s\<lparr>last_voted_round := block_round b, out := out s @ [Signed_vote b v]\<rparr>"
  have run: "vote_for_block E now b s = send_vote E now v ?s"
    using cur make_vote_run [OF voted ext v] by (simp add: vote_for_block_def run_defs)
  show ?thesis
  proof (cases "l = my_name E")
    case False
    then have "vote_for_block E now b s = (Ok (), ?s\<lparr>out := out ?s @ [Net_send addr m]\<rparr>)"
      using cur l addr m by (simp add: run send_vote_def leader_def net_send_def run_defs)
    then show ?thesis using cur by (simp add: commits_def)
  next
    case True
    then have "send_vote E now v ?s = handle_vote E now v ?s"
      using cur l by (simp add: send_vote_def leader_def run_defs)
    moreover obtain r t where t: "handle_vote E now v ?s = (r, t)" "r = Ok () \<or> (\<exists>e. r = Err e)"
      "last_voted_round t = block_round b" "last_committed_round t = last_committed_round s"
      "cur_round t = block_round b \<or> cur_round t = block_round b + 1"
      using handle_vote_returns [OF a, of now v ?s] cur vote_new_fields [OF v] by auto
    moreover obtain es where es: "my_store t = my_store ?s" "out t = out ?s @ es" "\<forall>e\<in>set es. unbacked e"
      using keepsD [OF quiet_handlers(1) t(1)] by (auto simp: quiet_def)
    moreover have "commits es = []"
    proof -
      have "To_commit x \<notin> set es" for x using es(3) by (auto dest: bspec)
      then have "set (commits es) = {}" by (simp add: set_commits)
      then show ?thesis by simp
    qed
    ultimately show ?thesis using True run by auto
  qed
qed

text \<open>
  What the core delivers for the 2-chain \<open>b0\<close>, \<open>b1\<close> when its last committed round is \<open>c\<close>, and its last committed round then:
  the undelivered ancestors of \<open>b0\<close> and \<open>b0\<close> if the chain is one of consecutive rounds and new, else nothing.
\<close>

definition delivers ::
    "('k, 'db) env \<Rightarrow> 'db store \<Rightarrow> u64 \<Rightarrow> block \<Rightarrow> block \<Rightarrow> block list \<Rightarrow> u64 \<Rightarrow> bool" where
  "delivers E st c b1 b0 cs r \<longleftrightarrow>
     (if block_round b0 + 1 = block_round b1 \<and> c < block_round b0
      then r = block_round b0 \<and> (\<exists>ps. cs = ps @ [b0] \<and> ancestry (stored_parent E st) b0 ps
        \<and> (\<forall>p\<in>set (butlast (b0 # ps)). c + 1 < block_round p) \<and> \<not> c + 1 < block_round (last (b0 # ps)))
      else cs = [] \<and> r = c)"

lemma delivers_write:
  assumes "rocksdb_ok (rocksdb E)" and "store_read (rocksdb E) k st = Inr None" and "delivers E st c b1 b0 cs r"
  shows "delivers E (store_write (rocksdb E) k v st) c b1 b0 cs r"
  using assms(3) stored_parent_write [OF assms(1,2)]
  by (auto simp: delivers_def split: if_splits intro!: ancestry_mono [of "stored_parent E st"])

lemma commit_two_chain_run:
  assumes "delivers E (my_store s) (last_committed_round s) b1 b0 cs r"
  shows "\<exists>es. commit_two_chain E b0 b1 s = (Ok (), s\<lparr>last_committed_round := r, out := out s @ es\<rparr>) \<and> commits es = cs"
proof (cases "block_round b0 + 1 = block_round b1 \<and> last_committed_round s < block_round b0")
  case True
  then obtain ps where ps: "r = block_round b0" "cs = ps @ [b0]" "ancestry (stored_parent E (my_store s)) b0 ps"
    "\<forall>p\<in>set (butlast (b0 # ps)). last_committed_round s + 1 < block_round p"
    "\<not> last_committed_round s + 1 < block_round (last (b0 # ps))"
    using assms by (auto simp: delivers_def)
  let ?clean = "[To_mempool (Mempool_cleanup (block_round b0)), To_payload_waiter (Waiter_cleanup (block_round b0))]"
  let ?u = "s\<lparr>out := out s @ ?clean\<rparr>"
  have "collect_ancestors E (last_committed_round s) b0 [] ?u = Some (Ok (rev ps), ?u)"
    using collect_ancestors_run [of E ?u b0 ps "last_committed_round s" "[]"] ps(3-5) by simp
  then have "commit_two_chain E b0 b1 s = (Ok (), s\<lparr>last_committed_round := r, out := out s @ ?clean @ map To_commit cs\<rparr>)"
    using True ps(1,2)
    by (simp add: not_le [symmetric] commit_two_chain_def mempool_cleanup_def commit_def walk_ancestors_def run_defs Let_def)
  moreover have "commits (map To_commit xs) = xs" for xs by (induction xs) (auto simp: commits_def)
  then have "commits (?clean @ map To_commit cs) = cs" by (simp add: commits_append) (simp add: commits_def)
  ultimately show ?thesis by blast
next
  case False
  then have "cs = []" "r = last_committed_round s" using assms by (simp_all add: delivers_def)
  moreover define es where "es = (if block_round b0 + 1 = block_round b1
    then [To_mempool (Mempool_cleanup (block_round b0)), To_payload_waiter (Waiter_cleanup (block_round b0))] else [])"
  ultimately show ?thesis
    using False by (intro exI [of _ es]) (auto simp: commit_two_chain_def mempool_cleanup_def commit_def run_defs commits_def not_less)
qed

text \<open>The end of \<open>process_block\<close>: the block is stored, the head of its 2-chain committed and the vote sent.\<close>

lemma process_block_run:
  assumes R: "rocksdb_ok (rocksdb E)" and new: "store_read (rocksdb E) (digest_bytes (block_digest (dalek E) b)) (my_store s) = Inr None"
    and parents: "stored_parent E (my_store s) b b1" "stored_parent E (my_store s) b1 b0"
    and ser: "ser_block E b = Some value" and del: "delivers E (my_store s) (last_committed_round s) b1 b0 cs c"
    and vote: "\<And>u. my_store u = store_write (rocksdb E) (digest_bytes (block_digest (dalek E) b)) value (my_store s) \<Longrightarrow>
      cur_round u = cur_round s \<Longrightarrow> last_voted_round u = last_voted_round s \<Longrightarrow> last_committed_round u = c \<Longrightarrow>
      \<exists>r t es. vote_for_block E now b u = (r, t) \<and> (r = Ok () \<or> (\<exists>e. r = Err e)) \<and> out t = out u @ es \<and> my_store t = my_store u
        \<and> commits es = [] \<and> Q es t"
  shows "\<exists>r t es es'. process_block E now b s = (r, t) \<and> (r = Ok () \<or> (\<exists>e. r = Err e)) \<and> out t = out s @ es @ es'
    \<and> commits (es @ es') = cs \<and> Q es' t
    \<and> my_store t = store_write (rocksdb E) (digest_bytes (block_digest (dalek E) b)) value (my_store s)"
proof -
  let ?k = "digest_bytes (block_digest (dalek E) b)"
  let ?st = "store_write (rocksdb E) ?k value (my_store s)"
  let ?notes = "map Store_notify (store_write_replies (rocksdb E) ?k value (my_store s))"
  let ?clean = "[To_proposer (Proposer_cleanup (block_payload b0 @ block_payload b1 @ block_payload b))]"
  let ?u1 = "s\<lparr>my_store := ?st, out := out s @ ?notes @ ?clean\<rparr>"
  obtain ds where c: "commit_two_chain E b0 b1 ?u1 = (Ok (), ?u1\<lparr>last_committed_round := c, out := out ?u1 @ ds\<rparr>)" "commits ds = cs"
    using commit_two_chain_run [of E ?u1 b1 b0 cs c] delivers_write [OF R new del] by auto
  let ?u = "?u1\<lparr>last_committed_round := c, out := out ?u1 @ ds\<rparr>"
  obtain r t es where v: "vote_for_block E now b ?u = (r, t)" "r = Ok () \<or> (\<exists>e. r = Err e)" "out t = out ?u @ es"
    "my_store t = my_store ?u" "commits es = []" "Q es t"
    using vote [of ?u] by auto
  have n: "commits (map Store_notify xs) = []" for xs by (induction xs) (auto simp: commits_def)
  have "process_block E now b s = (r, t)"
    using c(1) v(1) ser get_ancestors_stored [OF parents]
    by (simp add: process_block_def store_block_def cleanup_proposer_def write_store_def run_defs)
  moreover have "commits ((?notes @ ?clean @ ds) @ es) = cs"
  proof -
    have "commits ?clean = []" by (simp add: commits_def)
    then show ?thesis using v(5) c(2) by (simp only: commits_append n append_Nil append_Nil2)
  qed
  ultimately show ?thesis using v
    by (intro exI [of _ r] exI [of _ t] exI [of _ "?notes @ ?clean @ ds"] exI [of _ es]) simp
qed

section \<open>A quorum of votes, a proposal\<close>

lemma votes_advance:
  assumes "committee_ok (my_committee E)" and "agg_committee (my_aggregator s) = my_committee E"
    and "cur_round s \<le> r" and "qc_round (high_qc s) < r" and "r < - 1"
    and "\<forall>(now, v)\<in>set vs. vote_hash v = h \<and> vote_round v = r \<and> vote_verify (dalek E) (my_committee E) v = Inr ()"
    and "quorum (my_committee E) (vote_author ` snd ` set vs)"
    and "or_new Map.empty (votes_aggregators (my_aggregator s) r) (hash32 (dalek E) (vote_preimage h r)) = None"
  shows "\<exists>t. core_loop E (map (\<lambda>(now, v). (now, Message (VoteMsg v))) vs) s = (Ok (), t)
    \<and> cur_round t = r + 1 \<and> qc_hash (high_qc t) = h \<and> qc_round (high_qc t) = r
    \<and> (get_leader (my_committee E) (r + 1) = Some (my_name E) \<longrightarrow> To_proposer (Make (r + 1) (high_qc t) None) \<in> set (out t))"
proof -
  let ?d = "hash32 (dalek E) (vote_preimage h r)"
  have "collects_votes E r ?d [] s"
    using assms(2-4,8) by (simp add: collects_votes_def vote_maker_def or_new_def [of qc_maker_new])
  moreover have "\<forall>x\<in>set vs. vote_hash (snd x) = h \<and> vote_round (snd x) = r \<and> vote_verify (dalek E) (my_committee E) (snd x) = Inr ()"
    using assms(6) by auto
  moreover from this have "\<forall>x\<in>set vs. vote_digest (dalek E) (snd x) = ?d" by (simp add: vote_digest_def)
  ultimately show ?thesis
    using votes_loop [OF assms(1) quorum_members [OF assms(7)] assms(5)] assms(7)
    unfolding voted_past_def by simp
qed

lemma proposal_run:
  assumes "rocksdb_ok (rocksdb E)" and "get_leader (my_committee E) (block_round b) = Some (block_author b)"
    and "block_verify (dalek E) (my_committee E) b = Inr ()"
    and "qc_round (block_qc b) + 1 = block_round b" "qc_round (block_qc b) < - 1" "block_tc b = None"
    and "cur_round s \<le> block_round b" "last_voted_round s < block_round b"
    and "\<forall>x\<in>set (block_payload b). in_store E (my_store s) x"
    and "stored_parent E (my_store s) b b1" "stored_parent E (my_store s) b1 b0"
    and "store_read (rocksdb E) (digest_bytes (block_digest (dalek E) b)) (my_store s) = Inr None"
    and "ser_block E b = Some value" "vote_new (dalek E) b (my_name E) (my_secret E) = Some v" "ser_msg E (VoteMsg v) = Some m"
    and "get_leader (my_committee E) (block_round b + 1) = Some l" "address (my_committee E) l = Some addr"
    and "delivers E (my_store s) (last_committed_round s) b1 b0 cs c"
  shows "\<exists>t es. step E now (Message (Propose b)) s = (Ok (), t) \<and> out t = out s @ es
    \<and> commits es = cs \<and> Signed_vote b v \<in> set es \<and> (l \<noteq> my_name E \<longrightarrow> Net_send addr m \<in> set es)
    \<and> store_read (rocksdb E) (digest_bytes (block_digest (dalek E) b)) (my_store t) = Inr (Some value)
    \<and> my_store t = store_write (rocksdb E) (digest_bytes (block_digest (dalek E) b)) value (my_store s)
    \<and> last_voted_round t = block_round b \<and> last_committed_round t = c
    \<and> (cur_round t = block_round b \<or> cur_round t = block_round b + 1)"
proof -
  obtain u where u: "process_qc now (block_qc b) s = (Ok (), u)" "cur_round u = block_round b" "my_store u = my_store s"
    "out u = out s" "last_voted_round u = last_voted_round s" "last_committed_round u = last_committed_round s"
    using process_qc_current [of s "block_qc b" now] assms(4,5,7) by auto
  have a: "authorities (my_committee E) \<noteq> []" using assms(2) by (auto simp: get_leader_def committee_size_def)
  let ?Q = "\<lambda>es t. Signed_vote b v \<in> set es \<and> (l \<noteq> my_name E \<longrightarrow> Net_send addr m \<in> set es)
    \<and> last_voted_round t = block_round b \<and> last_committed_round t = c
    \<and> (cur_round t = block_round b \<or> cur_round t = block_round b + 1)"
  have vote: "\<exists>r t es. vote_for_block E now b w = (r, t) \<and> (r = Ok () \<or> (\<exists>e. r = Err e)) \<and> out t = out w @ es
      \<and> my_store t = my_store w \<and> commits es = [] \<and> ?Q es t"
    if "cur_round w = cur_round u" "last_voted_round w = last_voted_round u" "last_committed_round w = c" for w
  proof -
    have "commits (Signed_vote b v # es) = commits es" for es by (simp add: commits_def)
    with vote_for_block_run [OF a, of w b v l addr m now] that u assms show ?thesis by (metis list.set_intros(1,2))
  qed
  obtain r t es es' where p: "process_block E now b u = (r, t)" "r = Ok () \<or> (\<exists>e. r = Err e)" "out t = out u @ es @ es'"
    "commits (es @ es') = cs" "?Q es' t"
    "my_store t = store_write (rocksdb E) (digest_bytes (block_digest (dalek E) b)) value (my_store u)"
  proof -
    have "\<exists>r t es es'. process_block E now b u = (r, t) \<and> (r = Ok () \<or> (\<exists>e. r = Err e)) \<and> out t = out u @ es @ es'
        \<and> commits (es @ es') = cs \<and> ?Q es' t
        \<and> my_store t = store_write (rocksdb E) (digest_bytes (block_digest (dalek E) b)) value (my_store u)"
    proof (rule process_block_run [OF assms(1), where ?b1.0 = b1 and ?b0.0 = b0])
      show "\<exists>r t es. vote_for_block E now b w = (r, t) \<and> (r = Ok () \<or> (\<exists>e. r = Err e)) \<and> out t = out w @ es
          \<and> my_store t = my_store w \<and> commits es = [] \<and> ?Q es t"
        if "cur_round w = cur_round u" "last_voted_round w = last_voted_round u" "last_committed_round w = c" for w
        by (rule vote [OF that])
    qed (unfold u(3) u(6), (fact assms)+)
    then show ?thesis using that by blast
  qed
  have "handle_proposal E now b s = (r, t)"
    using u p(1) assms mempool_verify_present [of b E u]
    by (simp add: handle_proposal_def leader_def Let_def run_defs)
  then have "step E now (Message (Propose b)) s = (Ok (), t)" using p(2) by (auto simp: step_def handle_def)
  then show ?thesis
    using p(3-6) u(4) by (intro exI [of _ t] exI [of _ "es @ es'"]) (auto simp: st.read_write_if [OF assms(1)] u(3))
qed

section \<open>Properties\<close>

text \<open>
  A quorum of votes makes progress. Let the verified votes of a quorum for one block reach a core that is not past their
  round and has not counted votes for that block yet, in any order and with any repetitions. Then the core
  returns from all of them, is in the next round, its highest QC is for that block, and if it leads the next round,
  it has asked its proposer for a block on that QC.
\<close>

theorem quorum_of_votes_advances:
  assumes "committee_ok (my_committee E)" and "agg_committee (my_aggregator s) = my_committee E"
    and "cur_round s \<le> r" and "qc_round (high_qc s) < r" and "r < - 1"
    and "\<forall>(now, v)\<in>set vs. vote_hash v = h \<and> vote_round v = r \<and> vote_verify (dalek E) (my_committee E) v = Inr ()"
    and "quorum (my_committee E) (vote_author ` snd ` set vs)"
    and "or_new Map.empty (votes_aggregators (my_aggregator s) r) (hash32 (dalek E) (vote_preimage h r)) = None"
  shows "\<exists>t. core_loop E (map (\<lambda>(now, v). (now, Message (VoteMsg v))) vs) s = (Ok (), t)
    \<and> cur_round t = r + 1 \<and> qc_hash (high_qc t) = h \<and> qc_round (high_qc t) = r
    \<and> (get_leader (my_committee E) (r + 1) = Some (my_name E) \<longrightarrow> To_proposer (Make (r + 1) (high_qc t) None) \<in> set (out t))"
  by (rule votes_advance [OF assms])

text \<open>
  A quorum of timeouts makes progress. Let verified timeouts of a quorum for one round reach a core that is
  not past that round and has not counted timeouts for it yet, in any order and with any repetitions, whatever QCs they carry.
  Then the core returns from all of them and is past the round.
\<close>

theorem quorum_of_timeouts_advances:
  assumes "committee_ok (my_committee E)" and "agg_committee (my_aggregator s) = my_committee E" and "\<forall>m. ser_msg E m \<noteq> None"
    and "cur_round s \<le> r" and "r < - 1" and "timeouts_aggregators (my_aggregator s) r = None"
    and "\<forall>(now, x)\<in>set ts. timeout_round x = r \<and> qc_round (timeout_high_qc x) < - 1
      \<and> timeout_verify (dalek E) (my_committee E) x = Inr ()"
    and "quorum (my_committee E) (timeout_author ` snd ` set ts)"
  shows "\<exists>t. core_loop E (map (\<lambda>(now, x). (now, Message (TimeoutMsg x))) ts) s = (Ok (), t) \<and> r < cur_round t"
proof (rule timeouts_loop [OF assms(1) quorum_members [OF assms(8)] assms(5), where seen = "[]"])
  show "collects_timeouts E r [] s"
    using assms(2,4,6) by (simp add: collects_timeouts_def timeout_maker_def or_new_def)
qed (use assms(3,7,8) in auto)

text \<open>
  C11. The happy path. A core that is not past the round of a verified block from the leader of that round has all of its payload and
  its two last ancestors in the store, and may vote for it, as it extends the round of its QC. Then the core returns from the proposal, it has stored the
  block and signed the vote and sent it to the leader of the next round, and when the two ancestors are of
  consecutive rounds, it has delivered the elder one, after all its ancestors that were not delivered yet, and nothing else.
\<close>

theorem proposal_votes_and_commits:
  assumes "rocksdb_ok (rocksdb E)" and "get_leader (my_committee E) (block_round b) = Some (block_author b)"
    and "block_verify (dalek E) (my_committee E) b = Inr ()"
    and "qc_round (block_qc b) + 1 = block_round b" "qc_round (block_qc b) < - 1" "block_tc b = None"
    and "cur_round s \<le> block_round b" "last_voted_round s < block_round b"
    and "\<forall>x\<in>set (block_payload b). in_store E (my_store s) x"
    and "stored_parent E (my_store s) b b1" "stored_parent E (my_store s) b1 b0"
    and "store_read (rocksdb E) (digest_bytes (block_digest (dalek E) b)) (my_store s) = Inr None"
    and "ser_block E b = Some value" "vote_new (dalek E) b (my_name E) (my_secret E) = Some v" "ser_msg E (VoteMsg v) = Some m"
    and "get_leader (my_committee E) (block_round b + 1) = Some l" "address (my_committee E) l = Some addr"
    and "block_round b0 + 1 = block_round b1" "last_committed_round s < block_round b0"
    and "ancestry (stored_parent E (my_store s)) b0 ps" "\<forall>p\<in>set (butlast (b0 # ps)). last_committed_round s + 1 < block_round p"
      "\<not> last_committed_round s + 1 < block_round (last (b0 # ps))"
  shows "\<exists>t es. step E now (Message (Propose b)) s = (Ok (), t) \<and> out t = out s @ es
    \<and> commits es = ps @ [b0] \<and> Signed_vote b v \<in> set es \<and> (l \<noteq> my_name E \<longrightarrow> Net_send addr m \<in> set es)
    \<and> store_read (rocksdb E) (digest_bytes (block_digest (dalek E) b)) (my_store t) = Inr (Some value)"
proof -
  have "delivers E (my_store s) (last_committed_round s) b1 b0 (ps @ [b0]) (block_round b0)"
    using assms(18-) by (auto simp: delivers_def)
  from proposal_run [OF assms(1-17) this] show ?thesis by blast
qed

text \<open>Four authorities: the leader of round 2 gets three votes, one of them twice; and three timeouts.\<close>

definition fresh_core :: "(bytes \<rightharpoonup> bytes) core" where
  "fresh_core = core_new (scenario_env 3) 5000 0 (store_new Map.empty)"

lemma fresh_core_simps [simp]:
  "agg_committee (my_aggregator fresh_core) = test_committee" "cur_round fresh_core = 1" "high_qc fresh_core = qc_genesis"
  "votes_aggregators (my_aggregator fresh_core) r = None" "timeouts_aggregators (my_aggregator fresh_core) r = None"
  by (simp_all add: fresh_core_def core_new_def aggregator_new_def)

lemma one_not_last: "(1 :: u64) < - 1"
  using scenario_round [of 1] by simp

lemma three_quorum: "quorum test_committee {test_key 1, test_key 2, test_key 3}"
  by (simp add: quorum_def weight_of_def test_stake scenario_threshold)

theorem quorum_of_votes_advances_witness:
  "\<exists>t. core_loop (scenario_env 3)
      (map (\<lambda>(now, v). (now, Message (VoteMsg v))) (map (\<lambda>k. (9, scenario_vote 1 (test_key k))) [2, 1, 2, 3])) fresh_core = (Ok (), t)
    \<and> cur_round t = 2 \<and> To_proposer (Make 2 (high_qc t) None) \<in> set (out t)"
proof -
  let ?vs = "map (\<lambda>k. (9, scenario_vote 1 (test_key k))) [2, 1, 2, 3] :: (instant \<times> vote) list"
  have "vote_author ` snd ` set ?vs = {test_key 1, test_key 2, test_key 3}" by (auto simp: scenario_votes)
  then have q: "quorum test_committee (vote_author ` snd ` set ?vs)" using three_quorum by simp
  show ?thesis
    using quorum_of_votes_advances [where E = "scenario_env 3" and s = fresh_core and vs = ?vs and h = "scenario_digest 1" and r = 1]
      test_committee_ok q one_not_last
    by (simp add: scenario_votes scenario_qcs scenario_leaders or_new_def) blast
qed

definition scenario_timeout :: "u8 \<Rightarrow> timeout" where
  "scenario_timeout k = \<lparr>timeout_high_qc = qc_genesis, timeout_round = 1, timeout_author = test_key k,
     timeout_signature = signature_default\<rparr>"

theorem quorum_of_timeouts_advances_witness:
  "\<exists>t. core_loop (scenario_env 3)
      (map (\<lambda>(now, x). (now, Message (TimeoutMsg x))) (map (\<lambda>k. (9, scenario_timeout k)) [3, 1, 1, 2])) fresh_core = (Ok (), t)
    \<and> 1 < cur_round t"
proof -
  let ?ts = "map (\<lambda>k. (9, scenario_timeout k)) [3, 1, 1, 2] :: (instant \<times> timeout) list"
  have "timeout_author ` snd ` set ?ts = {test_key 1, test_key 2, test_key 3}" by (auto simp: scenario_timeout_def)
  then have q: "quorum test_committee (timeout_author ` snd ` set ?ts)" using three_quorum by simp
  have v: "timeout_verify scenario_dalek test_committee (scenario_timeout k) = Inr ()" if "k \<in> {1, 2, 3}" for k
    using that by (auto simp: timeout_verify_def scenario_timeout_def test_stake qc_eq_def)
  show ?thesis
    using quorum_of_timeouts_advances [where E = "scenario_env 3" and s = fresh_core and ts = ?ts and r = 1]
      test_committee_ok q one_not_last v word_greater_zero_iff [of "- 1 :: u64"]
    by (simp add: scenario_timeout_def qc_genesis_def)
qed

text \<open>The core of authority 2 once blocks 1 and 2 are stored: the proposal of block 3 delivers block 1.\<close>

definition midway_core :: "(bytes \<rightharpoonup> bytes) core" where
  "midway_core = (core_new (scenario_env 2) 5000 0
       (store_new [digest_bytes (scenario_digest 1) \<mapsto> [1], digest_bytes (scenario_digest 2) \<mapsto> [2]]))
     \<lparr>cur_round := 3, last_voted_round := 2\<rparr>"

lemma midway_core_simps:
  "cur_round midway_core = 3" "last_voted_round midway_core = 2" "last_committed_round midway_core = 0" "out midway_core = []"
  by (simp_all add: midway_core_def core_new_def)

lemma midway_store:
  "store_read map_rocksdb (digest_bytes (scenario_digest i)) (my_store midway_core)
     = Inr (if i = 2 then Some [2] else if i = 1 then Some [1] else None)"
  by (simp add: midway_core_def core_new_def store_read_def store_new_def map_rocksdb_def scenario_digest_eq)

theorem proposal_votes_and_commits_witness:
  "\<exists>t. step (scenario_env 2) 9 (Message (Propose (scenario_block 3))) midway_core = (Ok (), t)
    \<and> commits (out t) = [scenario_block 1] \<and> Net_send ([127, 0, 0, 1], 1) [] \<in> set (out t)"
proof -
  have parents: "stored_parent (scenario_env 2) (my_store midway_core) (scenario_block 3) (scenario_block 2)"
    "stored_parent (scenario_env 2) (my_store midway_core) (scenario_block 2) (scenario_block 1)"
    by (simp_all add: stored_parent_def scenario_chain scenario_qcs midway_store)
  have "test_key 1 \<noteq> test_key 2" by (simp add: test_key_def)
  then show ?thesis
    using scenario_round [of 2] proposal_votes_and_commits [of "scenario_env 2" "scenario_block 3" midway_core "scenario_block 2" "scenario_block 1"
        "[3]" "scenario_vote 3 (test_key 2)" "[]" "test_key 1" "([127, 0, 0, 1], 1)" "[]" 9] parents
    by (auto simp: map_rocksdb_ok scenario_leaders scenario_blocks_verify scenario_chain scenario_qcs midway_core_simps
        midway_store scenario_digests scenario_votes scenario_addresses)
qed

end
