(* ===== verification/Chain_Progress.thy ===== *)
theory Chain_Progress
  imports Core_Progress
begin

text \<open>
  The happy path of the core of \<open>consensus/src/core.rs\<close> over a whole run: from its start, a core that gets the
  blocks of a chain in order, one of every round, votes for each of them and delivers all of them but the last two.
\<close>

section \<open>Chains\<close>

text \<open>Every block is the one of the leader of its round, and certifies the block before it, which is of the round before.\<close>

primrec chain :: "'k dalek \<Rightarrow> committee \<Rightarrow> block \<Rightarrow> block list \<Rightarrow> bool" where
  "chain D C p [] \<longleftrightarrow> True"
| "chain D C p (b # bs) \<longleftrightarrow> get_leader C (block_round b) = Some (block_author b) \<and> block_verify D C b = Inr ()
     \<and> qc_hash (block_qc b) = (if p = block_genesis then digest_default else block_digest D p) \<and> qc_round (block_qc b) = block_round p
     \<and> block_round p < - 1 \<and> block_round b = block_round p + 1 \<and> block_tc b = None \<and> chain D C b bs"

text \<open>The core has the payload of the block and not the block, and what it writes and sends for the block can be serialised.\<close>

definition awaited :: "('k, 'db) env \<Rightarrow> 'db store \<Rightarrow> block \<Rightarrow> bool" where
  "awaited E st b \<longleftrightarrow> (\<forall>x\<in>set (block_payload b). in_store E st x)
     \<and> store_read (rocksdb E) (digest_bytes (block_digest (dalek E) b)) st = Inr None \<and> ser_block E b \<noteq> None
     \<and> (\<exists>v m. vote_new (dalek E) b (my_name E) (my_secret E) = Some v \<and> ser_msg E (VoteMsg v) = Some m)"

lemma awaited_write:
  assumes "rocksdb_ok (rocksdb E)" and "awaited E st b" and "k \<noteq> digest_bytes (block_digest (dalek E) b)"
  shows "awaited E (store_write (rocksdb E) k v st) b"
  using assms by (auto simp: awaited_def in_store_write st.read_write_if)

lemma leader_address:
  assumes "authorities C \<noteq> []"
  obtains l a where "get_leader C r = Some l" and "address C l = Some a"
  using that get_leader_Some [OF assms] get_leader_member names_address by meson

section \<open>The invariant\<close>

text \<open>The core has handled the chain up to \<open>b1\<close>, whose parent is \<open>b0\<close>, and has delivered it up to the parent of \<open>b0\<close>.\<close>

definition head :: "('k, 'db) env \<Rightarrow> block \<Rightarrow> block \<Rightarrow> 'db core \<Rightarrow> bool" where
  "head E b1 b0 s \<longleftrightarrow> stored_parent E (my_store s) b1 b0
     \<and> (b1 = block_genesis \<or> 0 < block_round b1 \<and> (\<exists>v. store_read (rocksdb E) (digest_bytes (block_digest (dalek E) b1)) (my_store s)
          = Inr (Some v) \<and> de_block E v = Ok b1))
     \<and> (block_round b1 < - 1 \<longrightarrow> cur_round s \<le> block_round b1 + 1) \<and> last_voted_round s \<le> block_round b1
     \<and> (b0 = block_genesis \<and> last_committed_round s = 0 \<and> (b1 = block_genesis \<or> block_round b1 = 1)
        \<or> block_round b0 = last_committed_round s + 1 \<and> block_round b1 = block_round b0 + 1
          \<and> last_committed_round s < block_round b0 \<and> block_round b0 < block_round b1)"

definition pending :: "block list \<Rightarrow> block list" where
  "pending = filter (\<lambda>b. b \<noteq> block_genesis)"

lemma head_delivers:
  assumes "head E b1 b0 s"
  shows "\<exists>c. delivers E (my_store s) (last_committed_round s) b1 b0 (pending [b0]) c
    \<and> (b0 = block_genesis \<and> c = 0 \<or> b0 \<noteq> block_genesis \<and> c = block_round b0)"
proof (cases "b0 = block_genesis \<and> last_committed_round s = 0")
  case True
  then show ?thesis by (auto simp: delivers_def pending_def genesis_fields)
next
  case False
  then have r: "block_round b0 = last_committed_round s + 1" "block_round b1 = block_round b0 + 1"
    "last_committed_round s < block_round b0"
    using assms by (auto simp: head_def)
  then have "b0 \<noteq> block_genesis" by (auto simp: genesis_fields)
  with r show ?thesis by (auto simp: delivers_def pending_def)
qed

lemma head_parent:
  assumes "head E b1 b0 s" and "chain (dalek E) C b1 [b]"
  shows "stored_parent E (my_store s) b b1"
proof (cases "b1 = block_genesis")
  case True
  with assms(2) show ?thesis by (simp add: stored_parent_def qc_eq_def qc_genesis_def genesis_fields)
next
  case False
  then have "\<not> qc_eq (block_qc b) qc_genesis" using assms by (auto simp: head_def qc_eq_def qc_genesis_def)
  with False assms show ?thesis by (auto simp: head_def stored_parent_def parent_def)
qed

section \<open>A block of the chain\<close>

lemma chain_step:
  assumes R: "rocksdb_ok (rocksdb E)" and B: "bincode_ok E" and h: "head E b1 b0 s"
    and ch: "chain (dalek E) (my_committee E) b1 [b]" and vb: "awaited E (my_store s) b"
  obtains t es k v where "step E now (Message (Propose b)) s = (Ok (), t)" and "out t = out s @ es" and "commits es = pending [b0]"
    and "vote_new (dalek E) b (my_name E) (my_secret E) = Some v" and "Signed_vote b v \<in> set es"
    and "my_store t = store_write (rocksdb E) (digest_bytes (block_digest (dalek E) b)) k (my_store s)" and "head E b b1 t"
proof -
  let ?c = "my_committee E" and ?k = "digest_bytes (block_digest (dalek E) b)"
  have r: "block_round b = block_round b1 + 1" "block_round b1 < - 1" "block_round b1 < block_round b"
    using ch next_round by auto
  have "authorities ?c \<noteq> []" using ch by (auto simp: get_leader_def committee_size_def)
  then obtain l addr where l: "get_leader ?c (block_round b + 1) = Some l" and addr: "address ?c l = Some addr"
    using leader_address by blast
  obtain bs v m where vb': "ser_block E b = Some bs" "vote_new (dalek E) b (my_name E) (my_secret E) = Some v"
    "ser_msg E (VoteMsg v) = Some m" "store_read (rocksdb E) ?k (my_store s) = Inr None"
    "\<forall>x\<in>set (block_payload b). in_store E (my_store s) x"
    using vb by (auto simp: awaited_def)
  obtain c where c: "delivers E (my_store s) (last_committed_round s) b1 b0 (pending [b0]) c"
    "b0 = block_genesis \<and> c = 0 \<or> b0 \<noteq> block_genesis \<and> c = block_round b0"
    using head_delivers [OF h] by blast
  have parents: "stored_parent E (my_store s) b b1" "stored_parent E (my_store s) b1 b0"
    using head_parent [OF h ch] h by (simp_all add: head_def)
  have q: "qc_round (block_qc b) + 1 = block_round b" "qc_round (block_qc b) < - 1" "block_tc b = None"
    "get_leader ?c (block_round b) = Some (block_author b)" "block_verify (dalek E) ?c b = Inr ()"
    using ch r by auto
  have s: "cur_round s \<le> block_round b" "last_voted_round s < block_round b"
    using h r(1,2) le_less_trans [OF _ r(3), of "last_voted_round s"] by (simp_all add: head_def)
  obtain t es where t: "step E now (Message (Propose b)) s = (Ok (), t)" "out t = out s @ es" "commits es = pending [b0]"
    "Signed_vote b v \<in> set es" "my_store t = store_write (rocksdb E) ?k bs (my_store s)" "last_voted_round t = block_round b"
    "last_committed_round t = c" "cur_round t = block_round b \<or> cur_round t = block_round b + 1"
    using proposal_run [OF R q(4,5,1-3) s vb'(5) parents vb'(4,1-3) l addr c(1), of now] by blast
  have "stored_parent E (my_store t) b b1" unfolding t(5) by (rule stored_parent_write [OF R vb'(4) parents(1)])
  moreover have "store_read (rocksdb E) ?k (my_store t) = Inr (Some bs)" by (simp add: t(5) st.read_write_if [OF R])
  moreover have "de_block E bs = Ok b" using B vb'(1) by (simp add: bincode_ok_def)
  moreover have "0 < block_round b" using r(3) by (metis word_gt_0 word_zero_le leD)
  moreover have "block_round b < - 1 \<longrightarrow> cur_round t \<le> block_round b + 1" using t(8) next_round [of "block_round b"] by auto
  moreover have "block_round b1 = c + 1 \<or> b1 = block_genesis \<and> c = 0" using h c(2) by (auto simp: head_def genesis_fields)
  ultimately have "head E b b1 t" using t(6,7) r h c(2) by (auto simp: head_def genesis_fields)
  with t vb'(2) that show thesis by blast
qed

section \<open>The run\<close>

definition proposals :: "(instant \<times> block) list \<Rightarrow> (instant \<times> event) list" where
  "proposals = map (\<lambda>(now, b). (now, Message (Propose b)))"

lemma chain_loop:
  assumes R: "rocksdb_ok (rocksdb E)" and B: "bincode_ok E"
  shows "head E b1 b0 s \<Longrightarrow> chain (dalek E) (my_committee E) b1 (map snd xs) \<Longrightarrow> \<forall>x\<in>set xs. awaited E (my_store s) (snd x) \<Longrightarrow>
    distinct (map (block_digest (dalek E) \<circ> snd) xs) \<Longrightarrow>
    \<exists>t es. core_loop E (proposals xs) s = (Ok (), t) \<and> out t = out s @ es
      \<and> commits es = pending (take (length xs) (b0 # b1 # map snd xs))
      \<and> (\<forall>x\<in>set xs. \<exists>v. vote_new (dalek E) (snd x) (my_name E) (my_secret E) = Some v \<and> Signed_vote (snd x) v \<in> set es)"
proof (induction xs arbitrary: b1 b0 s)
  case Nil
  then show ?case by (simp add: proposals_def ret_def pending_def commits_def)
next
  case (Cons x xs)
  obtain now b where x: "x = (now, b)" by (cases x)
  have ch: "chain (dalek E) (my_committee E) b1 [b]" "chain (dalek E) (my_committee E) b (map snd xs)"
    using Cons.prems(2) by (auto simp: x)
  have vb: "awaited E (my_store s) b" using Cons.prems(3) by (simp add: x)
  obtain t es k v where t: "step E now (Message (Propose b)) s = (Ok (), t)" "out t = out s @ es" "commits es = pending [b0]"
    "vote_new (dalek E) b (my_name E) (my_secret E) = Some v" "Signed_vote b v \<in> set es"
    "my_store t = store_write (rocksdb E) (digest_bytes (block_digest (dalek E) b)) k (my_store s)" "head E b b1 t"
    by (rule chain_step [OF R B Cons.prems(1) ch(1) vb, of now])
  have "awaited E (my_store t) (snd y)" if "y \<in> set xs" for y
    unfolding t(6)
  proof (rule awaited_write [OF R])
    have "block_digest (dalek E) b \<noteq> block_digest (dalek E) (snd y)" using Cons.prems(4) that by (auto simp: x)
    then show "digest_bytes (block_digest (dalek E) b) \<noteq> digest_bytes (block_digest (dalek E) (snd y))"
      by (cases "block_digest (dalek E) b"; cases "block_digest (dalek E) (snd y)") simp
  qed (use Cons.prems(3) that in simp)
  then obtain u fs where u: "core_loop E (proposals xs) t = (Ok (), u)" "out u = out t @ fs"
    "commits fs = pending (take (length xs) (b1 # b # map snd xs))"
    "\<forall>x\<in>set xs. \<exists>v. vote_new (dalek E) (snd x) (my_name E) (my_secret E) = Some v \<and> Signed_vote (snd x) v \<in> set fs"
    using Cons.IH [OF t(7) ch(2)] Cons.prems(4) by auto
  have "core_loop E (proposals (x # xs)) s = (Ok (), u)" using t(1) u(1) by (simp add: proposals_def x run_sq)
  moreover have "commits (es @ fs) = pending (take (length (x # xs)) (b0 # b1 # map snd (x # xs)))"
    using t(3) u(3) by (simp add: commits_append pending_def x)
  ultimately show ?case
    using t(2,4,5) u(2,4) by (intro exI [of _ u] exI [of _ "es @ fs"]) (auto simp: x)
qed

lemma boot_run:
  assumes "authorities (my_committee E) \<noteq> []"
  obtains s es where "boot E now (core_new E timeout_ms now st) = (Ok (), s)" and "commits (out s) = []" and "my_store s = st"
    and "head E block_genesis block_genesis s"
proof -
  obtain l where l: "get_leader (my_committee E) 1 = Some l" using get_leader_Some [OF assms] by blast
  have "stored_parent E st block_genesis block_genesis" by (simp add: stored_parent_def genesis_fields qc_eq_def)
  with l that show thesis
    by (cases "l = my_name E") (auto simp: boot_def core_new_def propose_if_leader_def leader_def generate_proposal_def run_defs head_def genesis_fields
        commits_def split: if_splits)
qed

lemma chain_no_genesis:
  "chain D C p bs \<Longrightarrow> block_genesis \<notin> set bs"
proof (induction bs arbitrary: p)
  case (Cons b bs)
  then have "0 < block_round b" using next_round [of "block_round p"] by (metis chain.simps(2) word_gt_0 word_zero_le leD)
  with Cons show ?case by (auto simp: genesis_fields)
qed simp

section \<open>Property\<close>

text \<open>
  C12. A run without faults delivers its chain. Let a core start on a store without the blocks of a chain, but with their payload,
  and get the blocks in order, one of every round from the first, each verified, of the leader of its round and with a QC for
  the one before. Then the core returns from all of them, it has signed a vote for every block, and it has delivered all of
  them but the last two, each once and in order, and nothing else.
\<close>

theorem chain_is_delivered:
  assumes "rocksdb_ok (rocksdb E)" and "bincode_ok E" and "authorities (my_committee E) \<noteq> []"
    and "chain (dalek E) (my_committee E) block_genesis (map snd xs)" and "\<forall>x\<in>set xs. awaited E st (snd x)"
    and "distinct (map (block_digest (dalek E) \<circ> snd) xs)"
  shows "\<exists>t. core_run E timeout_ms now st (proposals xs) = (Ok (), t)
    \<and> commits (out t) = take (length xs - 2) (map snd xs)
    \<and> (\<forall>x\<in>set xs. \<exists>v. vote_new (dalek E) (snd x) (my_name E) (my_secret E) = Some v \<and> Signed_vote (snd x) v \<in> set (out t))"
proof -
  obtain s where s: "boot E now (core_new E timeout_ms now st) = (Ok (), s)" "commits (out s) = []" "my_store s = st"
    "head E block_genesis block_genesis s"
    using boot_run [OF assms(3)] by metis
  obtain t es where t: "core_loop E (proposals xs) s = (Ok (), t)" "out t = out s @ es"
    "commits es = pending (take (length xs) (block_genesis # block_genesis # map snd xs))"
    "\<forall>x\<in>set xs. \<exists>v. vote_new (dalek E) (snd x) (my_name E) (my_secret E) = Some v \<and> Signed_vote (snd x) v \<in> set es"
    using chain_loop [OF assms(1,2) s(4) assms(4)] assms(5,6) s(3) by metis
  have "block_genesis \<notin> set (map snd xs)" using chain_no_genesis [OF assms(4)] .
  then have "pending (take n (map snd xs)) = take n (map snd xs)" for n
    by (auto simp: pending_def filter_id_conv dest: in_set_takeD)
  then have "pending (take (length xs) (block_genesis # block_genesis # map snd xs)) = take (length xs - 2) (map snd xs)"
    by (simp add: take_Cons pending_def numeral_2_eq_2 split: nat.splits)
  then show ?thesis using s t by (auto simp: core_run_def run_sq commits_append)
qed

theorem chain_is_delivered_witness:
  "\<exists>t. core_run (scenario_env 2) 5000 0 (store_new Map.empty)
      (proposals [(1, scenario_block 1), (2, scenario_block 2), (3, scenario_block 3)]) = (Ok (), t)
    \<and> commits (out t) = [scenario_block 1]"
proof -
  let ?xs = "[(1, scenario_block 1), (2, scenario_block 2), (3, scenario_block 3)]"
  have g: "scenario_block i = block_genesis \<longleftrightarrow> False" for i by (simp add: scenario_block_def block_genesis_def scenario_qc_def qc_genesis_def)
  have "chain scenario_dalek test_committee block_genesis (map snd ?xs)"
    by (simp add: g scenario_leaders scenario_chain scenario_blocks_verify scenario_qcs scenario_digests genesis_fields qc_genesis_def
        one_not_last less_trans [OF _ one_not_last])
  moreover have "\<forall>x\<in>set ?xs. awaited (scenario_env 2) (store_new Map.empty) (snd x)"
    by (simp add: awaited_def scenario_chain scenario_store scenario_votes)
  moreover have "distinct (map (block_digest scenario_dalek \<circ> snd) ?xs)" by (simp add: scenario_digests) (simp add: scenario_digest_def)
  moreover have "bincode_ok (scenario_env 2)" by (auto simp: bincode_ok_def scenario_env_def Let_def split: if_splits)
  ultimately show ?thesis
    using chain_is_delivered [of "scenario_env 2" ?xs "store_new Map.empty" 5000 0] map_rocksdb_ok
    by (simp add: test_committee_authorities del: chain.simps) blast
qed

end
