(* ===== verification/Quorum_Acks.thy ===== *)
theory Quorum_Acks
  imports Config
begin

text \<open>
  The loop in which the proposer of the consensus and the quorum waiter of the mempool wait for
  acknowledgements: the stakes of the peers that have answered are added up, in the order in which they answer,
  until a threshold is reached. Both use \<open>while let Some(stake) = wait_for_quorum.next().await\<close>; what the two
  components need of it is the locale \<open>acknowledged\<close>, over committees whose stakes fit in a \<open>u32\<close>.
\<close>

section \<open>The loop\<close>

text \<open>
  \<open>await_acks w threshold acc answers\<close>: the acc at the end, the peers counted, and whether the loop left
  by its \<open>break\<close>. It looks at the threshold only after an answer.
\<close>

fun await_acks ::
    "('a \<Rightarrow> u32) \<Rightarrow> u32 \<Rightarrow> u32 \<Rightarrow> 'a list \<Rightarrow> u32 \<times> 'a list \<times> bool" where
  "await_acks w threshold acc [] = (acc, [], False)"
| "await_acks w threshold acc (a # answers) =
     (let acc' = acc + w a in
      if acc' \<ge> threshold then (acc', [a], True)
      else (case await_acks w threshold acc' answers of (t, counted, reached) \<Rightarrow> (t, a # counted, reached)))"

text \<open>Without overflow, the loop leaves after the shortest non-empty prefix that reaches the threshold.\<close>

lemma await_acks_prefix:
  assumes "await_acks w threshold acc answers = (t, counted, reached)"
  shows "\<exists>rest. answers = counted @ rest \<and> (\<not> reached \<longrightarrow> rest = [])"
  using assms
  by (induction answers arbitrary: acc t counted) (auto simp: Let_def split: if_splits prod.splits)

lemma await_acks_total:
  assumes "await_acks w threshold acc answers = (t, counted, reached)"
    and "unat acc + sum_list (map (unat \<circ> w) answers) < 2 ^ 32"
  shows "unat t = unat acc + sum_list (map (unat \<circ> w) counted)
    \<and> (reached \<longleftrightarrow> counted \<noteq> [] \<and> threshold \<le> t)
    \<and> (\<forall>xs ys. counted = xs @ ys \<longrightarrow> xs \<noteq> [] \<longrightarrow> ys \<noteq> [] \<longrightarrow>
         unat acc + sum_list (map (unat \<circ> w) xs) < unat threshold)"
  using assms
proof (induction answers arbitrary: acc t counted reached)
  case (Cons a answers)
  have no: "unat (acc + w a) = unat acc + unat (w a)"
    using Cons.prems(2) by (intro unat_add_no_overflow) simp
  show ?case
  proof (cases "threshold \<le> acc + w a")
    case True
    then show ?thesis using Cons.prems(1) no by (auto simp: Let_def Cons_eq_append_conv)
  next
    case False
    obtain t' c' r' where rec: "await_acks w threshold (acc + w a) answers = (t', c', r')"
      by (cases "await_acks w threshold (acc + w a) answers") auto
    have eq: "t = t'" "counted = a # c'" "reached = r'"
      using Cons.prems(1) False rec by (auto simp: Let_def)
    have "unat (acc + w a) + sum_list (map (unat \<circ> w) answers) < 2 ^ 32"
      using Cons.prems(2) no by (simp add: comp_def)
    note IH = Cons.IH [OF rec this]
    have lt: "unat (acc + w a) < unat threshold" using False by (simp add: word_le_nat_alt)
    have "unat acc + sum_list (map (unat \<circ> w) xs) < unat threshold"
      if xs: "counted = xs @ ys" "xs \<noteq> []" "ys \<noteq> []" for xs ys
    proof -
      obtain zs where zs: "xs = a # zs" "c' = zs @ ys" using xs eq by (auto simp: Cons_eq_append_conv)
      show ?thesis
      proof (cases "zs = []")
        case True
        then show ?thesis using lt no zs by simp
      next
        case False
        then have "unat (acc + w a) + sum_list (map (unat \<circ> w) zs) < unat threshold"
          using IH zs(2) xs(3) by blast
        then show ?thesis using zs(1) no by (simp add: add.assoc)
      qed
    qed
    moreover have "reached \<longleftrightarrow> counted \<noteq> [] \<and> threshold \<le> t"
    proof (cases c')
      case Nil
      then have "t' = acc + w a" "\<not> r'" using IH no by (simp_all add: word_unat_eq_iff)
      then show ?thesis using False eq by simp
    qed (use IH eq in simp)
    moreover have "unat t = unat acc + sum_list (map (unat \<circ> w) counted)"
      using IH no eq by (simp add: add.assoc comp_def)
    ultimately show ?thesis by blast
  qed
qed simp

section \<open>The contract\<close>

locale acknowledged = stake_system ok members weight threshold
  for ok :: "'c \<Rightarrow> bool" and members :: "'c \<Rightarrow> 'a set" and weight :: "'c \<Rightarrow> 'a \<Rightarrow> nat"
    and threshold :: "'c \<Rightarrow> nat" +
  fixes rights :: "'c \<Rightarrow> 'a \<Rightarrow> u32"
    and limit :: "'c \<Rightarrow> u32"
  assumes weight_rights: "weight c a = unat (rights c a)"
    and threshold_limit: "threshold c = unat (limit c)"
    and stakes_fit: "ok c \<Longrightarrow> (\<Sum>a\<in>members c. weight c a) < 2 ^ 32"
begin

text \<open>What one node and the peers that have answered it hold together.\<close>

lemma acks_sum:
  assumes "ok c" and "distinct (self # answers)"
  shows "unat (rights c self) + sum_list (map (unat \<circ> rights c) answers) = (\<Sum>a\<in>insert self (set answers). weight c a)"
    and "(\<Sum>a\<in>insert self (set answers). weight c a) < 2 ^ 32"
proof -
  show "unat (rights c self) + sum_list (map (unat \<circ> rights c) answers) = (\<Sum>a\<in>insert self (set answers). weight c a)"
    using assms(2) by (simp add: weight_rights sum_list_distinct_conv_sum_set comp_def)
  show "(\<Sum>a\<in>insert self (set answers). weight c a) < 2 ^ 32"
    using weight_le_total [OF assms(1), of "insert self (set answers)"] stakes_fit [OF assms(1)] by simp
qed

lemma acks_quorum:
  assumes "ok c" and d: "distinct (self # answers)"
    and run: "await_acks (rights c) (limit c) (rights c self) answers = (t, counted, reached)"
  shows "reached \<longleftrightarrow> counted \<noteq> [] \<and> threshold c \<le> (\<Sum>a\<in>insert self (set counted). weight c a)"
    and "reached \<longleftrightarrow> answers \<noteq> [] \<and> threshold c \<le> (\<Sum>a\<in>insert self (set answers). weight c a)"
    and "counted = xs @ ys \<Longrightarrow> xs \<noteq> [] \<Longrightarrow> ys \<noteq> [] \<Longrightarrow> (\<Sum>a\<in>insert self (set xs). weight c a) < threshold c"
proof -
  note s = acks_sum [OF assms(1) d]
  have fits: "unat (rights c self) + sum_list (map (unat \<circ> rights c) answers) < 2 ^ 32" using s by simp
  note r = await_acks_total [OF run fits]
  obtain rest where rest: "answers = counted @ rest" "\<not> reached \<longrightarrow> rest = []"
    using await_acks_prefix [OF run] by blast
  have dc: "distinct (self # counted)" using d rest by auto
  have t: "unat t = (\<Sum>a\<in>insert self (set counted). weight c a)" using r acks_sum(1) [OF assms(1) dc] by simp
  then show iff: "reached \<longleftrightarrow> counted \<noteq> [] \<and> threshold c \<le> (\<Sum>a\<in>insert self (set counted). weight c a)"
    using r by (simp add: threshold_limit word_le_nat_alt)
  have "(\<Sum>a\<in>insert self (set counted). weight c a) \<le> (\<Sum>a\<in>insert self (set answers). weight c a)"
    using rest by (intro sum_mono2) auto
  with iff rest show "reached \<longleftrightarrow> answers \<noteq> [] \<and> threshold c \<le> (\<Sum>a\<in>insert self (set answers). weight c a)"
    by auto
  show "(\<Sum>a\<in>insert self (set xs). weight c a) < threshold c" if "counted = xs @ ys" "xs \<noteq> []" "ys \<noteq> []"
  proof -
    have "unat (rights c self) + sum_list (map (unat \<circ> rights c) xs) < unat (limit c)"
      using r that by blast
    moreover have "distinct (self # xs)" using dc that by auto
    ultimately show ?thesis using acks_sum(1) [OF assms(1), of self xs] by (simp add: threshold_limit)
  qed
qed

text \<open>If every other member answers in the end, the loop reaches the threshold, unless there is no other member.\<close>

lemma acks_all:
  assumes "ok c" and "distinct (self # answers)" and "members c \<subseteq> insert self (set answers)"
    and "0 < (\<Sum>a\<in>members c. weight c a)" and "answers \<noteq> []"
    and "await_acks (rights c) (limit c) (rights c self) answers = (t, counted, reached)"
  shows "reached"
proof -
  have "(\<Sum>a\<in>members c. weight c a) \<le> (\<Sum>a\<in>insert self (set answers). weight c a)"
    using assms(3) by (intro sum_mono2) auto
  then show ?thesis
    using acks_quorum(2) [OF assms(1,2,6)] reachable_threshold [OF assms(1,4)] assms(5) by simp
qed

end

interpretation ca: acknowledged committee_ok names "\<lambda>c a. unat (stake c a)" "\<lambda>c. unat (quorum_threshold c)"
    stake quorum_threshold
proof unfold_locales
  show "committee_ok c \<Longrightarrow> (\<Sum>a\<in>names c. unat (stake c a)) < 2 ^ 32" for c
    by (simp add: committee_ok_def sum_stake_names)
qed simp_all

end
