(* ===== verification/Proposer.thy ===== *)
theory Proposer
  imports Wire Tasks Quorum_Acks
begin

text \<open>
  \<open>consensus/src/proposer.rs\<close>: the task that buffers the digests of batches and makes the blocks the core asks
  for. The buffer is a \<open>HashSet\<close>, here a list without repetition whose order stands for that of the iteration.
  After a block is broadcast the task waits for acknowledgements: the peers whose handlers complete, in the order
  in which they do, are an argument of the call, and if they are not enough the call does not return.
\<close>

section \<open>The task\<close>

datatype proposer_effect =
    Reliable_send socket_addr bytes
  | Proposed block
  | Acknowledged "public_key list"

record proposer =
  prop_buffer :: "digest list"
  prop_out :: "proposer_effect list"

definition proposer_new :: proposer where
  "proposer_new = \<lparr>prop_buffer = [], prop_out = []\<rparr>"

definition prop_emit :: "proposer_effect list \<Rightarrow> (proposer, consensus_error, unit) proc" where
  "prop_emit es = modify (\<lambda>s. s\<lparr>prop_out := prop_out s @ es\<rparr>)"

definition make_block ::
    "('k, 'db) env \<Rightarrow> u64 \<Rightarrow> qc \<Rightarrow> tc option \<Rightarrow> public_key list \<Rightarrow> (proposer, consensus_error, unit) proc" where
  "make_block E r q t answers =
     (let c = my_committee E; peers = broadcast_addresses c (my_name E) in
      bnd (gets prop_buffer) (\<lambda>payload.
      sq (modify (\<lambda>s. s\<lparr>prop_buffer := []\<rparr>))
      (bnd (expect ''Failed to receive signature from Signature Service''
             (block_new (dalek E) q t (my_name E) r payload (my_secret E))) (\<lambda>b.
      bnd (expect ''Failed to serialize block'' (ser_msg E (Propose b))) (\<lambda>message.
      sq (prop_emit (map (\<lambda>(_, a). Reliable_send a message) peers))
      (sq (prop_emit [Proposed b])
      (case await_acks (stake c) (quorum_threshold c) (stake c (my_name E)) answers of
         (_, counted, reached) \<Rightarrow>
           if reached \<or> length counted = length peers then prop_emit [Acknowledged counted]
           else (\<lambda>s. (Diverge, s)))))))))"

datatype proposer_event =
    From_mempool digest
  | From_core proposer_message "public_key list"

definition proposer_handle :: "('k, 'db) env \<Rightarrow> proposer_event \<Rightarrow> (proposer, consensus_error, unit) proc" where
  "proposer_handle E ev =
     (case ev of
        From_mempool d \<Rightarrow> modify (\<lambda>s. s\<lparr>prop_buffer := List.insert d (prop_buffer s)\<rparr>)
      | From_core (Make r q t) answers \<Rightarrow> make_block E r q t answers
      | From_core (Proposer_cleanup digests) _ \<Rightarrow>
          modify (\<lambda>s. s\<lparr>prop_buffer := fold removeAll digests (prop_buffer s)\<rparr>))"

definition proposer_run ::
    "('k, 'db) env \<Rightarrow> proposer_event list \<Rightarrow> (consensus_error, unit) outcome \<times> proposer" where
  "proposer_run E evs = run_all (proposer_handle E) evs proposer_new"

section \<open>What becomes of the digests\<close>

lemma set_fold_removeAll: "set (fold removeAll xs ys) = set ys - set xs"
  by (induction xs arbitrary: ys) auto

lemma distinct_fold_removeAll: "distinct ys \<Longrightarrow> distinct (fold removeAll xs ys)"
  by (induction xs arbitrary: ys) (auto simp: distinct_removeAll)

definition received :: "proposer_event list \<Rightarrow> digest set" where
  "received evs = {d. From_mempool d \<in> set evs}"

definition cleaned :: "proposer_event list \<Rightarrow> digest set" where
  "cleaned evs = {d. \<exists>ds as. From_core (Proposer_cleanup ds) as \<in> set evs \<and> d \<in> set ds}"

definition proposed :: "proposer_effect list \<Rightarrow> block set" where
  "proposed es = {b. Proposed b \<in> set es}"

definition proposer_inv :: "('k, 'db) env \<Rightarrow> proposer_event list \<Rightarrow> proposer \<Rightarrow> bool" where
  "proposer_inv E evs s \<longleftrightarrow> distinct (prop_buffer s) \<and> set (prop_buffer s) \<subseteq> received evs
     \<and> received evs \<subseteq> set (prop_buffer s) \<union> cleaned evs \<union> (\<Union>b\<in>proposed (prop_out s). set (block_payload b))
     \<and> (\<forall>b\<in>proposed (prop_out s). distinct (block_payload b) \<and> set (block_payload b) \<subseteq> received evs
          \<and> block_author b = my_name E
          \<and> (\<exists>as. From_core (Make (block_round b) (block_qc b) (block_tc b)) as \<in> set evs))"

text \<open>Either the block was not made (and the payload is gone with the task), or it was, and sent.\<close>

lemma block_new_fields:
  "block_new D q t a r payload sk = Some b \<Longrightarrow> block_qc b = q \<and> block_tc b = t \<and> block_author b = a
     \<and> block_round b = r \<and> block_payload b = payload"
  by (auto simp: block_new_def Let_def)

lemma make_block_run:
  assumes b: "block_new (dalek E) q t (my_name E) r (prop_buffer s) (my_secret E) = Some b"
    and m: "ser_msg E (Propose b) = Some m"
    and "peers = broadcast_addresses (my_committee E) (my_name E)"
    and acks: "await_acks (stake (my_committee E)) (quorum_threshold (my_committee E))
        (stake (my_committee E) (my_name E)) answers = (acc, counted, reached)"
    and s': "s' = s\<lparr>prop_buffer := [], prop_out := prop_out s @ map (\<lambda>(_, a). Reliable_send a m) peers @ [Proposed b]\<rparr>"
  shows "make_block E r q t answers s =
     (if reached \<or> length counted = length peers
      then (Ok (), s'\<lparr>prop_out := prop_out s' @ [Acknowledged counted]\<rparr>) else (Diverge, s'))"
  unfolding s' using assms(1-4)
  by (simp add: make_block_def Let_def proc_simps expect_def prop_emit_def)

lemma make_block_cases:
  assumes run: "make_block E r q t answers s = (res, s')"
  obtains (stopped) p where "res = Panic p" and "s' = s\<lparr>prop_buffer := []\<rparr>"
    | (made) b es where "block_new (dalek E) q t (my_name E) r (prop_buffer s) (my_secret E) = Some b"
        and "s' = s\<lparr>prop_buffer := [], prop_out := prop_out s @ es\<rparr>" and "proposed es = {b}"
proof (cases "block_new (dalek E) q t (my_name E) r (prop_buffer s) (my_secret E)")
  case None
  then show thesis
    using stopped run by (auto simp: make_block_def Let_def proc_simps expect_def bnd_def panic_def)
next
  case (Some b)
  show thesis
  proof (cases "ser_msg E (Propose b)")
    case None
    then show thesis
      using stopped run Some by (auto simp: make_block_def Let_def proc_simps expect_def bnd_def panic_def)
  next
    case m: (Some m)
    let ?sent = "map (\<lambda>(_, a). Reliable_send a m) (broadcast_addresses (my_committee E) (my_name E)) @ [Proposed b]"
    obtain acc counted reached where acks: "await_acks (stake (my_committee E)) (quorum_threshold (my_committee E))
        (stake (my_committee E) (my_name E)) answers = (acc, counted, reached)"
      by (cases "await_acks (stake (my_committee E)) (quorum_threshold (my_committee E))
        (stake (my_committee E) (my_name E)) answers") auto
    have "s' = s\<lparr>prop_buffer := [], prop_out := prop_out s @ ?sent\<rparr>
        \<or> s' = s\<lparr>prop_buffer := [], prop_out := prop_out s @ (?sent @ [Acknowledged counted])\<rparr>"
      using run unfolding make_block_run [OF Some m refl acks refl] by (auto split: if_splits)
    moreover have "proposed ?sent = {b}" "proposed (?sent @ [Acknowledged counted]) = {b}"
      by (auto simp: proposed_def)
    ultimately show thesis using made [OF Some] by metis
  qed
qed

text \<open>A panic drops the buffer with the task, so the invariant is about the states before one.\<close>

lemma proposer_handle_inv:
  assumes I: "proposer_inv E evs s" and run: "proposer_handle E ev s = (res, s')" and "\<And>p. res \<noteq> Panic p"
  shows "proposer_inv E (evs @ [ev]) s'"
proof (cases ev)
  case (From_mempool d)
  then have "received (evs @ [ev]) = insert d (received evs)" "cleaned (evs @ [ev]) = cleaned evs"
    by (auto simp: received_def cleaned_def)
  moreover have "s' = s\<lparr>prop_buffer := List.insert d (prop_buffer s)\<rparr>"
    using run by (simp add: From_mempool proposer_handle_def modify_def)
  ultimately show ?thesis using I by (fastforce simp: proposer_inv_def)
next
  case (From_core m as)
  then have rc: "received (evs @ [ev]) = received evs" by (auto simp: received_def)
  show ?thesis
  proof (cases m)
    case (Proposer_cleanup ds)
    then have "cleaned (evs @ [ev]) = cleaned evs \<union> set ds"
      by (auto simp: cleaned_def From_core)
    moreover have "s' = s\<lparr>prop_buffer := fold removeAll ds (prop_buffer s)\<rparr>"
      using run by (simp add: From_core Proposer_cleanup proposer_handle_def modify_def)
    ultimately show ?thesis
      using I unfolding proposer_inv_def rc
      by (auto simp: set_fold_removeAll distinct_fold_removeAll)
  next
    case (Make r q t)
    then have cl: "cleaned (evs @ [ev]) = cleaned evs" by (auto simp: cleaned_def From_core)
    have "make_block E r q t as s = (res, s')"
      using run by (simp add: From_core Make proposer_handle_def)
    then show ?thesis
    proof (cases rule: make_block_cases)
      case (made b es)
      have s': "prop_buffer s' = []" "proposed (prop_out s') = insert b (proposed (prop_out s))"
        using made(2,3) by (auto simp: proposed_def)
      note b = block_new_fields [OF made(1)]
      have "From_core (Make (block_round b) (block_qc b) (block_tc b)) as \<in> set (evs @ [ev])"
        using b by (simp add: From_core Make)
      then have "distinct (block_payload b) \<and> set (block_payload b) \<subseteq> received evs \<and> block_author b = my_name E
          \<and> (\<exists>as. From_core (Make (block_round b) (block_qc b) (block_tc b)) as \<in> set (evs @ [ev]))"
        using I b by (auto simp: proposer_inv_def)
      moreover have "\<forall>b\<in>proposed (prop_out s). distinct (block_payload b) \<and> set (block_payload b) \<subseteq> received evs
          \<and> block_author b = my_name E \<and> (\<exists>as. From_core (Make (block_round b) (block_qc b) (block_tc b)) as \<in> set (evs @ [ev]))"
        using I by (fastforce simp: proposer_inv_def)
      moreover have "received evs \<subseteq> cleaned evs \<union> (\<Union>b\<in>proposed (prop_out s'). set (block_payload b))"
        using I b unfolding proposer_inv_def s' by auto
      ultimately show ?thesis
        unfolding proposer_inv_def rc cl s' by simp
    qed (use assms(3) in blast)
  qed
qed

lemma proposer_loop_inv:
  assumes "\<And>p. fst (run_all (proposer_handle E) evs s) \<noteq> Panic p" and "proposer_inv E ys s"
  shows "\<exists>zs rest. evs = zs @ rest \<and> proposer_inv E (ys @ zs) (snd (run_all (proposer_handle E) evs s))
    \<and> (fst (run_all (proposer_handle E) evs s) = Ok () \<longrightarrow> rest = [])"
  using assms
proof (induction evs arbitrary: ys s)
  case (Cons ev evs)
  obtain res t where h: "proposer_handle E ev s = (res, t)" by (cases "proposer_handle E ev s")
  have np: "res \<noteq> Panic p" for p using Cons.prems(1) [of p] h by (auto simp: run_sq)
  have t: "proposer_inv E (ys @ [ev]) t" by (rule proposer_handle_inv [OF Cons.prems(2) h np])
  show ?case
  proof (cases "res = Ok ()")
    case True
    then have run: "run_all (proposer_handle E) (ev # evs) s = run_all (proposer_handle E) evs t"
      using h by (simp add: run_sq)
    obtain zs rest where "evs = zs @ rest" "proposer_inv E ((ys @ [ev]) @ zs) (snd (run_all (proposer_handle E) evs t))"
      "fst (run_all (proposer_handle E) evs t) = Ok () \<longrightarrow> rest = []"
      using Cons.IH [OF _ t] Cons.prems(1) unfolding run by blast
    then show ?thesis unfolding run by (intro exI [of _ "ev # zs"] exI [of _ rest]) simp
  next
    case False
    then have "run_all (proposer_handle E) (ev # evs) s = (res, t)"
      using h by (cases res) (simp_all add: run_sq)
    then show ?thesis using t False by (intro exI [of _ "[ev]"] exI [of _ evs]) simp
  qed
qed (simp add: ret_def)

section \<open>Properties\<close>

text \<open>
  C28. No digest is lost or made up by the proposer. After a run in which it did not panic, every digest that the
  mempool delivered is in the buffer, in a block it has proposed, or was removed by a cleanup of the core; the
  buffer holds each digest once; and every block it proposed carries its name, the round, QC and TC that the core
  asked for, and digests of the mempool only, each once.
\<close>

theorem proposer_keeps_digests:
  assumes "proposer_run E evs = (Ok (), s)"
  shows "distinct (prop_buffer s)
    \<and> (\<forall>d. From_mempool d \<in> set evs \<longrightarrow> d \<in> set (prop_buffer s) \<or> (\<exists>b. Proposed b \<in> set (prop_out s) \<and> d \<in> set (block_payload b))
        \<or> (\<exists>ds as. From_core (Proposer_cleanup ds) as \<in> set evs \<and> d \<in> set ds))
    \<and> (\<forall>b. Proposed b \<in> set (prop_out s) \<longrightarrow> block_author b = my_name E \<and> distinct (block_payload b)
        \<and> (\<forall>d\<in>set (block_payload b). From_mempool d \<in> set evs)
        \<and> (\<exists>as. From_core (Make (block_round b) (block_qc b) (block_tc b)) as \<in> set evs))"
proof -
  have new: "proposer_inv E [] proposer_new"
    by (simp add: proposer_inv_def proposer_new_def received_def proposed_def)
  have np: "fst (run_all (proposer_handle E) evs proposer_new) \<noteq> Panic p" for p
    using assms by (simp add: proposer_run_def)
  obtain zs rest where zs: "evs = zs @ rest" "proposer_inv E ([] @ zs) (snd (run_all (proposer_handle E) evs proposer_new))"
    "fst (run_all (proposer_handle E) evs proposer_new) = Ok () \<longrightarrow> rest = []"
    using proposer_loop_inv [OF np new] by blast
  then have "proposer_inv E evs s" using assms by (simp add: proposer_run_def)
  then show ?thesis
    unfolding proposer_inv_def received_def cleaned_def proposed_def by blast
qed

text \<open>
  C29. The proposer waits for a quorum. When the block can be signed and serialized and the peers that answer are
  members of the committee, each answering once, the call that makes a block returns exactly when at least one
  peer has answered and the node and those peers hold a quorum, or when every peer has answered; it goes on as
  soon as that is so. Otherwise it does not return, and the proposer handles no further message.
\<close>

theorem proposer_waits_for_quorum:
  assumes "committee_ok (my_committee E)" and "distinct (my_name E # answers)"
    and "set answers \<subseteq> fst ` set (broadcast_addresses (my_committee E) (my_name E))"
    and "block_new (dalek E) q t (my_name E) r (prop_buffer s) (my_secret E) = Some b"
    and "ser_msg E (Propose b) = Some m"
  shows "(fst (make_block E r q t answers s) = Ok () \<longleftrightarrow>
      answers \<noteq> [] \<and> unat (quorum_threshold (my_committee E)) \<le> (\<Sum>a\<in>insert (my_name E) (set answers). unat (stake (my_committee E) a))
      \<or> length answers = length (broadcast_addresses (my_committee E) (my_name E)))
    \<and> (fst (make_block E r q t answers s) = Ok () \<or> fst (make_block E r q t answers s) = Diverge)"
proof -
  let ?c = "my_committee E" and ?peers = "broadcast_addresses (my_committee E) (my_name E)"
  obtain acc counted reached where acks: "await_acks (stake ?c) (quorum_threshold ?c) (stake ?c (my_name E)) answers
      = (acc, counted, reached)"
    by (cases "await_acks (stake ?c) (quorum_threshold ?c) (stake ?c (my_name E)) answers") auto
  note run = make_block_run [OF assms(4,5) refl acks refl]
  obtain rest where rest: "answers = counted @ rest" "\<not> reached \<longrightarrow> rest = []"
    using await_acks_prefix [OF acks] by blast
  have "length answers \<le> length ?peers"
    using card_mono [OF _ assms(3)] assms(2) card_length [of "map fst ?peers"] distinct_card [of answers] by simp
  then have "reached \<or> length counted = length ?peers \<longleftrightarrow> reached \<or> length answers = length ?peers"
    using rest by auto
  then show ?thesis
    using ca.acks_quorum(2) [OF assms(1,2) acks] unfolding run by auto
qed

end
