(* ===== verification/Helper.thy ===== *)
theory Helper
  imports Wire Tasks
begin

text \<open>
  \<open>consensus/src/helper.rs\<close>: the task that answers the sync requests of other authorities with the blocks in
  the store. Its state is the shared store and what it has sent.
\<close>

section \<open>The task\<close>

definition helper_handle ::
    "('k, 'db) env \<Rightarrow> digest \<times> public_key \<Rightarrow> ('db world, consensus_error, unit) proc" where
  "helper_handle E x =
     (case x of (d, origin) \<Rightarrow>
        (case address (my_committee E) origin of
           None \<Rightarrow> ret ()
         | Some a \<Rightarrow>
             bnd (gets (\<lambda>s. store_read (rocksdb E) (digest_bytes d) (my_store s))) (\<lambda>result.
             case result of
               Inl e \<Rightarrow> panic ''Failed to read from storage''
             | Inr None \<Rightarrow> ret ()
             | Inr (Some bytes) \<Rightarrow>
                 (case de_block E bytes of
                    Ok b \<Rightarrow>
                      bnd (expect ''Failed to serialize block'' (ser_msg E (Propose b))) (\<lambda>message.
                      net_send a message)
                  | Err _ \<Rightarrow> panic ''Failed to deserialize our own block''
                  | Panic p \<Rightarrow> panic p
                  | Diverge \<Rightarrow> (\<lambda>s. (Diverge, s))))))"

definition helper_run ::
    "('k, 'db) env \<Rightarrow> (digest \<times> public_key) list \<Rightarrow> ('db world, consensus_error, unit) proc" where
  "helper_run E requests = run_all (helper_handle E) requests"

section \<open>Properties\<close>

text \<open>
  The helper answers with what it has. When every value of the store is a block that deserializes and can be
  sent, a run over any requests returns, changes the store in nothing, and sends, in the order of the requests,
  the stored block to the origin of each request that comes from a member and whose digest is in the store, and
  nothing else.
\<close>

theorem helper_answers:
  assumes R: "rocksdb_ok (rocksdb E)"
    and "\<forall>k v. store_read (rocksdb E) k (my_store s) = Inr (Some v) \<longrightarrow> (\<exists>b. de_block E v = Ok b \<and> ser_msg E (Propose b) = Some (f v))"
  shows "helper_run E requests s = (Ok (), s\<lparr>out := out s @ concat (map (\<lambda>(d, origin).
      case (address (my_committee E) origin, store_read (rocksdb E) (digest_bytes d) (my_store s)) of
        (Some a, Inr (Some v)) \<Rightarrow> [Net_send a (f v)] | _ \<Rightarrow> []) requests)\<rparr>)"
  using assms(2)
proof (induction requests arbitrary: s)
  case Nil
  then show ?case by (simp add: helper_run_def ret_def)
next
  case (Cons x requests)
  obtain d origin where x: "x = (d, origin)" by (cases x)
  let ?es = "case (address (my_committee E) origin, store_read (rocksdb E) (digest_bytes d) (my_store s)) of
      (Some a, Inr (Some v)) \<Rightarrow> [Net_send a (f v)] | _ \<Rightarrow> []"
  obtain r where r: "store_read (rocksdb E) (digest_bytes d) (my_store s) = Inr r"
    using st.read_total [OF R] by blast
  have h: "helper_handle E x s = (Ok (), s\<lparr>out := out s @ ?es\<rparr>)"
  proof (cases "address (my_committee E) origin")
    case None
    then show ?thesis by (simp add: x helper_handle_def proc_simps)
  next
    case a: (Some a)
    show ?thesis
    proof (cases r)
      case None
      then show ?thesis using a r by (simp add: x helper_handle_def proc_simps)
    next
      case (Some v)
      then obtain b where "de_block E v = Ok b" and "ser_msg E (Propose b) = Some (f v)"
        using Cons.prems r by blast
      then show ?thesis
        using a r Some by (simp add: x helper_handle_def proc_simps expect_def net_send_def emit_def)
    qed
  qed
  have "helper_run E requests (s\<lparr>out := out s @ ?es\<rparr>) = (Ok (), (s\<lparr>out := out s @ ?es\<rparr>)\<lparr>out := out (s\<lparr>out := out s @ ?es\<rparr>)
      @ concat (map (\<lambda>(d, origin). case (address (my_committee E) origin,
          store_read (rocksdb E) (digest_bytes d) (my_store (s\<lparr>out := out s @ ?es\<rparr>))) of
        (Some a, Inr (Some v)) \<Rightarrow> [Net_send a (f v)] | _ \<Rightarrow> []) requests)\<rparr>)"
    by (rule Cons.IH) (use Cons.prems in simp)
  then show ?case using h by (simp add: helper_run_def run_sq x)
qed

text \<open>
  One request can end the helper. If the store holds, under the digest asked for, bytes that are not a block
  (the batches of the mempool are in the same store, under their own digests), a request for it from any member
  of the committee panics, and none of the requests after it is answered.
\<close>

theorem helper_panics_on_foreign_value:
  assumes "address (my_committee E) origin = Some a"
    and "store_read (rocksdb E) (digest_bytes d) (my_store s) = Inr (Some v)" and "de_block E v = Err ()"
  shows "helper_run E ((d, origin) # requests) s = (Panic ''Failed to deserialize our own block'', s)"
  using assms by (simp add: helper_run_def helper_handle_def proc_simps)

end
