(* ===== verification/Consensus_Node.thy ===== *)
theory Consensus_Node
  imports Agreement Payload_Waiter Proposer Helper
begin

text \<open>
  \<open>Consensus::spawn\<close> of \<open>consensus/src/consensus.rs\<close>: the tasks of the consensus, the channels between them and
  the store they share, as one state that takes a step whenever one of its tasks does, in any order. The last
  sections say what one turn of a task does to the channels; what follows from it is in \<open>Consensus_Wiring\<close>.
\<close>

section \<open>State\<close>

text \<open>A task that has panicked or waits for ever takes no further step.\<close>

datatype consensus_task = Core_task | Synchronizer_task | Waiter_task | Proposer_task | Helper_task

text \<open>
  The fields \<open>rx_*\<close> are the channels, each named after its receiving end, and \<open>tx_mempool\<close> and \<open>tx_commit\<close> what
  leaves the consensus. A channel delivers in order. From the
  receiver's handler nothing gets into the channel of a task that has ended, as the handler panics; a channel between the tasks keeps what is sent
  to one that has stopped. \<open>cn_looping\<close> are the stopped tasks that loop for ever. \<open>cn_store\<close> is the store of the node, of which every task
  has a handle.
\<close>

record 'db consensus_node =
  cn_store :: "'db store"
  cn_core :: "'db core"
  cn_synchronizer :: "'db sync_task"
  cn_waiter :: "'db payload_task"
  cn_proposer :: proposer
  cn_stopped :: "consensus_task set"
  cn_looping :: "consensus_task set"
  rx_consensus :: "consensus_message list"
  rx_loopback :: "block list"
  rx_inner :: "block list"
  rx_payload_waiter :: "payload_waiter_message list"
  rx_proposer :: "proposer_message list"
  rx_mempool :: "digest list"
  rx_helper :: "(digest \<times> public_key) list"
  tx_mempool :: "consensus_mempool_message list"
  tx_commit :: "block list"
  cn_sent :: "(socket_addr \<times> bytes) list"
  cn_listen :: socket_addr

definition stop_task :: "consensus_task \<Rightarrow> ('e, unit) outcome \<Rightarrow> 'db consensus_node \<Rightarrow> 'db consensus_node" where
  "stop_task k r n = (case r of Ok _ \<Rightarrow> n
     | Diverge \<Rightarrow> n\<lparr>cn_stopped := insert k (cn_stopped n), cn_looping := insert k (cn_looping n)\<rparr>
     | _ \<Rightarrow> n\<lparr>cn_stopped := insert k (cn_stopped n)\<rparr>)"

text \<open>
  The channels of the receiver's handler that are closed: those of the tasks that have ended. A task that loops for ever has not dropped its end.
\<close>

definition cn_closed :: "'db consensus_node \<Rightarrow> handler_channel set" where
  "cn_closed n = (if Core_task \<in> cn_stopped n - cn_looping n then {Core_channel} else {})
     \<union> (if Helper_task \<in> cn_stopped n - cn_looping n then {Helper_channel} else {})"

lemma cn_closed_live: "Core_task \<notin> cn_stopped n \<Longrightarrow> Core_channel \<notin> cn_closed n"
  by (simp add: cn_closed_def)

text \<open>Where the effects of a task go: \<open>core_effect\<close> for the core, which has no end of the loopback channel.\<close>

fun core_effect :: "effect \<Rightarrow> 'db consensus_node \<Rightarrow> 'db consensus_node" where
  "core_effect (Net_send a m) n = n\<lparr>cn_sent := cn_sent n @ [(a, m)]\<rparr>"
| "core_effect (To_proposer m) n = n\<lparr>rx_proposer := rx_proposer n @ [m]\<rparr>"
| "core_effect (To_commit b) n = n\<lparr>tx_commit := tx_commit n @ [b]\<rparr>"
| "core_effect (To_mempool m) n = n\<lparr>tx_mempool := tx_mempool n @ [m]\<rparr>"
| "core_effect (To_payload_waiter m) n = n\<lparr>rx_payload_waiter := rx_payload_waiter n @ [m]\<rparr>"
| "core_effect (To_synchronizer b) n = n\<lparr>rx_inner := rx_inner n @ [b]\<rparr>"
| "core_effect _ n = n"

fun task_effect :: "effect \<Rightarrow> 'db consensus_node \<Rightarrow> 'db consensus_node" where
  "task_effect (Net_send a m) n = n\<lparr>cn_sent := cn_sent n @ [(a, m)]\<rparr>"
| "task_effect (To_loopback b) n = n\<lparr>rx_loopback := rx_loopback n @ [b]\<rparr>"
| "task_effect _ n = n"

fun proposed_effect :: "proposer_effect \<Rightarrow> 'db consensus_node \<Rightarrow> 'db consensus_node" where
  "proposed_effect (Reliable_send a m) n = n\<lparr>cn_sent := cn_sent n @ [(a, m)]\<rparr>"
| "proposed_effect (Proposed b) n = n\<lparr>rx_loopback := rx_loopback n @ [b]\<rparr>"
| "proposed_effect (Acknowledged _) n = n"

fun dispatched_effect :: "dispatched \<Rightarrow> 'db consensus_node \<Rightarrow> 'db consensus_node" where
  "dispatched_effect Ack n = n"
| "dispatched_effect (To_helper d origin) n = n\<lparr>rx_helper := rx_helper n @ [(d, origin)]\<rparr>"
| "dispatched_effect (To_core m) n = n\<lparr>rx_consensus := rx_consensus n @ [m]\<rparr>"

section \<open>The turns of the tasks\<close>

definition core_turn :: "('k, 'db) env \<Rightarrow> instant \<Rightarrow> event \<Rightarrow> 'db consensus_node \<Rightarrow> 'db consensus_node" where
  "core_turn E now ev n =
     (case step E now ev (cn_core n) of (r, c) \<Rightarrow>
        fold core_effect (gained (out (cn_core n)) (out c))
          (stop_task Core_task r (n\<lparr>cn_core := c, cn_store := my_store c\<rparr>)))"

definition synchronizer_turn ::
    "('k, 'db) env \<Rightarrow> parameters \<Rightarrow> u128 \<Rightarrow> sync_event \<Rightarrow> 'db consensus_node \<Rightarrow> 'db consensus_node" where
  "synchronizer_turn E P now ev n =
     (case sync_handle E (sync_retry_delay P) (now, ev) ((cn_synchronizer n)\<lparr>my_store := cn_store n\<rparr>) of (r, t) \<Rightarrow>
        fold task_effect (gained (out (cn_synchronizer n)) (out t)) (stop_task Synchronizer_task r (n\<lparr>cn_synchronizer := t\<rparr>)))"

definition waiter_turn :: "('k, 'db) env \<Rightarrow> payload_event \<Rightarrow> 'db consensus_node \<Rightarrow> 'db consensus_node" where
  "waiter_turn E ev n =
     (case payload_handle E ev ((cn_waiter n)\<lparr>my_store := cn_store n\<rparr>) of (r, t) \<Rightarrow>
        fold task_effect (gained (out (cn_waiter n)) (out t)) (stop_task Waiter_task r (n\<lparr>cn_waiter := t\<rparr>)))"

definition proposer_turn :: "('k, 'db) env \<Rightarrow> proposer_event \<Rightarrow> 'db consensus_node \<Rightarrow> 'db consensus_node" where
  "proposer_turn E ev n =
     (case proposer_handle E ev (cn_proposer n) of (r, t) \<Rightarrow>
        fold proposed_effect (gained (prop_out (cn_proposer n)) (prop_out t))
          (stop_task Proposer_task r (n\<lparr>cn_proposer := t\<rparr>)))"

definition helper_turn :: "('k, 'db) env \<Rightarrow> digest \<times> public_key \<Rightarrow> 'db consensus_node \<Rightarrow> 'db consensus_node" where
  "helper_turn E x n =
     (case helper_handle E x \<lparr>my_store = cn_store n, out = []\<rparr> of (r, t) \<Rightarrow>
        fold task_effect (out t) (stop_task Helper_task r n))"

text \<open>A write of the mempool to the shared store, which is also the store of the core while that runs.\<close>

definition shared_write :: "('k, 'db) env \<Rightarrow> bytes \<Rightarrow> bytes \<Rightarrow> 'db consensus_node \<Rightarrow> 'db consensus_node" where
  "shared_write E k v n = n\<lparr>cn_store := store_write (rocksdb E) k v (cn_store n),
     cn_core := (if Core_task \<in> cn_stopped n then cn_core n else snd (step E 0 (Other_write k v) (cn_core n)))\<rparr>"

section \<open>The node\<close>

text \<open>
  What may happen next: a frame arrives on a connection of the receiver, the mempool sends a digest or writes to
  the store, or a task takes the next element of a channel, a future that resolves, or its timer. The numbers are
  the readings of the clocks.
\<close>

datatype consensus_event =
    Cn_frame bytes
  | Cn_digest digest
  | Cn_write bytes bytes
  | Cn_message instant
  | Cn_loopback instant
  | Cn_timer instant
  | Cn_sync_block u128
  | Cn_sync_ready u128 nat
  | Cn_sync_timer u128
  | Cn_wait
  | Cn_wait_ready bool nat
  | Cn_buffer
  | Cn_propose "public_key list"
  | Cn_help

text \<open>The task that takes a turn; a task that has stopped takes none.\<close>

definition turn_task :: "consensus_event \<Rightarrow> consensus_task option" where
  "turn_task ev = (case ev of
       Cn_frame _ \<Rightarrow> None | Cn_digest _ \<Rightarrow> None | Cn_write _ _ \<Rightarrow> None
     | Cn_message _ \<Rightarrow> Some Core_task | Cn_loopback _ \<Rightarrow> Some Core_task | Cn_timer _ \<Rightarrow> Some Core_task
     | Cn_sync_block _ \<Rightarrow> Some Synchronizer_task | Cn_sync_ready _ _ \<Rightarrow> Some Synchronizer_task
     | Cn_sync_timer _ \<Rightarrow> Some Synchronizer_task
     | Cn_wait \<Rightarrow> Some Waiter_task | Cn_wait_ready _ _ \<Rightarrow> Some Waiter_task
     | Cn_buffer \<Rightarrow> Some Proposer_task | Cn_propose _ \<Rightarrow> Some Proposer_task
     | Cn_help \<Rightarrow> Some Helper_task)"

definition consensus_turn ::
    "('k, 'db) env \<Rightarrow> parameters \<Rightarrow> consensus_event \<Rightarrow> 'db consensus_node \<Rightarrow> 'db consensus_node" where
  "consensus_turn E P ev n = (if turn_task ev \<in> Some ` cn_stopped n then n else case ev of
       Cn_frame frame \<Rightarrow> fold dispatched_effect (snd (dispatch E (cn_closed n) frame [])) n
     | Cn_digest d \<Rightarrow> n\<lparr>rx_mempool := rx_mempool n @ [d]\<rparr>
     | Cn_write k v \<Rightarrow> shared_write E k v n
     | Cn_message now \<Rightarrow> (case rx_consensus n of [] \<Rightarrow> n
         | m # ms \<Rightarrow> core_turn E now (Message m) (n\<lparr>rx_consensus := ms\<rparr>))
     | Cn_loopback now \<Rightarrow> (case rx_loopback n of [] \<Rightarrow> n
         | b # bs \<Rightarrow> core_turn E now (Loopback b) (n\<lparr>rx_loopback := bs\<rparr>))
     | Cn_timer now \<Rightarrow> core_turn E now Timer_fired n
     | Cn_sync_block now \<Rightarrow> (case rx_inner n of [] \<Rightarrow> n
         | b # bs \<Rightarrow> synchronizer_turn E P now (Sync_block b) (n\<lparr>rx_inner := bs\<rparr>))
     | Cn_sync_ready now i \<Rightarrow> synchronizer_turn E P now (Sync_ready i) n
     | Cn_sync_timer now \<Rightarrow> synchronizer_turn E P now Sync_timer n
     | Cn_wait \<Rightarrow> (case rx_payload_waiter n of [] \<Rightarrow> n
         | m # ms \<Rightarrow> waiter_turn E (Payload_message m) (n\<lparr>rx_payload_waiter := ms\<rparr>))
     | Cn_wait_ready pick i \<Rightarrow> waiter_turn E (Payload_ready pick i) n
     | Cn_buffer \<Rightarrow> (case rx_mempool n of [] \<Rightarrow> n
         | d # ds \<Rightarrow> proposer_turn E (From_mempool d) (n\<lparr>rx_mempool := ds\<rparr>))
     | Cn_propose answers \<Rightarrow> (case rx_proposer n of [] \<Rightarrow> n
         | m # ms \<Rightarrow> proposer_turn E (From_core m answers) (n\<lparr>rx_proposer := ms\<rparr>))
     | Cn_help \<Rightarrow> (case rx_helper n of [] \<Rightarrow> n
         | x # xs \<Rightarrow> helper_turn E x (n\<lparr>rx_helper := xs\<rparr>)))"

text \<open>
  \<open>Consensus::spawn\<close>: the node listens on all interfaces, on its port of the committee, with new channels; the
  core has run up to its loop.
\<close>

definition consensus_spawn ::
    "('k, 'db) env \<Rightarrow> parameters \<Rightarrow> instant \<Rightarrow> 'db store \<Rightarrow> (unit, 'db consensus_node) outcome" where
  "consensus_spawn E P now st =
     (case address (my_committee E) (my_name E) of
        None \<Rightarrow> Panic ''Our public key is not in the committee''
      | Some (_, port) \<Rightarrow>
          (case boot E now (core_new E (timeout_delay P) now st) of (r, c) \<Rightarrow>
            Ok (fold core_effect (out c) (stop_task Core_task r
              \<lparr>cn_store = my_store c, cn_core = c, cn_synchronizer = sync_new st, cn_waiter = payload_new st,
               cn_proposer = proposer_new, cn_stopped = {}, cn_looping = {}, rx_consensus = [], rx_loopback = [], rx_inner = [],
               rx_payload_waiter = [], rx_proposer = [], rx_mempool = [], rx_helper = [], tx_mempool = [],
               tx_commit = [], cn_sent = [], cn_listen = ([0, 0, 0, 0], port)\<rparr>))))"

text \<open>The states that a node can reach when every event satisfies \<open>ok\<close>.\<close>

inductive consensus_reach ::
    "('k, 'db) env \<Rightarrow> parameters \<Rightarrow> instant \<Rightarrow> 'db store \<Rightarrow> (consensus_event \<Rightarrow> bool) \<Rightarrow> 'db consensus_node \<Rightarrow> bool"
  for E P now st ok where
  reach_spawn: "consensus_spawn E P now st = Ok n \<Longrightarrow> consensus_reach E P now st ok n"
| reach_turn: "consensus_reach E P now st ok n \<Longrightarrow> ok ev \<Longrightarrow> consensus_reach E P now st ok (consensus_turn E P ev n)"

lemma reach_fold:
  "consensus_reach E P now st ok n \<Longrightarrow> \<forall>ev\<in>set evs. ok ev \<Longrightarrow> consensus_reach E P now st ok (fold (consensus_turn E P) evs n)"
  by (induction evs arbitrary: n) (auto intro: reach_turn)

section \<open>What a turn does to the channels\<close>

lemma stop_task_fields [simp]:
  "cn_store (stop_task k r n) = cn_store n" "cn_core (stop_task k r n) = cn_core n"
  "cn_synchronizer (stop_task k r n) = cn_synchronizer n" "cn_waiter (stop_task k r n) = cn_waiter n"
  "cn_proposer (stop_task k r n) = cn_proposer n" "rx_consensus (stop_task k r n) = rx_consensus n"
  "rx_loopback (stop_task k r n) = rx_loopback n" "rx_inner (stop_task k r n) = rx_inner n"
  "rx_payload_waiter (stop_task k r n) = rx_payload_waiter n" "rx_proposer (stop_task k r n) = rx_proposer n"
  "rx_mempool (stop_task k r n) = rx_mempool n" "tx_commit (stop_task k r n) = tx_commit n"
  "cn_stopped (stop_task k r n) = (case r of Ok _ \<Rightarrow> cn_stopped n | _ \<Rightarrow> insert k (cn_stopped n))"
  by (simp_all add: stop_task_def split: outcome.split)

lemma core_effect_fields [simp]:
  "cn_store (core_effect e n) = cn_store n" "cn_core (core_effect e n) = cn_core n"
  "cn_synchronizer (core_effect e n) = cn_synchronizer n" "cn_waiter (core_effect e n) = cn_waiter n"
  "cn_proposer (core_effect e n) = cn_proposer n" "cn_stopped (core_effect e n) = cn_stopped n"
  "rx_consensus (core_effect e n) = rx_consensus n" "rx_loopback (core_effect e n) = rx_loopback n"
  "rx_mempool (core_effect e n) = rx_mempool n"
  by (cases e; simp)+

lemma task_effect_fields [simp]:
  "cn_store (task_effect e n) = cn_store n" "cn_core (task_effect e n) = cn_core n"
  "cn_synchronizer (task_effect e n) = cn_synchronizer n" "cn_waiter (task_effect e n) = cn_waiter n"
  "cn_proposer (task_effect e n) = cn_proposer n" "cn_stopped (task_effect e n) = cn_stopped n"
  "rx_consensus (task_effect e n) = rx_consensus n" "rx_inner (task_effect e n) = rx_inner n"
  "rx_payload_waiter (task_effect e n) = rx_payload_waiter n" "rx_proposer (task_effect e n) = rx_proposer n"
  "rx_mempool (task_effect e n) = rx_mempool n" "tx_commit (task_effect e n) = tx_commit n"
  by (cases e; simp)+

lemma proposed_effect_fields [simp]:
  "cn_store (proposed_effect e n) = cn_store n" "cn_core (proposed_effect e n) = cn_core n"
  "cn_synchronizer (proposed_effect e n) = cn_synchronizer n" "cn_waiter (proposed_effect e n) = cn_waiter n"
  "cn_proposer (proposed_effect e n) = cn_proposer n" "cn_stopped (proposed_effect e n) = cn_stopped n"
  "rx_consensus (proposed_effect e n) = rx_consensus n" "rx_inner (proposed_effect e n) = rx_inner n"
  "rx_payload_waiter (proposed_effect e n) = rx_payload_waiter n" "rx_proposer (proposed_effect e n) = rx_proposer n"
  "rx_mempool (proposed_effect e n) = rx_mempool n" "tx_commit (proposed_effect e n) = tx_commit n"
  by (cases e; simp)+

lemma dispatched_effect_fields [simp]:
  "cn_store (dispatched_effect e n) = cn_store n" "cn_core (dispatched_effect e n) = cn_core n"
  "cn_synchronizer (dispatched_effect e n) = cn_synchronizer n" "cn_waiter (dispatched_effect e n) = cn_waiter n"
  "cn_proposer (dispatched_effect e n) = cn_proposer n" "cn_stopped (dispatched_effect e n) = cn_stopped n"
  "rx_loopback (dispatched_effect e n) = rx_loopback n" "rx_inner (dispatched_effect e n) = rx_inner n"
  "rx_payload_waiter (dispatched_effect e n) = rx_payload_waiter n" "rx_proposer (dispatched_effect e n) = rx_proposer n"
  "rx_mempool (dispatched_effect e n) = rx_mempool n" "tx_commit (dispatched_effect e n) = tx_commit n"
  by (cases e; simp)+

lemma effects_fields [simp]:
  "cn_store (fold core_effect es n) = cn_store n" "cn_core (fold core_effect es n) = cn_core n"
  "cn_synchronizer (fold core_effect es n) = cn_synchronizer n" "cn_waiter (fold core_effect es n) = cn_waiter n"
  "cn_proposer (fold core_effect es n) = cn_proposer n" "cn_stopped (fold core_effect es n) = cn_stopped n"
  "rx_consensus (fold core_effect es n) = rx_consensus n" "rx_loopback (fold core_effect es n) = rx_loopback n"
  "rx_mempool (fold core_effect es n) = rx_mempool n"
  "cn_store (fold task_effect es n) = cn_store n" "cn_core (fold task_effect es n) = cn_core n"
  "cn_synchronizer (fold task_effect es n) = cn_synchronizer n" "cn_waiter (fold task_effect es n) = cn_waiter n"
  "cn_proposer (fold task_effect es n) = cn_proposer n" "cn_stopped (fold task_effect es n) = cn_stopped n"
  "rx_consensus (fold task_effect es n) = rx_consensus n" "rx_inner (fold task_effect es n) = rx_inner n"
  "rx_payload_waiter (fold task_effect es n) = rx_payload_waiter n" "rx_proposer (fold task_effect es n) = rx_proposer n"
  "rx_mempool (fold task_effect es n) = rx_mempool n" "tx_commit (fold task_effect es n) = tx_commit n"
  "cn_store (fold proposed_effect ps n) = cn_store n" "cn_core (fold proposed_effect ps n) = cn_core n"
  "cn_synchronizer (fold proposed_effect ps n) = cn_synchronizer n" "cn_waiter (fold proposed_effect ps n) = cn_waiter n"
  "cn_proposer (fold proposed_effect ps n) = cn_proposer n" "cn_stopped (fold proposed_effect ps n) = cn_stopped n"
  "rx_consensus (fold proposed_effect ps n) = rx_consensus n" "rx_inner (fold proposed_effect ps n) = rx_inner n"
  "rx_payload_waiter (fold proposed_effect ps n) = rx_payload_waiter n" "rx_proposer (fold proposed_effect ps n) = rx_proposer n"
  "rx_mempool (fold proposed_effect ps n) = rx_mempool n" "tx_commit (fold proposed_effect ps n) = tx_commit n"
  "cn_store (fold dispatched_effect ds n) = cn_store n" "cn_core (fold dispatched_effect ds n) = cn_core n"
  "cn_synchronizer (fold dispatched_effect ds n) = cn_synchronizer n" "cn_waiter (fold dispatched_effect ds n) = cn_waiter n"
  "cn_proposer (fold dispatched_effect ds n) = cn_proposer n" "cn_stopped (fold dispatched_effect ds n) = cn_stopped n"
  "rx_loopback (fold dispatched_effect ds n) = rx_loopback n" "rx_inner (fold dispatched_effect ds n) = rx_inner n"
  "rx_payload_waiter (fold dispatched_effect ds n) = rx_payload_waiter n" "rx_proposer (fold dispatched_effect ds n) = rx_proposer n"
  "rx_mempool (fold dispatched_effect ds n) = rx_mempool n" "tx_commit (fold dispatched_effect ds n) = tx_commit n"
  by (rule fold_field, simp)+

lemma core_effects_channels:
  "set (rx_inner (fold core_effect es n)) = set (rx_inner n) \<union> {b. To_synchronizer b \<in> set es}"
  "set (rx_payload_waiter (fold core_effect es n)) = set (rx_payload_waiter n) \<union> {m. To_payload_waiter m \<in> set es}"
  "set (rx_proposer (fold core_effect es n)) = set (rx_proposer n) \<union> {m. To_proposer m \<in> set es}"
  "tx_commit (fold core_effect es n) = tx_commit n @ commits es"
proof (induction es arbitrary: n)
  case (Cons e es)
  { case 1 show ?case using Cons(1) [of "core_effect e n"] by (cases e) auto next
    case 2 show ?case using Cons(2) [of "core_effect e n"] by (cases e) auto next
    case 3 show ?case using Cons(3) [of "core_effect e n"] by (cases e) auto next
    case 4 show ?case using Cons(4) [of "core_effect e n"] by (cases e) (auto simp: commits_def) }
qed simp_all

lemma task_effects_loopback:
  "set (rx_loopback (fold task_effect es n)) = set (rx_loopback n) \<union> {b. To_loopback b \<in> set es}"
proof (induction es arbitrary: n)
  case (Cons e es)
  show ?case using Cons [of "task_effect e n"] by (cases e) auto
qed simp

lemma proposed_effects_loopback:
  "set (rx_loopback (fold proposed_effect ps n)) = set (rx_loopback n) \<union> {b. Proposed b \<in> set ps}"
proof (induction ps arbitrary: n)
  case (Cons e ps)
  show ?case using Cons [of "proposed_effect e n"] by (cases e) auto
qed simp

lemma dispatched_effects_consensus:
  "set (rx_consensus (fold dispatched_effect ds n)) = set (rx_consensus n) \<union> {m. To_core m \<in> set ds}"
proof (induction ds arbitrary: n)
  case (Cons e ds)
  show ?case using Cons [of "dispatched_effect e n"] by (cases e) auto
qed simp

section \<open>What a turn of each task gives back\<close>

lemma sync_retry_sends:
  "sync_retry E delay now rs s = (r, t) \<Longrightarrow> \<exists>es. t = s\<lparr>out := out s @ es\<rparr> \<and> (\<forall>b. To_loopback b \<notin> set es)"
proof (induction rs arbitrary: s)
  case Nil
  then show ?case by (intro exI [of _ "[]"]) (simp add: ret_def)
next
  case (Cons x rs)
  obtain d ts where x: "x = (d, ts)" by (cases x)
  show ?case
  proof (cases "ts + ucast delay < now")
    case False
    with Cons show ?thesis by (simp add: x proc_simps)
  next
    case True
    show ?thesis
    proof (cases "ser_msg E (SyncRequest d (my_name E))")
      case None
      with Cons.prems True show ?thesis
        by (intro exI [of _ "[]"]) (simp add: x expect_def sq_def bnd_def panic_def)
    next
      case (Some m)
      let ?es = "map (\<lambda>a. Net_send a m) (map snd (broadcast_addresses (my_committee E) (my_name E)))"
      have "sync_retry E delay now rs (s\<lparr>out := out s @ ?es\<rparr>) = (r, t)"
        using Cons.prems True Some by (simp add: x expect_def sq_def bnd_def ret_def net_broadcast_def emit_def modify_def)
      from Cons.IH [OF this] obtain es where "t = s\<lparr>out := (out s @ ?es) @ es\<rparr>" "\<forall>b. To_loopback b \<notin> set es" by auto
      then show ?thesis by (intro exI [of _ "?es @ es"]) auto
    qed
  qed
qed

text \<open>The digests that the synchronizer has pending are those of the blocks that wait, each waiting once.\<close>

definition sync_tidy :: "('k, 'db) env \<Rightarrow> 'db sync_task \<Rightarrow> bool" where
  "sync_tidy E s \<longleftrightarrow> sync_pending s = block_digest (dalek E) ` set (sync_waiting s)
     \<and> distinct (map (block_digest (dalek E)) (sync_waiting s))"

text \<open>What one event of the synchronizer may do with the blocks it holds.\<close>

definition sync_gives :: "('k, 'db) env \<Rightarrow> sync_event \<Rightarrow> 'db sync_task \<Rightarrow> 'db sync_task \<Rightarrow> bool" where
  "sync_gives E ev s t \<longleftrightarrow> sync_tidy E t \<and> set (sync_waiting t) \<subseteq> set (sync_waiting s) \<union> {b. ev = Sync_block b}
     \<and> (\<exists>es. out t = out s @ es \<and> (\<forall>b. To_loopback b \<in> set es \<longrightarrow> b \<in> set (sync_waiting s))
          \<and> (\<forall>d\<in>sync_pending s. d \<in> sync_pending t \<or> gives_back E d es))
     \<and> (\<forall>b. ev = Sync_block b \<longrightarrow> block_digest (dalek E) b \<in> sync_pending t)"

lemma sync_request_gives:
  assumes T: "sync_tidy E s" and run: "sync_request E now b s = (r, t)"
  shows "sync_gives E (Sync_block b) s t"
proof (cases "block_digest (dalek E) b \<in> sync_pending s")
  case True
  then have "t = s" using run by (simp add: sync_request_def proc_simps)
  then show ?thesis using T True by (auto simp: sync_gives_def)
next
  case False
  then have "sync_pending t = insert (block_digest (dalek E) b) (sync_pending s) \<and> sync_waiting t = sync_waiting s @ [b]
      \<and> (\<exists>es. out t = out s @ es \<and> (\<forall>b. To_loopback b \<notin> set es))"
    using run
    by (auto simp: sync_request_def proc_simps expect_def net_send_def emit_def bnd_def panic_def modify_def ret_def
        split: option.splits if_splits)
  then show ?thesis using T False by (auto simp: sync_tidy_def sync_gives_def)
qed

lemma sync_ready_gives:
  assumes R: "rocksdb_ok (rocksdb E)" and T: "sync_tidy E s" and run: "sync_ready E i s = (r, t)"
  shows "sync_gives E (Sync_ready i) s t"
proof (cases "i < length (sync_waiting s)")
  case i: True
  let ?b = "sync_waiting s ! i"
  from R show ?thesis
  proof (cases rule: store_read_cases [where d = "parent ?b" and st = "my_store s"])
    case absent
    then have "t = s" using run i by (simp add: sync_ready_def proc_simps)
    then show ?thesis using T by (auto simp: sync_gives_def)
  next
    case (present v)
    have t: "t = s\<lparr>sync_waiting := remove_at i (sync_waiting s), sync_pending := sync_pending s - {block_digest (dalek E) ?b},
        sync_requests := AList.delete (parent ?b) (sync_requests s), out := out s @ [To_loopback ?b]\<rparr>"
      using run sync_ready_present [OF i refl present(1)] by simp
    have d: "distinct (map (block_digest (dalek E)) (sync_waiting s))" using T by (simp add: sync_tidy_def)
    note rm = distinct_map_remove_at [OF d i]
    have "sync_tidy E t" using T rm by (simp add: sync_tidy_def t)
    moreover have "set (remove_at i (sync_waiting s)) \<subseteq> set (sync_waiting s)" by (rule remove_at_subset)
    ultimately show ?thesis using i by (auto simp: sync_gives_def t gives_back_def)
  qed
next
  case False
  then have "t = s" using run by (simp add: sync_ready_def proc_simps)
  then show ?thesis using T by (auto simp: sync_gives_def)
qed

lemma sync_handle_gives:
  assumes R: "rocksdb_ok (rocksdb E)" and T: "sync_tidy E s" and run: "sync_handle E delay (now, ev) s = (r, t)"
  shows "sync_gives E ev s t"
proof (cases ev)
  case (Sync_block b)
  then show ?thesis using sync_request_gives [OF T, of now b r t] run by (simp add: sync_handle_def)
next
  case (Sync_ready i)
  then show ?thesis using sync_ready_gives [OF R T, of i r t] run by (simp add: sync_handle_def)
next
  case Sync_timer
  then have "sync_retry E delay now (sync_requests s) s = (r, t)"
    using run by (simp add: sync_handle_def sync_timer_def bnd_gets)
  from sync_retry_sends [OF this] show ?thesis using T by (auto simp: sync_gives_def Sync_timer sync_tidy_def)
next
  case (Sync_write k v)
  then have "t = s\<lparr>my_store := store_write (rocksdb E) k v (my_store s),
      out := out s @ map Store_notify (store_write_replies (rocksdb E) k v (my_store s))\<rparr>"
    using run by (simp add: sync_handle_def write_store_def modify_def)
  then show ?thesis using T by (auto simp: sync_gives_def Sync_write sync_tidy_def)
qed

lemma payload_handle_gives:
  assumes R: "rocksdb_ok (rocksdb E)" and run: "payload_handle E ev s = (r, t)"
  shows "waiter_block ` set (payload_waiting t) \<subseteq> waiter_block ` set (payload_waiting s) \<union> {b. \<exists>m. ev = Payload_message (Wait m b)}
    \<and> (\<exists>es. out t = out s @ es \<and> (\<forall>b. To_loopback b \<in> set es \<longrightarrow> b \<in> waiter_block ` set (payload_waiting s)))"
proof (cases ev)
  case (Payload_message m)
  show ?thesis
  proof (cases m)
    case (Wait ds b)
    then show ?thesis using run
      by (auto simp: Payload_message payload_handle_def payload_wait_def proc_simps Let_def split: if_splits)
  next
    case (Waiter_cleanup k)
    then show ?thesis using run by (auto simp: Payload_message payload_handle_def payload_cleanup_def modify_def)
  qed
next
  case (Payload_ready pick i)
  have run: "payload_ready E pick i s = (r, t)" using run by (simp add: Payload_ready payload_handle_def)
  from R run show ?thesis
  proof (cases rule: payload_ready_cases)
    case idle
    then show ?thesis by auto
  next
    case dropped
    then show ?thesis using remove_at_subset [of i "payload_waiting s"] by (auto simp: image_subset_iff)
  next
    case given
    then show ?thesis using remove_at_subset [of i "payload_waiting s"] nth_mem [OF given(1)] by auto
  qed
next
  case (Payload_write k v)
  then show ?thesis using run by (auto simp: payload_handle_def write_store_def modify_def)
qed

lemma proposer_handle_gives:
  assumes run: "proposer_handle E ev s = (r, t)"
  shows "set (prop_buffer t) \<subseteq> set (prop_buffer s) \<union> {d. ev = From_mempool d}
    \<and> (\<exists>es. prop_out t = prop_out s @ es \<and> (\<forall>b. Proposed b \<in> set es \<longrightarrow> block_author b = my_name E
         \<and> set (block_payload b) \<subseteq> set (prop_buffer s)
         \<and> (\<exists>as. ev = From_core (Make (block_round b) (block_qc b) (block_tc b)) as)))"
proof (cases ev)
  case (From_mempool d)
  then show ?thesis using run by (auto simp: proposer_handle_def modify_def)
next
  case (From_core m as)
  show ?thesis
  proof (cases m)
    case (Proposer_cleanup ds)
    then show ?thesis using run by (auto simp: From_core proposer_handle_def modify_def set_fold_removeAll)
  next
    case (Make k q t')
    have "make_block E k q t' as s = (r, t)" using run by (simp add: From_core Make proposer_handle_def)
    then show ?thesis
    proof (cases rule: make_block_cases)
      case (stopped p)
      then show ?thesis by auto
    next
      case (made b es)
      have "Proposed b' \<in> set es \<longleftrightarrow> b' = b" for b' using made(3) by (auto simp: proposed_def)
      then show ?thesis using made(2) block_new_fields [OF made(1)] by (auto simp: From_core Make)
    qed
  qed
qed

lemma helper_handle_gives: "helper_handle E x s = (r, t) \<Longrightarrow> \<exists>es. out t = out s @ es \<and> (\<forall>b. To_loopback b \<notin> set es)"
  by (auto simp: helper_handle_def bnd_def gets_def expect_def ret_def panic_def net_send_def emit_def modify_def
      split: prod.splits option.splits sum.splits outcome.splits)

end
