(* ===== verification/Consensus_Wiring.thy ===== *)
theory Consensus_Wiring
  imports Consensus_Node
begin

text \<open>
  What holds of the node of \<open>Consensus_Node\<close> in every interleaving of its tasks. Its core makes a run of
  \<open>Core\<close> on inputs that the argument of \<open>Core_Safety\<close> allows: the blocks that come back to it over the loopback channel are
  ones that it has handed out itself, because the synchronizer, the payload waiter and the proposer put nothing else
  there. So the safety of the core carries over to nodes, and no block that it hands to the synchronizer gets lost.
\<close>

section \<open>One more event of a run of the core\<close>

lemma core_loop_snoc: "core_loop E (evs @ [(now, ev)]) = sq (core_loop E evs) (step E now ev)"
  by (induction E evs rule: core_loop.induct)
    (auto simp: fun_eq_iff sq_def bnd_def ret_def split: prod.splits outcome.splits)

lemma core_run_snoc:
  assumes "core_run E ms t0 st evs = (Ok (), c)"
  shows "core_run E ms t0 st (evs @ [(now, ev)]) = step E now ev c"
proof -
  obtain s where b: "boot E t0 (core_new E ms t0 st) = (Ok (), s)"
    using assms by (cases "boot E t0 (core_new E ms t0 st)"; cases "fst (boot E t0 (core_new E ms t0 st))")
      (auto simp: core_run_def run_sq)
  then have "core_loop E evs s = (Ok (), c)" using assms by (simp add: core_run_def run_sq)
  with b show ?thesis by (simp add: core_run_def core_loop_snoc run_sq)
qed

lemma events_ok_snoc:
  "core_loop E evs s = (Ok (), c) \<Longrightarrow> events_ok E sg evs s \<Longrightarrow> event_ok E sg c ev \<Longrightarrow> events_ok E sg (evs @ [(now, ev)]) s"
proof (induction evs arbitrary: s)
  case Nil
  then show ?case by (simp add: ret_def split: prod.split outcome.split)
next
  case (Cons x evs)
  obtain k e where x: "x = (k, e)" by (cases x)
  obtain r s' where e: "step E k e s = (r, s')" by (cases "step E k e s")
  have r: "r = Ok ()" using Cons.prems(1) e by (cases r) (simp_all add: x run_sq)
  then have "core_loop E evs s' = (Ok (), c)" using Cons.prems(1) e by (simp add: x run_sq)
  with Cons e r show ?case by (simp add: x)
qed

lemma run_ok_snoc:
  assumes run: "core_run E ms t0 st evs = (Ok (), c)" and "run_ok E sg ms t0 st evs" and "event_ok E sg c ev"
  shows "run_ok E sg ms t0 st (evs @ [(now, ev)])"
proof -
  obtain r s where b: "boot E t0 (core_new E ms t0 st) = (r, s)" by (cases "boot E t0 (core_new E ms t0 st)")
  have r: "r = Ok ()" using run b by (cases r) (simp_all add: core_run_def run_sq)
  then have "core_loop E evs s = (Ok (), c)" using run b by (simp add: core_run_def run_sq)
  from events_ok_snoc [OF this _ assms(3)] assms(2) b r show ?thesis by (simp add: run_ok_def)
qed

section \<open>What is assumed\<close>

text \<open>Of what arrives from outside the consensus: the frames of the network and what the mempool does.\<close>

fun arrives_ok :: "('k, 'db) env \<Rightarrow> signed \<Rightarrow> consensus_event \<Rightarrow> bool" where
  "arrives_ok E sg (Cn_frame frame) \<longleftrightarrow> (\<forall>m. de_msg E frame = Ok m \<longrightarrow> genuine_message (dalek E) (my_committee E) sg m)"
| "arrives_ok E sg (Cn_digest d) \<longleftrightarrow> digest_wf d"
| "arrives_ok E sg (Cn_write k v) \<longleftrightarrow> (\<forall>b. de_block E v \<noteq> Ok b)"
| "arrives_ok E sg _ \<longleftrightarrow> True"

text \<open>That \<open>sg\<close> has the signatures that the node makes: those of its core, and those of the blocks of its proposer.\<close>

definition node_signed :: "('k, 'db) env \<Rightarrow> signed \<Rightarrow> 'db consensus_node \<Rightarrow> bool" where
  "node_signed E sg n \<longleftrightarrow> logged_within E sg (cn_core n)
     \<and> (\<forall>b. Proposed b \<in> set (prop_out (cn_proposer n)) \<longrightarrow> sg (my_name E) (block_preimage b))"

lemma step_grows: "step E now ev s = (r, t) \<Longrightarrow> log_grows s t"
  by (rule keepsD [OF keeps_step])

lemma core_turn_grows: "log_grows (cn_core n) (cn_core (core_turn E now ev n))"
  by (auto simp: core_turn_def lg.rel_refl split: prod.split dest: step_grows)

lemma core_turn_proposer [simp]: "cn_proposer (core_turn E now ev n) = cn_proposer n"
  by (simp add: core_turn_def split: prod.split)

lemma other_turns_core [simp]:
  "cn_core (synchronizer_turn E P now sev n) = cn_core n" "cn_core (waiter_turn E wev n) = cn_core n"
  "cn_core (proposer_turn E pev n) = cn_core n" "cn_core (helper_turn E x n) = cn_core n"
  "cn_proposer (synchronizer_turn E P now sev n) = cn_proposer n" "cn_proposer (waiter_turn E wev n) = cn_proposer n"
  "cn_proposer (helper_turn E x n) = cn_proposer n"
  by (simp_all add: synchronizer_turn_def waiter_turn_def proposer_turn_def helper_turn_def split: prod.split)

lemma proposer_turn_grows: "\<exists>es. prop_out (cn_proposer (proposer_turn E ev n)) = prop_out (cn_proposer n) @ es"
  by (auto simp: proposer_turn_def split: prod.split dest: proposer_handle_gives)

lemma turn_grows:
  "log_grows (cn_core n) (cn_core (consensus_turn E P ev n))"
  "\<exists>es. prop_out (cn_proposer (consensus_turn E P ev n)) = prop_out (cn_proposer n) @ es"
proof -
  show "log_grows (cn_core n) (cn_core (consensus_turn E P ev n))"
    using core_turn_grows [of "n\<lparr>rx_consensus := _\<rparr>"] core_turn_grows [of "n\<lparr>rx_loopback := _\<rparr>"] core_turn_grows [of n]
      keeps_step [of E 0]
    by (cases ev) (auto simp: consensus_turn_def shared_write_def keeps_def lg.rel_refl split: list.split)
  show "\<exists>es. prop_out (cn_proposer (consensus_turn E P ev n)) = prop_out (cn_proposer n) @ es"
    using proposer_turn_grows [of E _ "n\<lparr>rx_mempool := _\<rparr>"] proposer_turn_grows [of E _ "n\<lparr>rx_proposer := _\<rparr>"]
    by (cases ev) (auto simp: consensus_turn_def shared_write_def split: list.split)
qed

lemma node_signed_back:
  assumes "node_signed E sg (consensus_turn E P ev n)"
  shows "node_signed E sg n"
proof -
  have "logged_within E sg (cn_core n)"
    by (rule wi.guard_back [OF turn_grows(1)]) (use assms in \<open>auto simp: node_signed_def\<close>)
  moreover obtain es where "prop_out (cn_proposer (consensus_turn E P ev n)) = prop_out (cn_proposer n) @ es"
    using turn_grows(2) by blast
  ultimately show ?thesis using assms by (simp add: node_signed_def)
qed

section \<open>The invariant\<close>

definition runs_core ::
    "('k, 'db) env \<Rightarrow> signed \<Rightarrow> parameters \<Rightarrow> instant \<Rightarrow> 'db store \<Rightarrow> 'db consensus_node \<Rightarrow> bool" where
  "runs_core E sg P now st n \<longleftrightarrow> (\<exists>evs r. core_run E (timeout_delay P) now st evs = (r, cn_core n)
     \<and> run_ok E sg (timeout_delay P) now st evs
     \<and> (Core_task \<notin> cn_stopped n \<longrightarrow> r = Ok () \<and> my_store (cn_core n) = cn_store n))"

text \<open>What is in the channels, and in the tasks at their ends.\<close>

definition channels_ok :: "('k, 'db) env \<Rightarrow> signed \<Rightarrow> 'db consensus_node \<Rightarrow> bool" where
  "channels_ok E sg n \<longleftrightarrow>
     (\<forall>m\<in>set (rx_consensus n). for_core m \<and> genuine_message (dalek E) (my_committee E) sg m)
     \<and> (\<forall>b\<in>set (rx_loopback n). handed_out (cn_core n) b \<and> (\<exists>a. sg a (block_preimage b)))
     \<and> (\<forall>b\<in>set (rx_inner n) \<union> set (sync_waiting (cn_synchronizer n)). To_synchronizer b \<in> set (out (cn_core n)))
     \<and> (\<forall>m\<in>set (rx_payload_waiter n). To_payload_waiter m \<in> set (out (cn_core n)))
     \<and> (\<forall>b\<in>waiter_block ` set (payload_waiting (cn_waiter n)). \<exists>ds. To_payload_waiter (Wait ds b) \<in> set (out (cn_core n)))
     \<and> (\<forall>m\<in>set (rx_proposer n). To_proposer m \<in> set (out (cn_core n)))
     \<and> (\<forall>d\<in>set (rx_mempool n) \<union> set (prop_buffer (cn_proposer n)). digest_wf d)
     \<and> (\<forall>b. Proposed b \<in> set (prop_out (cn_proposer n)) \<longrightarrow> block_wf b)"

definition wired ::
    "('k, 'db) env \<Rightarrow> signed \<Rightarrow> parameters \<Rightarrow> instant \<Rightarrow> 'db store \<Rightarrow> 'db consensus_node \<Rightarrow> bool" where
  "wired E sg P now st n \<longleftrightarrow> runs_core E sg P now st n \<and> channels_ok E sg n
     \<and> sync_tidy E (cn_synchronizer n) \<and> tx_commit n = commits (out (cn_core n))"

lemma handed_out_grows: "handed_out s b \<Longrightarrow> log_grows s t \<Longrightarrow> handed_out t b"
  by (auto simp: handed_out_def log_grows_def)

lemma core_known:
  assumes "trusted E sg" and "runs_core E sg P now st n" and "node_signed E sg n"
  shows "core_inv E sg (cn_core n)"
proof -
  obtain evs r where "core_run E (timeout_delay P) now st evs = (r, cn_core n)"
    and "run_ok E sg (timeout_delay P) now st evs"
    using assms(2) by (auto simp: runs_core_def)
  then show ?thesis using core_run_inv [OF assms(1), of "timeout_delay P" now st evs] assms(3) by (simp add: node_signed_def)
qed

text \<open>What the core has handed out has been signed.\<close>

lemma handed_out_signed:
  assumes "core_inv E sg s"
  shows "To_synchronizer b \<in> set (out s) \<Longrightarrow> \<exists>a. sg a (block_preimage b)"
    and "To_payload_waiter (Wait ds b) \<in> set (out s) \<Longrightarrow> \<exists>a. sg a (block_preimage b)"
    and "To_proposer (Make r q t) \<in> set (out s) \<Longrightarrow> digest_wf (qc_hash q)"
  using assms
  by (force simp: core_inv_def log_inv_def block_attested_def qc_attested_def qc_eq_def qc_genesis_def digest_wf_def
      digest_default_def)+

section \<open>The turns keep it\<close>

lemma core_turn_wired:
  assumes W: "wired E sg P t0 st n" and live: "Core_task \<notin> cn_stopped n"
    and ev: "event_ok E sg (cn_core n) ev"
  shows "wired E sg P t0 st (core_turn E now ev n)"
proof -
  obtain r c where s: "step E now ev (cn_core n) = (r, c)" by (cases "step E now ev (cn_core n)")
  obtain es where es: "out c = out (cn_core n) @ es" using step_grows [OF s] by (auto simp: log_grows_def)
  let ?m = "stop_task Core_task r (n\<lparr>cn_core := c, cn_store := my_store c\<rparr>)"
  have t: "core_turn E now ev n = fold core_effect es ?m" using s es by (simp add: core_turn_def)
  obtain evs where run: "core_run E (timeout_delay P) t0 st evs = (Ok (), cn_core n)"
    and ok: "run_ok E sg (timeout_delay P) t0 st evs"
    using W live by (auto simp: wired_def runs_core_def)
  have "core_run E (timeout_delay P) t0 st (evs @ [(now, ev)]) = (r, c)"
    using core_run_snoc [OF run] s by simp
  then have "runs_core E sg P t0 st (core_turn E now ev n)"
    unfolding t runs_core_def using run_ok_snoc [OF run ok ev]
    by (intro exI [of _ "evs @ [(now, ev)]"] exI [of _ r]) (auto split: outcome.splits)
  moreover have "channels_ok E sg (core_turn E now ev n)"
    using W handed_out_grows [OF _ step_grows [OF s]]
    unfolding wired_def channels_ok_def t
    by (auto simp: core_effects_channels es)
  moreover have "tx_commit (core_turn E now ev n) = commits (out c)"
    using W by (simp add: wired_def t core_effects_channels es)
  ultimately show ?thesis using W by (simp add: wired_def t)
qed

text \<open>A write to the store is a step of the core, as long as that runs.\<close>

lemma shared_write_wired:
  assumes W: "wired E sg P t0 st n" and v: "\<forall>b. de_block E v \<noteq> Ok b"
  shows "wired E sg P t0 st (shared_write E k v n)"
proof (cases "Core_task \<in> cn_stopped n")
  case True
  then show ?thesis using W by (auto simp: wired_def shared_write_def runs_core_def channels_ok_def)
next
  case False
  obtain evs where run: "core_run E (timeout_delay P) t0 st evs = (Ok (), cn_core n)"
    and ok: "run_ok E sg (timeout_delay P) t0 st evs" and same: "my_store (cn_core n) = cn_store n"
    using W False by (auto simp: wired_def runs_core_def)
  let ?c = "(cn_core n)\<lparr>my_store := store_write (rocksdb E) k v (my_store (cn_core n)), out := out (cn_core n)
     @ map Store_notify (store_write_replies (rocksdb E) k v (my_store (cn_core n)))\<rparr>"
  have s: "step E 0 (Other_write k v) (cn_core n) = (Ok (), ?c)"
    by (simp add: step_def handle_def write_store_def modify_def)
  have "core_run E (timeout_delay P) t0 st (evs @ [(0, Other_write k v)]) = (Ok (), ?c)"
    using core_run_snoc [OF run] s by simp
  moreover have "run_ok E sg (timeout_delay P) t0 st (evs @ [(0, Other_write k v)])"
    using run_ok_snoc [OF run ok, of "Other_write k v"] v by simp
  ultimately have "runs_core E sg P t0 st (shared_write E k v n)"
    unfolding runs_core_def using False same s by (auto simp: shared_write_def)
  moreover have "channels_ok E sg (shared_write E k v n)"
    using W handed_out_grows [OF _ step_grows [OF s]] False
    unfolding wired_def channels_ok_def by (auto simp: shared_write_def s)
  moreover have "commits (map Store_notify xs) = []" for xs by (induction xs) (auto simp: commits_def)
  ultimately show ?thesis using W False by (simp add: wired_def shared_write_def s)
qed

lemma synchronizer_turn_wired:
  assumes R: "rocksdb_ok (rocksdb E)" and W: "wired E sg P t0 st n" and I: "core_inv E sg (cn_core n)"
    and ev: "\<And>b. ev = Sync_block b \<Longrightarrow> To_synchronizer b \<in> set (out (cn_core n))"
  shows "wired E sg P t0 st (synchronizer_turn E P now ev n)"
proof -
  let ?s = "(cn_synchronizer n)\<lparr>my_store := cn_store n\<rparr>"
  obtain r t where s: "sync_handle E (sync_retry_delay P) (now, ev) ?s = (r, t)"
    by (cases "sync_handle E (sync_retry_delay P) (now, ev) ?s")
  have T: "sync_tidy E ?s" using W by (simp add: wired_def sync_tidy_def)
  obtain es where g: "sync_tidy E t" "set (sync_waiting t) \<subseteq> set (sync_waiting (cn_synchronizer n)) \<union> {b. ev = Sync_block b}"
    and es: "out t = out (cn_synchronizer n) @ es" "\<forall>b. To_loopback b \<in> set es \<longrightarrow> b \<in> set (sync_waiting (cn_synchronizer n))"
    using sync_handle_gives [OF R T s, unfolded sync_gives_def] by auto
  let ?m = "stop_task Synchronizer_task r (n\<lparr>cn_synchronizer := t\<rparr>)"
  have t: "synchronizer_turn E P now ev n = fold task_effect es ?m"
    using s es by (simp add: synchronizer_turn_def)
  have w: "\<forall>b\<in>set (sync_waiting (cn_synchronizer n)). To_synchronizer b \<in> set (out (cn_core n))"
    using W by (simp add: wired_def channels_ok_def)
  have "\<forall>b\<in>set (sync_waiting t). To_synchronizer b \<in> set (out (cn_core n))"
    using g(2) w ev by blast
  moreover have "\<forall>b. To_loopback b \<in> set es \<longrightarrow> handed_out (cn_core n) b \<and> (\<exists>a. sg a (block_preimage b))"
    using es(2) w handed_out_signed(1) [OF I] by (simp add: handed_out_def)
  ultimately have "channels_ok E sg (synchronizer_turn E P now ev n)"
    using W unfolding wired_def channels_ok_def t by (auto simp: task_effects_loopback)
  moreover have "runs_core E sg P t0 st (synchronizer_turn E P now ev n)"
    using W unfolding wired_def runs_core_def t by (auto split: outcome.splits)
  ultimately show ?thesis using W g(1) by (simp add: wired_def t)
qed

lemma waiter_turn_wired:
  assumes R: "rocksdb_ok (rocksdb E)" and W: "wired E sg P t0 st n" and I: "core_inv E sg (cn_core n)"
    and ev: "\<And>m. ev = Payload_message m \<Longrightarrow> To_payload_waiter m \<in> set (out (cn_core n))"
  shows "wired E sg P t0 st (waiter_turn E ev n)"
proof -
  let ?s = "(cn_waiter n)\<lparr>my_store := cn_store n\<rparr>"
  obtain r t where s: "payload_handle E ev ?s = (r, t)" by (cases "payload_handle E ev ?s")
  obtain es where g: "waiter_block ` set (payload_waiting t)
      \<subseteq> waiter_block ` set (payload_waiting (cn_waiter n)) \<union> {b. \<exists>m. ev = Payload_message (Wait m b)}"
    and es: "out t = out (cn_waiter n) @ es"
      "\<forall>b. To_loopback b \<in> set es \<longrightarrow> b \<in> waiter_block ` set (payload_waiting (cn_waiter n))"
    using payload_handle_gives [OF R s] by auto
  let ?m = "stop_task Waiter_task r (n\<lparr>cn_waiter := t\<rparr>)"
  have t: "waiter_turn E ev n = fold task_effect es ?m"
    using s es by (simp add: waiter_turn_def)
  have w: "\<forall>b\<in>waiter_block ` set (payload_waiting (cn_waiter n)). \<exists>ds. To_payload_waiter (Wait ds b) \<in> set (out (cn_core n))"
    using W by (simp add: wired_def channels_ok_def)
  have "\<forall>b\<in>waiter_block ` set (payload_waiting t). \<exists>ds. To_payload_waiter (Wait ds b) \<in> set (out (cn_core n))"
  proof
    fix b assume "b \<in> waiter_block ` set (payload_waiting t)"
    then consider "b \<in> waiter_block ` set (payload_waiting (cn_waiter n))" | m where "ev = Payload_message (Wait m b)"
      using g by blast
    then show "\<exists>ds. To_payload_waiter (Wait ds b) \<in> set (out (cn_core n))" by cases (use w ev in metis)+
  qed
  moreover have "\<forall>b. To_loopback b \<in> set es \<longrightarrow> handed_out (cn_core n) b \<and> (\<exists>a. sg a (block_preimage b))"
    using es(2) w handed_out_signed(2) [OF I] unfolding handed_out_def by metis
  ultimately have "channels_ok E sg (waiter_turn E ev n)"
    using W unfolding wired_def channels_ok_def t
    by (elim conjE, intro conjI) (simp_all add: task_effects_loopback ball_Un)
  moreover have "runs_core E sg P t0 st (waiter_turn E ev n)"
    using W unfolding wired_def runs_core_def t by (auto split: outcome.splits)
  ultimately show ?thesis using W by (simp add: wired_def t)
qed

lemma proposer_turn_wired:
  assumes W: "wired E sg P t0 st n" and I: "core_inv E sg (cn_core n)" and name: "public_key_wf (my_name E)"
    and signed: "node_signed E sg (proposer_turn E ev n)"
    and ev: "\<And>m as. ev = From_core m as \<Longrightarrow> To_proposer m \<in> set (out (cn_core n))"
    and wf: "\<And>d. ev = From_mempool d \<Longrightarrow> digest_wf d"
  shows "wired E sg P t0 st (proposer_turn E ev n)"
proof -
  obtain r t where s: "proposer_handle E ev (cn_proposer n) = (r, t)" by (cases "proposer_handle E ev (cn_proposer n)")
  obtain es where g: "set (prop_buffer t) \<subseteq> set (prop_buffer (cn_proposer n)) \<union> {d. ev = From_mempool d}"
    and es: "prop_out t = prop_out (cn_proposer n) @ es"
      "\<And>b. Proposed b \<in> set es \<Longrightarrow> block_author b = my_name E \<and> set (block_payload b) \<subseteq> set (prop_buffer (cn_proposer n))
         \<and> (\<exists>as. ev = From_core (Make (block_round b) (block_qc b) (block_tc b)) as)"
    using proposer_handle_gives [OF s] by blast
  let ?m = "stop_task Proposer_task r (n\<lparr>cn_proposer := t\<rparr>)"
  have t: "proposer_turn E ev n = fold proposed_effect es ?m"
    using s es by (simp add: proposer_turn_def)
  have buffer: "\<forall>d\<in>set (prop_buffer (cn_proposer n)). digest_wf d"
    using W by (simp add: wired_def channels_ok_def)
  have made: "block_wf b \<and> handed_out (cn_core n) b \<and> (\<exists>a. sg a (block_preimage b))" if b: "Proposed b \<in> set es" for b
  proof -
    have m: "To_proposer (Make (block_round b) (block_qc b) (block_tc b)) \<in> set (out (cn_core n))"
      using es(2) [OF b] ev by blast
    then have "block_wf b"
      using es(2) [OF b] name buffer handed_out_signed(3) [OF I] by (auto simp: block_wf_def)
    moreover have "sg (my_name E) (block_preimage b)"
      using signed b by (simp add: node_signed_def t es(1))
    ultimately show ?thesis using m by (auto simp: handed_out_def)
  qed
  have "\<forall>d\<in>set (prop_buffer t). digest_wf d" using g buffer wf by blast
  then have "channels_ok E sg (proposer_turn E ev n)"
    using W made unfolding wired_def channels_ok_def t
    by (elim conjE, intro conjI) (auto simp add: proposed_effects_loopback es(1))
  moreover have "runs_core E sg P t0 st (proposer_turn E ev n)"
    using W unfolding wired_def runs_core_def t by (auto split: outcome.splits)
  ultimately show ?thesis using W by (simp add: wired_def t)
qed

lemma no_loopback_effects: "\<forall>b. To_loopback b \<notin> set es \<Longrightarrow> set (rx_loopback (fold task_effect es n)) = set (rx_loopback n)"
  by (simp add: task_effects_loopback)

lemma helper_turn_wired:
  assumes W: "wired E sg P t0 st n"
  shows "wired E sg P t0 st (helper_turn E x n)"
proof -
  obtain r t where s: "helper_handle E x \<lparr>my_store = cn_store n, out = []\<rparr> = (r, t)"
    by (cases "helper_handle E x \<lparr>my_store = cn_store n, out = []\<rparr>")
  have t: "helper_turn E x n = fold task_effect (out t) (stop_task Helper_task r n)"
    using s by (simp add: helper_turn_def)
  have "\<forall>b. To_loopback b \<notin> set (out t)" using helper_handle_gives [OF s] by auto
  note l = no_loopback_effects [OF this]
  have "channels_ok E sg (helper_turn E x n)"
    using W unfolding wired_def channels_ok_def t by (elim conjE, intro conjI) (simp_all add: l)
  moreover have "runs_core E sg P t0 st (helper_turn E x n)"
    using W unfolding wired_def runs_core_def t by (auto split: outcome.splits)
  ultimately show ?thesis using W by (simp add: wired_def t)
qed

text \<open>Taking an element from a channel.\<close>

lemma wired_pop:
  "wired E sg P t0 st n \<Longrightarrow> set ms \<subseteq> set (rx_consensus n) \<Longrightarrow> wired E sg P t0 st (n\<lparr>rx_consensus := ms\<rparr>)"
  "wired E sg P t0 st n \<Longrightarrow> set bs \<subseteq> set (rx_loopback n) \<Longrightarrow> wired E sg P t0 st (n\<lparr>rx_loopback := bs\<rparr>)"
  "wired E sg P t0 st n \<Longrightarrow> set bs \<subseteq> set (rx_inner n) \<Longrightarrow> wired E sg P t0 st (n\<lparr>rx_inner := bs\<rparr>)"
  "wired E sg P t0 st n \<Longrightarrow> set ws \<subseteq> set (rx_payload_waiter n) \<Longrightarrow> wired E sg P t0 st (n\<lparr>rx_payload_waiter := ws\<rparr>)"
  "wired E sg P t0 st n \<Longrightarrow> set ps \<subseteq> set (rx_proposer n) \<Longrightarrow> wired E sg P t0 st (n\<lparr>rx_proposer := ps\<rparr>)"
  "wired E sg P t0 st n \<Longrightarrow> \<forall>d\<in>set ds. digest_wf d \<Longrightarrow> wired E sg P t0 st (n\<lparr>rx_mempool := ds\<rparr>)"
  "wired E sg P t0 st n \<Longrightarrow> wired E sg P t0 st (n\<lparr>rx_helper := xs\<rparr>)"
  unfolding wired_def runs_core_def channels_ok_def by (auto simp: subset_iff)

lemma dispatch_gives:
  assumes "To_core m \<in> set (snd (dispatch E gone frame []))"
  shows "for_core m" and "de_msg E frame = Ok m"
proof -
  obtain r ds where d: "dispatch E gone frame [] = (r, ds)" by (cases "dispatch E gone frame []")
  show "for_core m" using dispatch_for_core [OF d] assms d by simp
  show "de_msg E frame = Ok m"
    using assms
    by (auto simp: dispatch_def deserialize_def bnd_def sq_def ret_def fail_def panic_def modify_def channel_send_def
        split: if_splits outcome.splits consensus_message.splits)
qed

lemma frame_wired:
  assumes W: "wired E sg P t0 st n" and ok: "arrives_ok E sg (Cn_frame frame)"
  shows "wired E sg P t0 st (fold dispatched_effect (snd (dispatch E gone frame [])) n)"
proof -
  have "\<forall>m\<in>set (rx_consensus (fold dispatched_effect (snd (dispatch E gone frame [])) n)).
      for_core m \<and> genuine_message (dalek E) (my_committee E) sg m"
    using W ok dispatch_gives [of _ E _ frame]
    by (auto simp: dispatched_effects_consensus wired_def channels_ok_def)
  then show ?thesis using W by (simp add: wired_def runs_core_def channels_ok_def)
qed

lemma turn_wired:
  assumes E: "trusted E sg" and name: "public_key_wf (my_name E)" and W: "wired E sg P t0 st n"
    and ok: "arrives_ok E sg ev" and signed: "node_signed E sg (consensus_turn E P ev n)"
  shows "wired E sg P t0 st (consensus_turn E P ev n)"
proof -
  have R: "rocksdb_ok (rocksdb E)" using E by (simp add: trusted_def)
  have I: "core_inv E sg (cn_core n)"
    by (rule core_known [OF E _ node_signed_back [OF signed]]) (use W in \<open>auto simp: wired_def\<close>)
  note C = W [unfolded wired_def channels_ok_def]
  show ?thesis
  proof (cases "turn_task ev \<in> Some ` cn_stopped n")
    case True
    then show ?thesis using W by (simp add: consensus_turn_def)
  next
    case live: False
    show ?thesis
    proof (cases ev)
      case (Cn_frame frame)
      then show ?thesis using live frame_wired [OF W] ok by (auto simp: consensus_turn_def turn_task_def)
    next
      case (Cn_digest d)
      then show ?thesis
        using live wired_pop(6) [OF W, of "rx_mempool n @ [d]"] C ok by (auto simp: consensus_turn_def turn_task_def)
    next
      case (Cn_write k v)
      then show ?thesis using live shared_write_wired [OF W] ok by (auto simp: consensus_turn_def turn_task_def)
    next
      case (Cn_message now)
      then show ?thesis using live W C
        by (auto simp: consensus_turn_def turn_task_def intro!: core_turn_wired wired_pop split: list.split)
    next
      case (Cn_loopback now)
      then show ?thesis using live W C
        by (auto simp: consensus_turn_def turn_task_def intro!: core_turn_wired wired_pop split: list.split)
    next
      case (Cn_timer now)
      then show ?thesis using live by (auto simp: consensus_turn_def turn_task_def intro!: core_turn_wired [OF W])
    next
      case (Cn_sync_block now)
      then show ?thesis using live W C I
        by (auto simp: consensus_turn_def turn_task_def intro!: synchronizer_turn_wired [OF R] wired_pop split: list.split)
    next
      case (Cn_sync_ready now i)
      then show ?thesis using live by (auto simp: consensus_turn_def turn_task_def intro!: synchronizer_turn_wired [OF R W I])
    next
      case (Cn_sync_timer now)
      then show ?thesis using live by (auto simp: consensus_turn_def turn_task_def intro!: synchronizer_turn_wired [OF R W I])
    next
      case Cn_wait
      then show ?thesis using live W C I
        by (auto simp: consensus_turn_def turn_task_def intro!: waiter_turn_wired [OF R] wired_pop split: list.split)
    next
      case (Cn_wait_ready pick i)
      then show ?thesis using live by (auto simp: consensus_turn_def turn_task_def intro!: waiter_turn_wired [OF R W I])
    next
      case Cn_buffer
      then show ?thesis using live W C I signed name
        by (auto simp: consensus_turn_def turn_task_def intro!: proposer_turn_wired wired_pop split: list.splits)
    next
      case (Cn_propose answers)
      then show ?thesis using live W C I signed name
        by (auto simp: consensus_turn_def turn_task_def intro!: proposer_turn_wired wired_pop split: list.splits)
    next
      case Cn_help
      then show ?thesis using live W
        by (auto simp: consensus_turn_def turn_task_def intro!: helper_turn_wired wired_pop split: list.split)
    qed
  qed
qed

section \<open>The start\<close>

definition no_blocks :: "('k, 'db) env \<Rightarrow> 'db store \<Rightarrow> bool" where
  "no_blocks E st \<longleftrightarrow> (\<forall>k v b. store_read (rocksdb E) k st = Inr (Some v) \<longrightarrow> de_block E v \<noteq> Ok b)"

lemma spawn_wired:
  assumes st: "no_blocks E st" and n: "consensus_spawn E P now st = Ok n"
  shows "wired E sg P now st n"
proof -
  obtain r c where b: "boot E now (core_new E (timeout_delay P) now st) = (r, c)"
    by (cases "boot E now (core_new E (timeout_delay P) now st)")
  have "core_run E (timeout_delay P) now st [] = (r, c)"
    using b by (cases r) (simp_all add: core_run_def run_sq ret_def)
  moreover have "run_ok E sg (timeout_delay P) now st []"
    using st by (auto simp: run_ok_def no_blocks_def split: prod.split outcome.split)
  moreover have "cn_core n = c" "cn_store n = my_store c" "Core_task \<notin> cn_stopped n \<longrightarrow> r = Ok ()"
    using n b by (auto simp: consensus_spawn_def split: option.splits prod.splits outcome.splits)
  ultimately have "runs_core E sg P now st n" unfolding runs_core_def by metis
  moreover have "channels_ok E sg n" "sync_tidy E (cn_synchronizer n)" "tx_commit n = commits (out (cn_core n))"
    using n b
    by (auto simp: consensus_spawn_def channels_ok_def core_effects_channels sync_tidy_def sync_new_def
        payload_new_def proposer_new_def stop_task_def split: option.splits prod.splits outcome.splits)
  ultimately show ?thesis by (simp add: wired_def)
qed

lemma reach_wired:
  assumes "consensus_reach E P now st ok n" and "\<And>ev. ok ev \<Longrightarrow> arrives_ok E sg ev" and "trusted E sg" and "public_key_wf (my_name E)"
    and "no_blocks E st"
  shows "node_signed E sg n \<Longrightarrow> wired E sg P now st n"
  using assms(1)
proof induction
  case (reach_spawn n)
  then show ?case by (intro spawn_wired [OF assms(5)])
next
  case (reach_turn n ev)
  then show ?case
    using turn_wired [OF assms(3,4) _ assms(2)] node_signed_back by blast
qed

section \<open>Blocks handed to the synchronizer\<close>

text \<open>
  A block that the core has handed to the synchronizer is in the channel, its digest is pending, or a block with its
  digest has come back.
\<close>

definition sync_conserves :: "('k, 'db) env \<Rightarrow> 'db consensus_node \<Rightarrow> bool" where
  "sync_conserves E n \<longleftrightarrow> sync_tidy E (cn_synchronizer n) \<and> (Synchronizer_task \<notin> cn_stopped n \<longrightarrow>
     (\<forall>b. To_synchronizer b \<in> set (out (cn_core n)) \<longrightarrow> b \<in> set (rx_inner n)
        \<or> block_digest (dalek E) b \<in> sync_pending (cn_synchronizer n)
        \<or> gives_back E (block_digest (dalek E) b) (out (cn_synchronizer n))))"

lemma gives_back_append: "gives_back E d (es @ es') \<longleftrightarrow> gives_back E d es \<or> gives_back E d es'"
  by (auto simp: gives_back_def)

text \<open>A turn of a task other than the synchronizer leaves it alone.\<close>

lemma sync_conserves_same:
  assumes "sync_conserves E n" and "cn_synchronizer m = cn_synchronizer n"
    and "Synchronizer_task \<in> cn_stopped n \<Longrightarrow> Synchronizer_task \<in> cn_stopped m"
    and "set (rx_inner m) = set (rx_inner n) \<union> {b. To_synchronizer b \<in> set es}" and "out (cn_core m) = out (cn_core n) @ es"
  shows "sync_conserves E m"
  using assms by (auto simp: sync_conserves_def)

lemma core_turn_conserves:
  assumes "sync_conserves E n"
  shows "sync_conserves E (core_turn E now ev n)"
proof -
  obtain r c where s: "step E now ev (cn_core n) = (r, c)" by (cases "step E now ev (cn_core n)")
  obtain es where es: "out c = out (cn_core n) @ es" using step_grows [OF s] by (auto simp: log_grows_def)
  have t: "core_turn E now ev n = fold core_effect es (stop_task Core_task r (n\<lparr>cn_core := c, cn_store := my_store c\<rparr>))"
    using s es by (simp add: core_turn_def)
  show ?thesis
    by (rule sync_conserves_same [OF assms, where es = es]) (auto simp: t core_effects_channels es split: outcome.splits)
qed

lemma synchronizer_turn_conserves:
  assumes R: "rocksdb_ok (rocksdb E)" and T: "sync_tidy E (cn_synchronizer n)"
    and given: "\<And>b. To_synchronizer b \<in> set (out (cn_core n)) \<Longrightarrow>
      b \<in> set (rx_inner n) \<or> ev = Sync_block b \<or> block_digest (dalek E) b \<in> sync_pending (cn_synchronizer n)
        \<or> gives_back E (block_digest (dalek E) b) (out (cn_synchronizer n))"
  shows "sync_conserves E (synchronizer_turn E P now ev n)"
proof -
  let ?s = "(cn_synchronizer n)\<lparr>my_store := cn_store n\<rparr>"
  obtain r t where s: "sync_handle E (sync_retry_delay P) (now, ev) ?s = (r, t)"
    by (cases "sync_handle E (sync_retry_delay P) (now, ev) ?s")
  have T': "sync_tidy E ?s" using T by (simp add: sync_tidy_def)
  obtain es where g: "sync_tidy E t" "\<forall>b. ev = Sync_block b \<longrightarrow> block_digest (dalek E) b \<in> sync_pending t"
    and es: "out t = out (cn_synchronizer n) @ es"
      "\<forall>d\<in>sync_pending (cn_synchronizer n). d \<in> sync_pending t \<or> gives_back E d es"
    using sync_handle_gives [OF R T' s, unfolded sync_gives_def] by auto
  have t: "synchronizer_turn E P now ev n = fold task_effect es (stop_task Synchronizer_task r (n\<lparr>cn_synchronizer := t\<rparr>))"
    using s es by (simp add: synchronizer_turn_def)
  show ?thesis
    unfolding sync_conserves_def t
    using g es given by (auto simp: gives_back_append)
qed

lemma turn_conserves:
  assumes R: "rocksdb_ok (rocksdb E)" and C: "sync_conserves E n"
  shows "sync_conserves E (consensus_turn E P ev n)"
proof -
  note C' = C [unfolded sync_conserves_def]
  note idle = sync_conserves_same [OF C, where es = "[]"]
  show ?thesis
  proof (cases ev)
    case (Cn_write k v)
    then show ?thesis
      using C by (auto simp: consensus_turn_def shared_write_def sync_conserves_def step_def handle_def
          write_store_def modify_def)
  next
    case (Cn_sync_block now)
    then show ?thesis using C C'
      by (auto simp: consensus_turn_def turn_task_def split: list.split intro!: synchronizer_turn_conserves [OF R])
  next
    case (Cn_sync_ready now i)
    then show ?thesis using C C'
      by (auto simp: consensus_turn_def turn_task_def intro!: synchronizer_turn_conserves [OF R])
  next
    case (Cn_sync_timer now)
    then show ?thesis using C C'
      by (auto simp: consensus_turn_def turn_task_def intro!: synchronizer_turn_conserves [OF R])
  qed (auto simp: consensus_turn_def waiter_turn_def proposer_turn_def helper_turn_def
      split: list.split prod.split outcome.split intro!: idle core_turn_conserves)
qed

lemma reach_conserves:
  assumes "consensus_reach E P now st ok n" and R: "rocksdb_ok (rocksdb E)"
  shows "sync_conserves E n"
  using assms(1)
proof induction
  case (reach_spawn n)
  then show ?case
    by (auto simp: consensus_spawn_def sync_conserves_def sync_tidy_def sync_new_def core_effects_channels
        split: option.splits prod.splits)
next
  case (reach_turn n ev)
  then show ?case by (intro turn_conserves [OF R])
qed

section \<open>Properties\<close>

text \<open>
  C3. The node refines its core. Let the tasks of a consensus node take turns in any order, over any frames, digests and
  writes of the mempool, where verified signatures are genuine and the mempool writes no blocks. Then the
  state of the core is that of a run of the core alone, on inputs that its safety argument allows: in particular every block on the
  loopback channel is one that the core itself has handed out, and signed. While the core runs, its store is the one
  all tasks share, and what has gone to the application is what the log of the core says, in order.
\<close>

theorem consensus_node_refines_core:
  assumes "trusted E sg" and "public_key_wf (my_name E)" and "no_blocks E st"
    and "consensus_reach E P now st (arrives_ok E sg) n" and "node_signed E sg n"
  shows "\<exists>evs r. core_run E (timeout_delay P) now st evs = (r, cn_core n)
    \<and> run_ok E sg (timeout_delay P) now st evs
    \<and> (\<forall>b\<in>set (rx_loopback n). handed_out (cn_core n) b \<and> (\<exists>a. sg a (block_preimage b)))
    \<and> (Core_task \<notin> cn_stopped n \<longrightarrow> r = Ok () \<and> my_store (cn_core n) = cn_store n)
    \<and> tx_commit n = commits (out (cn_core n))"
  using reach_wired [OF assms(4) _ assms(1-3,5)]
  by (simp add: wired_def runs_core_def channels_ok_def)

text \<open>
  An honest authority that runs a whole consensus node: it signs the votes and timeouts of its core, and blocks.
\<close>

definition honest_consensus_node ::
    "'k dalek \<Rightarrow> committee \<Rightarrow> signed \<Rightarrow> public_key \<Rightarrow> 'db consensus_node \<Rightarrow> bool" where
  "honest_consensus_node D c sg a n \<longleftrightarrow> (\<exists>(E :: ('k, 'db) env) P now st.
     dalek E = D \<and> my_committee E = c \<and> my_name E = a \<and> public_key_wf a \<and> trusted E sg \<and> no_blocks E st
     \<and> consensus_reach E P now st (arrives_ok E sg) n \<and> node_signed E sg n
     \<and> (\<forall>m. sg a m \<longrightarrow> made_by (out (cn_core n)) m))"

lemma honest_consensus_core:
  assumes "honest_consensus_node (D :: 'k dalek) c sg a (n :: 'db consensus_node)"
  shows "\<exists>r :: ('k, 'db) node_run. honest_node D c sg a r \<and> final_core r = cn_core n"
    and "tx_commit n = commits (out (cn_core n))"
proof -
  from assms obtain E :: "('k, 'db) env" and P now st where E: "dalek E = D" "my_committee E = c" "my_name E = a"
    "trusted E sg" "node_signed E sg n" "\<forall>m. sg a m \<longrightarrow> made_by (out (cn_core n)) m"
    and W: "wired E sg P now st n"
    unfolding honest_consensus_node_def using reach_wired by metis
  obtain evs r where run: "core_run E (timeout_delay P) now st evs = (r, cn_core n)"
    "run_ok E sg (timeout_delay P) now st evs"
    using W by (auto simp: wired_def runs_core_def)
  let ?r = "\<lparr>node_env = E, node_timeout = timeout_delay P, node_boot = now, node_store = st, node_events = evs\<rparr>"
  have "final_core ?r = cn_core n" by (simp add: final_core_def run)
  moreover from this have "honest_node D c sg a ?r"
    using E run by (simp add: honest_node_def node_signed_def)
  ultimately show "\<exists>r :: ('k, 'db) node_run. honest_node D c sg a r \<and> final_core r = cn_core n" by blast
  show "tx_commit n = commits (out (cn_core n))" using W by (simp add: wired_def)
qed

text \<open>
  C2. Agreement of whole nodes. As agreement of cores, but for nodes whose tasks interleave in any way:
  with less than a third of the stake faulty, any two blocks that honest nodes have sent to their applications lie on one chain of
  parents, and are the same block when they have the same round.
\<close>

theorem consensus_nodes_agree:
  assumes "committee_ok c" and "finite F" and "3 * weight_of c F < total_stake c"
    and nodes: "\<forall>a\<in>names c - F. honest_consensus_node D c sg a (node a)"
    and a: "a \<in> names c - F" "a' \<in> names c - F"
    and b: "b \<in> set (tx_commit (node a))" "b' \<in> set (tx_commit (node a'))"
  shows "(below D c sg (block_id D b) (block_id D b') \<or> below D c sg (block_id D b') (block_id D b))
    \<and> (block_round b = block_round b' \<longrightarrow> block_id D b = block_id D b')"
proof -
  obtain run where run: "\<forall>a\<in>names c - F. honest_node D c sg a (run a) \<and> final_core (run a) = cn_core (node a)"
    using bchoice [of "names c - F" "\<lambda>a r. honest_node D c sg a r \<and> final_core r = cn_core (node a)"]
      honest_consensus_core(1) nodes by blast
  have "correct_system D c sg F run" using assms(1-3) run by (simp add: correct_system_def)
  have t: "To_commit x \<in> set (out (final_core (run k)))" if "k \<in> names c - F" "x \<in> set (tx_commit (node k))" for k x
  proof -
    have "tx_commit (node k) = commits (out (final_core (run k)))"
      using run nodes honest_consensus_core(2) that(1) by metis
    then show ?thesis using that(2) by (simp add: set_commits)
  qed
  show ?thesis by (rule commits_on_one_chain [OF \<open>correct_system D c sg F run\<close> a t [OF a(1) b(1)] t [OF a(2) b(2)]])
qed

text \<open>
  C4. No block is lost on the way to the synchronizer. In every state that a node can reach, whatever arrives: while the
  synchronizer runs, each block whose parent the core has found missing is still in the channel to it, waits in it (or
  another block with its digest does), or has been given back, with that digest, to the loopback channel; and the blocks that wait are
  distinct, with exactly their digests pending.
\<close>

theorem node_loses_no_block:
  assumes "rocksdb_ok (rocksdb E)" and "consensus_reach E P now st ok n"
    and "Synchronizer_task \<notin> cn_stopped n" and "To_synchronizer b \<in> set (out (cn_core n))"
  shows "(b \<in> set (rx_inner n)
      \<or> (\<exists>b'\<in>set (sync_waiting (cn_synchronizer n)). block_digest (dalek E) b' = block_digest (dalek E) b)
      \<or> gives_back E (block_digest (dalek E) b) (out (cn_synchronizer n)))
    \<and> sync_pending (cn_synchronizer n) = block_digest (dalek E) ` set (sync_waiting (cn_synchronizer n))
    \<and> distinct (map (block_digest (dalek E)) (sync_waiting (cn_synchronizer n)))"
  using reach_conserves [OF assms(2,1)] assms(3,4) unfolding sync_conserves_def sync_tidy_def by (metis imageE)

end
