(* ===== verification/Node_Scenarios.thy ===== *)
theory Node_Scenarios
  imports Scenario Consensus_Wiring
begin

text \<open>
  The system of \<open>Scenario\<close> once more, each authority running a whole consensus node: the blocks arrive as frames, go
  through the receiver's handler and the channel to the core. And a node that gets the second block first.
\<close>

section \<open>Frames that carry blocks\<close>

definition deliver :: "('k, 'db) env \<Rightarrow> parameters \<Rightarrow> instant \<times> bytes \<Rightarrow> 'db consensus_node \<Rightarrow> 'db consensus_node" where
  "deliver E P x n = consensus_turn E P (Cn_message (fst x)) (consensus_turn E P (Cn_frame (snd x)) n)"

lemma deliver_block:
  assumes "de_msg E f = Ok (Propose b)" and "rx_consensus n = []" and "Core_task \<notin> cn_stopped n"
    and "step E now (Message (Propose b)) (cn_core n) = (Ok (), c)"
  shows "cn_core (deliver E P (now, f) n) = c" and "rx_consensus (deliver E P (now, f) n) = []"
    and "cn_stopped (deliver E P (now, f) n) = cn_stopped n" and "cn_store (deliver E P (now, f) n) = my_store c"
    and "cn_proposer (deliver E P (now, f) n) = cn_proposer n"
    and "cn_synchronizer (deliver E P (now, f) n) = cn_synchronizer n"
proof -
  have d: "dispatch E (cn_closed n) f [] = (Ok (), [Ack, To_core (Propose b)])"
    using assms(1) cn_closed_live [OF assms(3)] by (simp add: dispatch_def deserialize_def proc_simps)
  show "cn_core (deliver E P (now, f) n) = c" "rx_consensus (deliver E P (now, f) n) = []"
    "cn_stopped (deliver E P (now, f) n) = cn_stopped n" "cn_store (deliver E P (now, f) n) = my_store c"
    "cn_proposer (deliver E P (now, f) n) = cn_proposer n"
    "cn_synchronizer (deliver E P (now, f) n) = cn_synchronizer n"
    using assms(2-4) by (simp_all add: deliver_def consensus_turn_def turn_task_def image_iff d core_turn_def)
qed

lemma deliver_blocks:
  assumes "\<forall>x\<in>set xs. de_msg E (snd x) = Ok (Propose (blk x))"
  shows "rx_consensus n = [] \<Longrightarrow> Core_task \<notin> cn_stopped n \<Longrightarrow>
    core_loop E (map (\<lambda>x. (fst x, Message (Propose (blk x)))) xs) (cn_core n) = (Ok (), c) \<Longrightarrow>
    cn_core (fold (deliver E P) xs n) = c \<and> cn_stopped (fold (deliver E P) xs n) = cn_stopped n
      \<and> cn_proposer (fold (deliver E P) xs n) = cn_proposer n"
  using assms
proof (induction xs arbitrary: n)
  case (Cons x xs)
  obtain r s where s: "step E (fst x) (Message (Propose (blk x))) (cn_core n) = (r, s)"
    by (cases "step E (fst x) (Message (Propose (blk x))) (cn_core n)")
  have "r = Ok ()" using Cons.prems(3) s by (cases r) (simp_all add: run_sq)
  with s have s: "step E (fst x) (Message (Propose (blk x))) (cn_core n) = (Ok (), s)" by simp
  have "de_msg E (snd x) = Ok (Propose (blk x))" using Cons.prems(4) by simp
  note d = deliver_block [OF this Cons.prems(1,2) s, of P]
  have "core_loop E (map (\<lambda>x. (fst x, Message (Propose (blk x)))) xs) s = (Ok (), c)"
    using Cons.prems(3) s by (simp add: run_sq)
  then show ?case
    using Cons.IH [of "deliver E P x n"] Cons.prems d by simp
qed (simp add: ret_def)

lemma deliver_reach:
  assumes "consensus_reach E P now st ok n" and "\<forall>x\<in>set xs. ok (Cn_frame (snd x)) \<and> ok (Cn_message (fst x))"
  shows "consensus_reach E P now st ok (fold (deliver E P) xs n)"
  using assms by (induction xs arbitrary: n) (auto simp: deliver_def intro: reach_turn)

section \<open>The nodes\<close>

definition scenario_start :: "u8 \<Rightarrow> (bytes \<rightharpoonup> bytes) consensus_node" where
  "scenario_start k = (case consensus_spawn (scenario_env k) parameters_default 0 (store_new Map.empty) of Ok n \<Rightarrow> n)"

definition block_frames :: "(instant \<times> bytes) list" where
  "block_frames = map (\<lambda>i. (unat i, [i])) [1, 2, 3]"

definition scenario_consensus :: "u8 \<Rightarrow> (bytes \<rightharpoonup> bytes) consensus_node" where
  "scenario_consensus k = fold (deliver (scenario_env k) parameters_default) block_frames (scenario_start k)"

lemma scenario_address: "k \<in> {1, 2, 3} \<Longrightarrow> address test_committee (test_key k) = Some ([127, 0, 0, 1], ucast k)"
  by (auto simp: address_def test_committee_authorities test_key_def)

lemma scenario_keys: "test_key i = test_key j \<longleftrightarrow> i = j"
  by (simp add: test_key_def)

lemma scenario_boot:
  "boot (scenario_env k) 0 (core_new (scenario_env k) 5000 0 (store_new Map.empty))
   = (Ok (), snd (boot (scenario_env k) 0 (core_new (scenario_env k) 5000 0 (store_new Map.empty))))"
  by (simp add: boot_def core_new_def propose_if_leader_def leader_def generate_proposal_def run_defs scenario_leaders)

lemma scenario_spawn:
  assumes "k \<in> {1, 2, 3}"
  shows "consensus_spawn (scenario_env k) parameters_default 0 (store_new Map.empty) = Ok (scenario_start k)"
    and "rx_consensus (scenario_start k) = []" and "cn_stopped (scenario_start k) = {}"
    and "cn_proposer (scenario_start k) = proposer_new"
    and "boot (scenario_env k) 0 (core_new (scenario_env k) 5000 0 (store_new Map.empty)) = (Ok (), cn_core (scenario_start k))"
proof -
  note d = scenario_start_def consensus_spawn_def parameters_default_def
  obtain c where c: "boot (scenario_env k) 0 (core_new (scenario_env k) 5000 0 (store_new Map.empty)) = (Ok (), c)"
    using scenario_boot by blast
  show "consensus_spawn (scenario_env k) parameters_default 0 (store_new Map.empty) = Ok (scenario_start k)"
    "rx_consensus (scenario_start k) = []" "cn_stopped (scenario_start k) = {}"
    "cn_proposer (scenario_start k) = proposer_new"
    "boot (scenario_env k) 0 (core_new (scenario_env k) 5000 0 (store_new Map.empty)) = (Ok (), cn_core (scenario_start k))"
    using assms by (simp_all add: d c scenario_address stop_task_def)
qed

lemma scenario_returns:
  assumes "k \<in> {1, 2, 3}"
  shows "core_run (scenario_env k) 5000 0 (store_new Map.empty) scenario_events = (Ok (), final_core (scenario_node (test_key k)))"
  using scenario_run [OF assms] unfolding scenario_final by (simp split: prod.splits)

lemma scenario_consensus_core:
  assumes "k \<in> {1, 2, 3}"
  shows "cn_core (scenario_consensus k) = final_core (scenario_node (test_key k))"
    and "cn_proposer (scenario_consensus k) = proposer_new"
proof -
  note sp = scenario_spawn [OF assms]
  have ev: "scenario_events = map (\<lambda>x. (fst x, Message (Propose (scenario_block (hd (snd x)))))) block_frames"
    by (simp add: scenario_events_def block_frames_def)
  have "core_loop (scenario_env k) scenario_events (cn_core (scenario_start k)) = (Ok (), final_core (scenario_node (test_key k)))"
    using scenario_returns [OF assms] sp(5) by (simp add: core_run_def run_sq)
  moreover have "\<forall>x\<in>set block_frames. de_msg (scenario_env k) (snd x) = Ok (Propose (scenario_block (hd (snd x))))"
    by (simp add: block_frames_def scenario_env_def)
  ultimately show "cn_core (scenario_consensus k) = final_core (scenario_node (test_key k))"
    "cn_proposer (scenario_consensus k) = proposer_new"
    using deliver_blocks [of block_frames "scenario_env k" "\<lambda>x. scenario_block (hd (snd x))" "scenario_start k"] sp
    by (simp_all add: scenario_consensus_def ev)
qed

lemma scenario_no_blocks: "no_blocks (scenario_env k) (store_new Map.empty)"
  by (simp add: no_blocks_def scenario_store)

lemma scenario_de_msg: "i \<in> {1, 2, 3} \<Longrightarrow> de_msg (scenario_env k) [i] = Ok (Propose (scenario_block i))"
  by (auto simp: scenario_env_def)

lemma scenario_arrives:
  assumes "i \<in> {1, 2, 3}"
  shows "arrives_ok (scenario_env k) scenario_signed (Cn_frame [i])"
  using scenario_genuine [OF assms] by (simp add: scenario_de_msg [OF assms] del: genuine_message.simps)

lemma scenario_reaches:
  assumes "k \<in> {1, 2, 3}"
  shows "consensus_reach (scenario_env k) parameters_default 0 (store_new Map.empty)
    (arrives_ok (scenario_env k) scenario_signed) (scenario_consensus k)"
  unfolding scenario_consensus_def
  by (rule deliver_reach, rule reach_spawn, rule scenario_spawn(1) [OF assms])
    (use scenario_arrives in \<open>auto simp: block_frames_def\<close>)

lemma scenario_node_signed:
  assumes "k \<in> {1, 2, 3}"
  shows "node_signed (scenario_env k) scenario_signed (scenario_consensus k)"
  using scenario_honest [OF assms] scenario_consensus_core [OF assms]
  by (simp add: node_signed_def honest_node_def proposer_new_def) (simp add: scenario_node_def test_key_def)

lemma scenario_honest_consensus:
  assumes "k \<in> {1, 2, 3}"
  shows "honest_consensus_node scenario_dalek test_committee scenario_signed (test_key k) (scenario_consensus k)"
  unfolding honest_consensus_node_def
  using scenario_honest [OF assms] scenario_consensus_core(1) [OF assms] scenario_trusted scenario_no_blocks
    scenario_reaches [OF assms] scenario_node_signed [OF assms]
  by (intro exI [of _ "scenario_env k"] exI [of _ parameters_default] exI [of _ 0] exI [of _ "store_new Map.empty"])
    (simp add: honest_node_def public_key_wf_def test_key_def)

lemma scenario_committed:
  assumes "k \<in> {1, 2, 3}"
  shows "b \<in> set (tx_commit (scenario_consensus k)) \<longleftrightarrow> b = scenario_block 1"
  using honest_consensus_core(2) [OF scenario_honest_consensus [OF assms]] scenario_consensus_core(1) [OF assms]
  by (simp add: set_commits scenario_log_parts(3) [OF assms])

section \<open>A block before its parent\<close>

definition orphan_node :: "(bytes \<rightharpoonup> bytes) consensus_node" where
  "orphan_node = consensus_turn (scenario_env 1) parameters_default (Cn_sync_block 5)
     (deliver (scenario_env 1) parameters_default (1, [2]) (scenario_start 1))"

lemma orphan_step:
  "case boot (scenario_env 1) 0 (core_new (scenario_env 1) 5000 0 (store_new Map.empty)) of (_, s) \<Rightarrow>
     out s = [] \<and> (case step (scenario_env 1) 1 (Message (Propose (scenario_block 2))) s of (r, t) \<Rightarrow>
       r = Ok () \<and> out t = [To_synchronizer (scenario_block 2)])"
  by (simp add: scenario_eval)

lemma orphan_state:
  "rx_inner orphan_node = []" "Synchronizer_task \<notin> cn_stopped orphan_node"
  "To_synchronizer (scenario_block 2) \<in> set (out (cn_core orphan_node))"
  "\<not> gives_back (scenario_env 1) d (out (cn_synchronizer orphan_node))"
proof -
  let ?n = "scenario_start 1" and ?E = "scenario_env 1"
  have sp: "rx_consensus ?n = []" "cn_stopped ?n = {}"
    "boot ?E 0 (core_new ?E 5000 0 (store_new Map.empty)) = (Ok (), cn_core ?n)"
    using scenario_spawn(2,3,5) [of 1] by simp_all
  obtain t where t: "out (cn_core ?n) = []" "step ?E 1 (Message (Propose (scenario_block 2))) (cn_core ?n) = (Ok (), t)"
    "out t = [To_synchronizer (scenario_block 2)]"
    using orphan_step unfolding sp(3) by (auto split: prod.splits)
  have d: "dispatch ?E (cn_closed ?n) [2] [] = (Ok (), [Ack, To_core (Propose (scenario_block 2))])"
    using cn_closed_live [of ?n] by (simp add: dispatch_def deserialize_def proc_simps scenario_de_msg sp)
  have n: "cn_synchronizer ?n = sync_new (store_new Map.empty)" "rx_inner ?n = []"
    using arg_cong [OF scenario_spawn(1) [of 1], of "\<lambda>r. case r of Ok n \<Rightarrow> cn_synchronizer n"]
      arg_cong [OF scenario_spawn(1) [of 1], of "\<lambda>r. case r of Ok n \<Rightarrow> rx_inner n"] sp(3) t(1)
    by (simp_all add: consensus_spawn_def parameters_default_def scenario_address stop_task_def)
  show "rx_inner orphan_node = []" "Synchronizer_task \<notin> cn_stopped orphan_node"
    "To_synchronizer (scenario_block 2) \<in> set (out (cn_core orphan_node))"
    "\<not> gives_back (scenario_env 1) d (out (cn_synchronizer orphan_node))"
    using sp t n by (simp_all add: orphan_node_def deliver_def consensus_turn_def turn_task_def image_iff d core_turn_def gained_def
        synchronizer_turn_def sync_handle_def sync_request_def sync_new_def proc_simps expect_def net_send_def emit_def
        scenario_chain scenario_addresses gives_back_def stop_task_def)
qed

section \<open>Witnesses\<close>

theorem consensus_node_refines_core_witness:
  "\<exists>evs r. core_run (scenario_env 2) 5000 0 (store_new Map.empty) evs = (r, cn_core (scenario_consensus 2))
    \<and> set (tx_commit (scenario_consensus 2)) = {scenario_block 1}"
  using consensus_node_refines_core [OF scenario_trusted _ scenario_no_blocks scenario_reaches scenario_node_signed, of 2]
    scenario_committed [of 2]
  by (auto simp: public_key_wf_def test_key_def parameters_default_def)

theorem consensus_nodes_agree_witness:
  "\<exists>b b'. b \<in> set (tx_commit (scenario_consensus 1)) \<and> b' \<in> set (tx_commit (scenario_consensus 3))
    \<and> block_round b = 1 \<and> block_id scenario_dalek b = block_id scenario_dalek b'"
proof -
  let ?node = "\<lambda>a. scenario_consensus (hd (public_key_bytes a))"
  have names: "names test_committee - {test_key 4} = test_key ` {1, 2, 3}"
    by (auto simp: names_def test_committee_authorities)
  have "honest_consensus_node scenario_dalek test_committee scenario_signed (test_key k) (?node (test_key k))"
    if "k \<in> {1, 2, 3}" for k
    using scenario_honest_consensus [OF that] by (simp add: test_key_def)
  then have h: "\<forall>a\<in>names test_committee - {test_key 4}.
      honest_consensus_node scenario_dalek test_committee scenario_signed a (?node a)"
    unfolding names by blast
  have w: "3 * weight_of test_committee {test_key 4} < total_stake test_committee"
    by (simp add: weight_of_def test_stake test_committee_total)
  have n: "test_key 1 \<in> names test_committee - {test_key 4}" "test_key 3 \<in> names test_committee - {test_key 4}"
    unfolding names by auto
  have b: "scenario_block 1 \<in> set (tx_commit (?node (test_key 1)))" "scenario_block 1 \<in> set (tx_commit (?node (test_key 3)))"
    using scenario_committed by (simp_all add: test_key_def)
  from consensus_nodes_agree [OF test_committee_ok _ w h n b] b show ?thesis
    by (auto simp: scenario_chain test_key_def intro!: exI [of _ "scenario_block 1"])
qed

theorem node_loses_no_block_witness:
  "\<exists>b\<in>set (sync_waiting (cn_synchronizer orphan_node)). block_digest scenario_dalek b = scenario_digest 2"
proof -
  have "consensus_reach (scenario_env 1) parameters_default 0 (store_new Map.empty) (\<lambda>_. True) orphan_node"
    unfolding orphan_node_def deliver_def by (intro reach_turn reach_spawn scenario_spawn(1)) simp_all
  from node_loses_no_block [OF _ this orphan_state(2,3)] show ?thesis
    by (simp add: map_rocksdb_ok orphan_state(1,4) scenario_digests)
qed

end
