(* ===== verification/Keys.thy ===== *)
theory Keys
  imports Crypto
begin

text \<open>
  The rest of \<open>crypto/src/lib.rs\<close>: the text forms of digests and keys (\<open>Debug\<close>, \<open>Display\<close>, and the strings that
  \<open>serde\<close> reads and writes), and the generation of key pairs. \<open>base64\<close> and the generator of \<open>ed25519_dalek\<close> are
  parameters.
\<close>

section \<open>Text\<close>

text \<open>\<open>.get(0..16).unwrap()\<close>: the first 16 characters, a panic if there are fewer.\<close>

definition short_text :: "string \<Rightarrow> (unit, string) outcome" where
  "short_text s = (if length s < 16 then Panic ''called `Option::unwrap()` on a `None` value'' else Ok (take 16 s))"

definition digest_debug :: "base64 \<Rightarrow> digest \<Rightarrow> string" where
  "digest_debug B d = b64_encode B (digest_bytes d)"

definition digest_display :: "base64 \<Rightarrow> digest \<Rightarrow> (unit, string) outcome" where
  "digest_display B d = short_text (b64_encode B (digest_bytes d))"

definition public_key_debug :: "base64 \<Rightarrow> public_key \<Rightarrow> string" where
  "public_key_debug B k = public_key_encode_base64 B k"

definition public_key_display :: "base64 \<Rightarrow> public_key \<Rightarrow> (unit, string) outcome" where
  "public_key_display B k = short_text (public_key_encode_base64 B k)"

text \<open>The string in a file, or the failure to read one, and what \<open>deserialize\<close> makes of it.\<close>

definition public_key_serialize :: "base64 \<Rightarrow> public_key \<Rightarrow> string" where
  "public_key_serialize B k = public_key_encode_base64 B k"

definition public_key_deserialize :: "base64 \<Rightarrow> string option \<Rightarrow> (unit, public_key) outcome" where
  "public_key_deserialize B input = (case input of
       None \<Rightarrow> Err ()
     | Some s \<Rightarrow> (case public_key_decode_base64 B s of
           Ok k \<Rightarrow> Ok k | Err e \<Rightarrow> Err () | Panic p \<Rightarrow> Panic p | Diverge \<Rightarrow> Diverge))"

definition secret_key_serialize :: "base64 \<Rightarrow> secret_key \<Rightarrow> string" where
  "secret_key_serialize B k = secret_key_encode_base64 B k"

definition secret_key_deserialize :: "base64 \<Rightarrow> string option \<Rightarrow> (unit, secret_key) outcome" where
  "secret_key_deserialize B input = (case input of
       None \<Rightarrow> Err ()
     | Some s \<Rightarrow> (case secret_key_decode_base64 B s of
           Ok k \<Rightarrow> Ok k | Err e \<Rightarrow> Err () | Panic p \<Rightarrow> Panic p | Diverge \<Rightarrow> Diverge))"

definition secret_key_drop :: "secret_key \<Rightarrow> secret_key" where
  "secret_key_drop k = SecretKey (map (\<lambda>_. 0) (secret_key_bytes k))"

definition secret_key_wf :: "secret_key \<Rightarrow> bool" where
  "secret_key_wf k \<longleftrightarrow> length (secret_key_bytes k) = 64"

text \<open>What is encoded decodes to itself, and has at least four characters for three bytes.\<close>

definition base64_ok :: "base64 \<Rightarrow> bool" where
  "base64_ok B \<longleftrightarrow> (\<forall>bs. b64_decode B (b64_encode B bs) = Inr bs \<and> 4 * length bs \<le> 3 * length (b64_encode B bs))"

section \<open>Generating keys\<close>

record ('k, 'g) keygen =
  keypair_generate :: "'g \<Rightarrow> 'k \<times> 'g"
  keypair_public :: "'k \<Rightarrow> bytes"
  keypair_to_bytes :: "'k \<Rightarrow> bytes"

definition generate_keypair :: "('k, 'g) keygen \<Rightarrow> 'g \<Rightarrow> (public_key \<times> secret_key) \<times> 'g" where
  "generate_keypair G csprng =
     (case keypair_generate G csprng of
        (keypair, g) \<Rightarrow> ((PublicKey (keypair_public G keypair), SecretKey (keypair_to_bytes G keypair)), g))"

text \<open>
  What the documentation of \<open>ed25519_dalek\<close> promises of a generated key pair: its 64 bytes give it back, its public
  key can be parsed, and what it signs (64 bytes) verifies strictly under that key.
\<close>

definition keygen_ok :: "'k dalek \<Rightarrow> ('k, 'g) keygen \<Rightarrow> bool" where
  "keygen_ok D G \<longleftrightarrow> (\<forall>g. let k = fst (keypair_generate G g) in
     length (keypair_public G k) = 32 \<and> length (keypair_to_bytes G k) = 64
     \<and> keypair_from_bytes D (keypair_to_bytes G k) = Inr k
     \<and> (\<exists>p. pk_from_bytes D (keypair_public G k) = Inr p
          \<and> (\<forall>m. length (keypair_sign D k m) = 64 \<and> (\<exists>s. sig_from_bytes D (keypair_sign D k m) = Inr s
               \<and> verify_strict D p m s = Inr ()))))"

text \<open>The two halves of a key pair belong together: what the secret key signs verifies under the public one.\<close>

definition key_pair :: "'k dalek \<Rightarrow> public_key \<Rightarrow> secret_key \<Rightarrow> bool" where
  "key_pair D name secret \<longleftrightarrow> public_key_wf name \<and> secret_key_wf secret
     \<and> (\<forall>d. \<exists>s. request_signature D secret d = Some s \<and> signature_verify D s d name = Inr ())"

lemma generated_key_pair:
  assumes "keygen_ok D G" and "generate_keypair G g = ((name, secret), g')"
  shows "key_pair D name secret"
proof -
  obtain k where k: "keypair_generate G g = (k, g')" "name = PublicKey (keypair_public G k)"
    "secret = SecretKey (keypair_to_bytes G k)"
    using assms(2) by (auto simp: generate_keypair_def split: prod.splits)
  then have ok: "length (keypair_public G k) = 32" "length (keypair_to_bytes G k) = 64"
      "keypair_from_bytes D (keypair_to_bytes G k) = Inr k"
    and "\<exists>p. pk_from_bytes D (keypair_public G k) = Inr p \<and> (\<forall>m. length (keypair_sign D k m) = 64
      \<and> (\<exists>s. sig_from_bytes D (keypair_sign D k m) = Inr s \<and> verify_strict D p m s = Inr ()))"
    using assms(1) by (auto simp: keygen_ok_def Let_def dest: spec [of _ g])
  then obtain p where p: "pk_from_bytes D (keypair_public G k) = Inr p"
    "\<And>m. length (keypair_sign D k m) = 64 \<and> (\<exists>s. sig_from_bytes D (keypair_sign D k m) = Inr s \<and> verify_strict D p m s = Inr ())"
    by blast
  have "\<exists>s. request_signature D secret d = Some s \<and> signature_verify D s d name = Inr ()" for d
  proof -
    let ?sg = "keypair_sign D k (digest_bytes d)"
    have "take 32 ?sg @ take 32 (drop 32 ?sg) = ?sg"
      using p(2) append_take_drop_id [of 32 ?sg] by simp
    then have "signature_verify D \<lparr>part1 = take 32 ?sg, part2 = take 32 (drop 32 ?sg)\<rparr> d name = Inr ()"
      using p(1) p(2) [of "digest_bytes d"] k by (auto simp: signature_verify_def flatten_def)
    moreover have "request_signature D secret d = Some \<lparr>part1 = take 32 ?sg, part2 = take 32 (drop 32 ?sg)\<rparr>"
      using ok k by (simp add: request_signature_def signature_new_def Let_def)
    ultimately show ?thesis by blast
  qed
  then show ?thesis using ok k by (simp add: key_pair_def public_key_wf_def secret_key_wf_def)
qed

section \<open>Properties\<close>

text \<open>
  Keys survive their text form: what \<open>serialize\<close> writes for a public or secret key, \<open>deserialize\<close> reads back,
  without a panic; and logging a key or a digest does not panic.
\<close>

theorem keys_roundtrip:
  assumes "base64_ok B" and "public_key_wf k" and "secret_key_wf sk" and "digest_wf d"
  shows "public_key_deserialize B (Some (public_key_serialize B k)) = Ok k
    \<and> secret_key_deserialize B (Some (secret_key_serialize B sk)) = Ok sk
    \<and> (\<exists>s s'. public_key_display B k = Ok s \<and> digest_display B d = Ok s' \<and> length s = 16 \<and> length s' = 16)"
  using assms
proof -
  have long: "16 \<le> length (b64_encode B bs)" if "length bs = 32" for bs
    using assms(1) spec [of "\<lambda>bs. 4 * length bs \<le> 3 * length (b64_encode B bs)" bs] that
    by (auto simp: base64_ok_def)
  have short: "\<exists>s. short_text (b64_encode B bs) = Ok s \<and> length s = 16" if "length bs = 32" for bs
    using long [OF that] by (simp add: short_text_def)
  have "public_key_deserialize B (Some (public_key_serialize B k)) = Ok k"
    using assms(1,2) by (cases k) (simp add: public_key_deserialize_def public_key_serialize_def
        public_key_encode_base64_def public_key_decode_base64_def base64_ok_def public_key_wf_def)
  moreover have "secret_key_deserialize B (Some (secret_key_serialize B sk)) = Ok sk"
    using assms(1,3) by (cases sk) (simp add: secret_key_deserialize_def secret_key_serialize_def
        secret_key_encode_base64_def secret_key_decode_base64_def base64_ok_def secret_key_wf_def)
  ultimately show ?thesis
    using assms(2,4) short [of "public_key_bytes k"] short [of "digest_bytes d"]
    by (auto simp: public_key_display_def digest_display_def public_key_encode_base64_def public_key_wf_def digest_wf_def)
qed

text \<open>
  Text that is no key panics instead of failing, or is taken for another key: decoding succeeds in the text of
  any bytes, panics when they are fewer than a key has, and drops what is beyond that when they are more, so that
  every key has many texts.
\<close>

theorem decode_base64_lengths:
  assumes "base64_ok B"
  shows "public_key_decode_base64 B (b64_encode B bs) =
      (if length bs < 32 then Panic ''range end index out of range'' else Ok (PublicKey (take 32 bs)))
    \<and> secret_key_decode_base64 B (b64_encode B bs) =
      (if length bs < 64 then Panic ''range end index out of range'' else Ok (SecretKey (take 64 bs)))
    \<and> (public_key_wf k \<longrightarrow> public_key_decode_base64 B (b64_encode B (public_key_bytes k @ extra)) = Ok k)"
  using assms by (cases k) (simp add: public_key_decode_base64_def secret_key_decode_base64_def base64_ok_def public_key_wf_def)

text \<open>
  A generated key pair works: the signature that the signature service makes with the secret key, also after
  it went through its file, verifies under the public key.
\<close>

theorem generated_keys_sign:
  assumes "keygen_ok D G" and "base64_ok B" and "generate_keypair G g = ((name, secret), g')"
  shows "public_key_wf name \<and> secret_key_wf secret
    \<and> (\<exists>s. request_signature D secret d = Some s \<and> signature_verify D s d name = Inr ())
    \<and> secret_key_deserialize B (Some (secret_key_serialize B secret)) = Ok secret"
  using generated_key_pair [OF assms(1,3)] assms(2)
  by (cases secret) (auto simp: key_pair_def secret_key_wf_def secret_key_deserialize_def secret_key_serialize_def
      secret_key_encode_base64_def secret_key_decode_base64_def base64_ok_def)

end
