(* ===== verification/Round_Progress.thy ===== *)
theory Round_Progress
  imports Core_Progress Node_Scenarios Keys
begin

text \<open>
  One round of the protocol across nodes, when nothing goes wrong: a block reaches the cores of a quorum, each of them commits the
  grandparent and sends its vote to the leader of the next round, and the votes, read off the wire there, make the
  certificate on which that leader proposes. \<open>Core_Progress\<close> has the two halves of it for one core.
\<close>

section \<open>The situation\<close>

text \<open>A block of the leader of its round, with a QC of the round before, whose parent has one of the round before that.\<close>

definition timely :: "'k dalek \<Rightarrow> committee \<Rightarrow> block \<Rightarrow> block \<Rightarrow> block \<Rightarrow> bool" where
  "timely D C b b1 b0 \<longleftrightarrow> get_leader C (block_round b) = Some (block_author b) \<and> block_verify D C b = Inr ()
     \<and> qc_round (block_qc b) + 1 = block_round b \<and> qc_round (block_qc b) < - 1 \<and> block_round b < - 1 \<and> block_tc b = None
     \<and> block_round b0 + 1 = block_round b1"

text \<open>
  A core that is not past the round of the block and has not voted in it, does not have it yet, but its payload and its
  ancestors; \<open>ps\<close> are the ancestors of \<open>b0\<close> that it has not delivered.
\<close>

definition awaits_block ::
    "('k, 'db) env \<Rightarrow> block \<Rightarrow> block \<Rightarrow> block \<Rightarrow> block list \<Rightarrow> 'db core \<Rightarrow> bool" where
  "awaits_block E b b1 b0 ps s \<longleftrightarrow> cur_round s \<le> block_round b \<and> last_voted_round s < block_round b
     \<and> (\<forall>x\<in>set (block_payload b). in_store E (my_store s) x)
     \<and> stored_parent E (my_store s) b b1 \<and> stored_parent E (my_store s) b1 b0
     \<and> store_read (rocksdb E) (digest_bytes (block_digest (dalek E) b)) (my_store s) = Inr None
     \<and> last_committed_round s < block_round b0 \<and> ancestry (stored_parent E (my_store s)) b0 ps
     \<and> (\<forall>p\<in>set (butlast (b0 # ps)). last_committed_round s + 1 < block_round p)
     \<and> \<not> last_committed_round s + 1 < block_round (last (b0 # ps))"

text \<open>An authority with a key pair of its own, whose votes the leader \<open>L\<close> of the next round can read.\<close>

definition voter :: "('k, 'db) env \<Rightarrow> block \<Rightarrow> public_key \<Rightarrow> ('k, 'db) env \<Rightarrow> bool" where
  "voter L b a E \<longleftrightarrow> dalek E = dalek L \<and> my_committee E = my_committee L \<and> my_name E = a \<and> 0 < stake (my_committee L) a
     \<and> key_pair (dalek L) a (my_secret E) \<and> rocksdb_ok (rocksdb E) \<and> ser_block E b \<noteq> None
     \<and> (\<forall>v. vote_new (dalek L) b a (my_secret E) = Some v \<longrightarrow>
           (\<exists>m. ser_msg E (VoteMsg v) = Some m \<and> de_msg L m = Ok (VoteMsg v)))"

text \<open>The leader of the next round before any vote for the block has come to it.\<close>

definition collects :: "('k, 'db) env \<Rightarrow> block \<Rightarrow> 'db core \<Rightarrow> bool" where
  "collects L b s \<longleftrightarrow> agg_committee (my_aggregator s) = my_committee L \<and> cur_round s \<le> block_round b
     \<and> qc_round (high_qc s) < block_round b
     \<and> or_new Map.empty (votes_aggregators (my_aggregator s) (block_round b))
         (hash32 (dalek L) (vote_preimage (block_digest (dalek L) b) (block_round b))) = None"

section \<open>One voter\<close>

lemma vote_new_ok:
  assumes "key_pair D a sk" and "0 < stake C a"
  obtains v where "vote_new D b a sk = Some v" and "vote_verify D C v = Inr ()" and "vote_hash v = block_digest D b"
    and "vote_round v = block_round b" and "vote_author v = a"
proof -
  let ?v = "\<lparr>vote_hash = block_digest D b, vote_round = block_round b, vote_author = a, vote_signature = signature_default\<rparr>"
  obtain s where "request_signature D sk (vote_digest D ?v) = Some s" "signature_verify D s (vote_digest D ?v) a = Inr ()"
    using assms(1) unfolding key_pair_def by blast
  with assms(2) that [of "?v\<lparr>vote_signature := s\<rparr>"] show thesis
    by (simp add: vote_new_def vote_verify_def vote_digest_def map_err_def)
qed

definition casts_vote ::
    "('k, 'db) env \<Rightarrow> socket_addr \<Rightarrow> block \<Rightarrow> block list \<Rightarrow> ('k, 'db) env \<Rightarrow> instant \<Rightarrow> 'db core \<Rightarrow> vote \<Rightarrow> bytes \<Rightarrow> bool" where
  "casts_vote L addr b committed E now s v m \<longleftrightarrow>
     (\<exists>t es. step E now (Message (Propose b)) s = (Ok (), t) \<and> out t = out s @ es \<and> commits es = committed
        \<and> Signed_vote b v \<in> set es \<and> Net_send addr m \<in> set es)
     \<and> dispatch L {} m [] = (Ok (), [To_core (VoteMsg v)])"

lemma voter_votes:
  assumes "voter L b a E" and "awaits_block E b b1 b0 ps s" and "timely (dalek L) (my_committee L) b b1 b0"
    and "get_leader (my_committee L) (block_round b + 1) = Some l" and "address (my_committee L) l = Some addr" and "a \<noteq> l"
  shows "\<exists>v m. casts_vote L addr b (ps @ [b0]) E now s v m \<and> vote_hash v = block_digest (dalek L) b
    \<and> vote_round v = block_round b \<and> vote_author v = a \<and> vote_verify (dalek L) (my_committee L) v = Inr ()"
proof -
  have E: "dalek E = dalek L" "my_committee E = my_committee L" "my_name E = a" "rocksdb_ok (rocksdb E)"
    "key_pair (dalek L) a (my_secret E)" "0 < stake (my_committee L) a"
    using assms(1) by (simp_all add: voter_def)
  obtain v where v: "vote_new (dalek L) b a (my_secret E) = Some v" "vote_verify (dalek L) (my_committee L) v = Inr ()"
    "vote_hash v = block_digest (dalek L) b" "vote_round v = block_round b" "vote_author v = a"
    by (rule vote_new_ok [OF E(5,6)])
  obtain bs where bs: "ser_block E b = Some bs" using assms(1) by (auto simp: voter_def)
  obtain m where m: "ser_msg E (VoteMsg v) = Some m" "de_msg L m = Ok (VoteMsg v)" using assms(1) v(1) by (auto simp: voter_def)
  have "\<exists>t es. step E now (Message (Propose b)) s = (Ok (), t) \<and> out t = out s @ es \<and> commits es = ps @ [b0]
      \<and> Signed_vote b v \<in> set es \<and> Net_send addr m \<in> set es"
  proof -
    have "get_leader (my_committee E) (block_round b + 1) = Some l" "address (my_committee E) l = Some addr" "l \<noteq> my_name E"
      using assms(4-6) E by auto
    moreover have "delivers E (my_store s) (last_committed_round s) b1 b0 (ps @ [b0]) (block_round b0)"
      using assms(2,3) by (auto simp: delivers_def awaits_block_def timely_def)
    ultimately show ?thesis
      using proposal_run [of E b s b1 b0 bs v m l addr "ps @ [b0]" "block_round b0" now] assms(2,3) E v(1) bs m(1)
      by (auto simp: awaits_block_def timely_def)
  qed
  moreover have "dispatch L {} m [] = (Ok (), [To_core (VoteMsg v)])"
    using m(2) by (simp add: dispatch_def deserialize_def proc_simps)
  ultimately have "casts_vote L addr b (ps @ [b0]) E now s v m" by (simp add: casts_vote_def)
  then show ?thesis using v by blast
qed

section \<open>The leader\<close>

lemma dispatch_to_core:
  assumes "\<forall>a\<in>set as. dispatch L {} (m a) [] = (Ok (), [To_core (c a)])"
  shows "run_all (dispatch L {}) (map m as) ds = (Ok (), ds @ map (\<lambda>a. To_core (c a)) as)"
  using assms
proof (induction as arbitrary: ds)
  case (Cons a as)
  have "dispatch L {} (m a) ds = (Ok (), ds @ [To_core (c a)])"
    using Cons.prems
    by (auto simp: dispatch_def deserialize_def bnd_def sq_def modify_def fail_def ret_def panic_def
        split: outcome.splits consensus_message.splits)
  with Cons show ?case by (simp add: run_sq)
qed (simp add: ret_def)

section \<open>Property\<close>

text \<open>
  C9. A round makes progress when nothing goes wrong. Let a block of the leader of its round reach the cores of a quorum, which have not voted
  in that round and have the payload and the ancestors of the block, and let the leader of the next round be in none of them. Then every core of the
  quorum returns, delivers the grandparent after its ancestors that it had not delivered, and sends its vote to the next leader. The frames of the
  votes, read there in any order and with repetitions, take that leader to the next round, with a QC for the block, on which it asks for the next block.
\<close>

theorem round_makes_progress:
  assumes "committee_ok (my_committee L)" and "quorum (my_committee L) Q" and "timely (dalek L) (my_committee L) b b1 b0"
    and "\<forall>a\<in>Q. voter L b a (E a) \<and> awaits_block (E a) b b1 b0 (ps a) (s a)"
    and "get_leader (my_committee L) (block_round b + 1) = Some (my_name L)" and "address (my_committee L) (my_name L) = Some addr"
    and "my_name L \<notin> Q" and "collects L b sl" and "set as = Q"
  shows "\<exists>v m. (\<forall>a\<in>Q. casts_vote L addr b (ps a @ [b0]) (E a) (now a) (s a) (v a) (m a))
    \<and> run_all (dispatch L {}) (map m as) [] = (Ok (), map (\<lambda>a. To_core (VoteMsg (v a))) as)
    \<and> (\<exists>t. core_loop L (map (\<lambda>a. (now' a, Message (VoteMsg (v a)))) as) sl = (Ok (), t)
         \<and> cur_round t = block_round b + 1 \<and> qc_hash (high_qc t) = block_digest (dalek L) b \<and> qc_round (high_qc t) = block_round b
         \<and> To_proposer (Make (block_round b + 1) (high_qc t) None) \<in> set (out t))"
proof -
  let ?good = "\<lambda>a v m. casts_vote L addr b (ps a @ [b0]) (E a) (now a) (s a) v m \<and> vote_hash v = block_digest (dalek L) b
    \<and> vote_round v = block_round b \<and> vote_author v = a \<and> vote_verify (dalek L) (my_committee L) v = Inr ()"
  have "\<forall>a\<in>Q. \<exists>v m. ?good a v m"
    using voter_votes [OF _ _ assms(3,5,6)] assms(4,7) by metis
  then obtain v m where vm: "\<And>a. a \<in> Q \<Longrightarrow> ?good a (v a) (m a)" by metis
  have "run_all (dispatch L {}) (map m as) [] = (Ok (), map (\<lambda>a. To_core (VoteMsg (v a))) as)"
    using dispatch_to_core [of as L m "\<lambda>a. VoteMsg (v a)" "[]"] vm assms(9) by (simp add: casts_vote_def)
  moreover have "\<exists>t. core_loop L (map (\<lambda>(now, v). (now, Message (VoteMsg v))) (map (\<lambda>a. (now' a, v a)) as)) sl = (Ok (), t)
      \<and> cur_round t = block_round b + 1 \<and> qc_hash (high_qc t) = block_digest (dalek L) b \<and> qc_round (high_qc t) = block_round b
      \<and> (get_leader (my_committee L) (block_round b + 1) = Some (my_name L) \<longrightarrow>
           To_proposer (Make (block_round b + 1) (high_qc t) None) \<in> set (out t))"
  proof (rule votes_advance [OF assms(1)])
    have "vote_author ` v ` Q = Q" using vm by force
    then show "quorum (my_committee L) (vote_author ` snd ` set (map (\<lambda>a. (now' a, v a)) as))"
      using assms(2,9) by (simp add: image_image)
  qed (use assms(3,8,9) vm in \<open>auto simp: collects_def timely_def\<close>)
  ultimately show ?thesis
    using vm assms(5) by (intro exI [of _ v] exI [of _ m]) (auto simp: comp_def)
qed

section \<open>Four authorities\<close>

text \<open>Authorities 2, 3 and 4 have blocks 1 and 2 when block 3 comes; authority 1, which leads round 4, has nothing yet.\<close>

definition voting_env :: "public_key \<Rightarrow> (bytes, bytes \<rightharpoonup> bytes) env" where
  "voting_env a = (scenario_env (hd (public_key_bytes a)))\<lparr>my_secret := SecretKey (replicate 64 0),
     ser_msg := \<lambda>_. Some [hd (public_key_bytes a)]\<rparr>"

definition leading_env :: "(bytes, bytes \<rightharpoonup> bytes) env" where
  "leading_env = (scenario_env 1)\<lparr>de_msg := \<lambda>m. Ok (VoteMsg (scenario_vote 3 (test_key (hd m))))\<rparr>"

lemma leading_env_simps [simp]:
  "dalek leading_env = scenario_dalek" "my_committee leading_env = test_committee" "my_name leading_env = test_key 1"
  "de_msg leading_env m = Ok (VoteMsg (scenario_vote 3 (test_key (hd m))))"
  by (simp_all add: leading_env_def)

lemma hd_test_key [simp]: "hd (public_key_bytes (test_key k)) = k"
  by (simp add: test_key_def)

lemma voting_env_simps [simp]:
  "dalek (voting_env a) = scenario_dalek" "rocksdb (voting_env a) = map_rocksdb" "my_committee (voting_env a) = test_committee"
  "my_secret (voting_env a) = SecretKey (replicate 64 0)" "ser_msg (voting_env a) m = Some [hd (public_key_bytes a)]"
  "my_name (voting_env a) = test_key (hd (public_key_bytes a))" "de_block (voting_env a) = de_block (scenario_env 2)"
  "ser_block (voting_env a) = ser_block (scenario_env 2)"
  by (simp_all add: voting_env_def scenario_env_def)

lemma scenario_key_pair: "key_pair scenario_dalek (test_key k) (SecretKey (replicate 64 0))"
  by (simp add: key_pair_def request_signature_def scenario_sign public_key_wf_def secret_key_wf_def test_key_def)

lemma midway_awaits: "awaits_block (voting_env a) (scenario_block 3) (scenario_block 2) (scenario_block 1) [] midway_core"
  by (simp add: awaits_block_def stored_parent_def scenario_chain scenario_qcs midway_store midway_core_simps scenario_digests)

theorem round_makes_progress_witness:
  "\<exists>v t. core_loop leading_env (map (\<lambda>a. (7, Message (VoteMsg (v a)))) [test_key 4, test_key 2, test_key 4, test_key 3])
      (core_new leading_env 5000 0 (store_new Map.empty)) = (Ok (), t)
    \<and> cur_round t = 4 \<and> qc_hash (high_qc t) = scenario_digest 3 \<and> To_proposer (Make 4 (high_qc t) None) \<in> set (out t)"
proof -
  let ?as = "[test_key 4, test_key 2, test_key 4, test_key 3]" and ?Q = "{test_key 2, test_key 3, test_key 4}"
  have q: "quorum (my_committee leading_env) ?Q"
    by (simp add: quorum_def weight_of_def test_stake scenario_threshold)
  have t: "timely (dalek leading_env) (my_committee leading_env) (scenario_block 3) (scenario_block 2) (scenario_block 1)"
    using scenario_round [of 3] scenario_round [of 2]
    by (simp add: timely_def scenario_leaders scenario_blocks_verify scenario_chain scenario_qcs)
  have v: "voter leading_env (scenario_block 3) (test_key k) (voting_env (test_key k))" if "k \<in> {1, 2, 3, 4}" for k
    using that by (auto simp: voter_def test_stake scenario_key_pair map_rocksdb_ok scenario_votes)
  have c: "collects leading_env (scenario_block 3) (core_new leading_env 5000 0 (store_new Map.empty))"
    by (simp add: collects_def core_new_def aggregator_new_def scenario_chain or_new_def qc_genesis_def)
  have w: "\<forall>a\<in>?Q. voter leading_env (scenario_block 3) a (voting_env a)
      \<and> awaits_block (voting_env a) (scenario_block 3) (scenario_block 2) (scenario_block 1) [] midway_core"
    using v [of 2] v [of 3] v [of 4] midway_awaits by simp
  have l: "get_leader (my_committee leading_env) (block_round (scenario_block 3) + 1) = Some (my_name leading_env)"
    by (simp add: scenario_leaders scenario_chain)
  have a: "address (my_committee leading_env) (my_name leading_env) = Some ([127, 0, 0, 1], 1)"
    by (simp add: scenario_addresses)
  have n: "my_name leading_env \<notin> ?Q" by (simp add: scenario_keys)
  have ok: "committee_ok (my_committee leading_env)" by (simp add: test_committee_ok)
  have "set ?as = ?Q" by auto
  from round_makes_progress [OF ok q t w l a n c this, of "\<lambda>_. 6" "\<lambda>_. 7"] show ?thesis
    by (simp add: scenario_chain scenario_digests) blast
qed

end
