(* ===== verification/View_Change.thy ===== *)
theory View_Change
  imports Round_Progress
begin

text \<open>
  The other way out of a round, across nodes: the timers of a quorum fire, each core signs a timeout and broadcasts it, and any core that
  reads these timeouts off the wire, in any order, is past the round. With \<open>Round_Progress\<close> these are the two moves of the pacemaker.
\<close>

section \<open>A timeout\<close>

lemma timeout_new_ok:
  assumes "key_pair D a sk" and "0 < stake C a" and "qc_eq q qc_genesis \<or> qc_verify D C q = Inr ()"
  obtains x where "timeout_new D q r a sk = Some x" and "timeout_verify D C x = Inr ()" and "timeout_round x = r"
    and "timeout_author x = a" and "timeout_high_qc x = q"
proof -
  let ?x = "\<lparr>timeout_high_qc = q, timeout_round = r, timeout_author = a, timeout_signature = signature_default\<rparr>"
  obtain s where "request_signature D sk (timeout_digest D ?x) = Some s" "signature_verify D s (timeout_digest D ?x) a = Inr ()"
    using assms(1) unfolding key_pair_def by blast
  with assms(2,3) that [of "?x\<lparr>timeout_signature := s\<rparr>"] show thesis
    by (auto simp: timeout_new_def timeout_verify_def timeout_digest_def map_err_def)
qed

lemma handle_timeout_returns:
  assumes "authorities (my_committee E) \<noteq> []" and "\<And>m. ser_msg E m \<noteq> None"
  shows "\<exists>r t. handle_timeout E now x s = (r, t) \<and> (r = Ok () \<or> (\<exists>e. r = Err e))"
proof -
  define l where "l k = the (get_leader (my_committee E) k)" for k
  have l: "get_leader (my_committee E) k = Some (l k)" for k using get_leader_Some [OF assms(1), of k] by (auto simp: l_def)
  define msg where "msg y = the (ser_msg E y)" for y
  have msg: "ser_msg E y = Some (msg y)" for y using assms(2) [of y] by (auto simp: msg_def)
  show ?thesis
  proof (cases "timeout_round x < cur_round s \<or> timeout_verify (dalek E) (my_committee E) x \<noteq> Inr ()")
    case True
    then show ?thesis
      by (cases "timeout_verify (dalek E) (my_committee E) x") (auto simp: handle_timeout_def run_defs)
  next
    case False
    have "\<exists>u. process_qc now (timeout_high_qc x) s = (Ok (), u)"
      by (cases "qc_round (timeout_high_qc x) < cur_round s") (simp_all add: process_qc_def advance_round_def update_high_qc_def run_defs)
    then obtain u where u: "process_qc now (timeout_high_qc x) s = (Ok (), u)" by blast
    obtain res a where a: "add_timeout x (my_aggregator u) = (res, a)" by (cases "add_timeout x (my_aggregator u)")
    then have "res = Ok None \<or> (\<exists>y. res = Ok (Some y)) \<or> (\<exists>e. res = Err e)"
      by (auto simp: add_timeout_def tc_maker_append_def Let_def split: prod.splits if_splits)
    then show ?thesis
      using False u a
      by (auto simp: handle_timeout_def advance_round_def propose_if_leader_def leader_def l broadcast_message_def msg
          net_broadcast_def generate_proposal_def run_defs Let_def)
  qed
qed

text \<open>
  A core whose timer fires signs a timeout, sends it to all other authorities, and then handles it as if it had come from one of them.
\<close>

lemma timer_fires:
  assumes x: "timeout_new (dalek E) (high_qc s) (cur_round s) (my_name E) (my_secret E) = Some x"
    and m: "ser_msg E (TimeoutMsg x) = Some m"
  shows "\<exists>w es. step E now Timer_fired s = step E now (Message (TimeoutMsg x)) w \<and> cur_round w = cur_round s
    \<and> my_aggregator w = my_aggregator s \<and> out w = out s @ es \<and> Signed_timeout x \<in> set es
    \<and> (\<forall>addr\<in>snd ` set (broadcast_addresses (my_committee E) (my_name E)). Net_send addr m \<in> set es)"
proof -
  let ?es = "Signed_timeout x # map (\<lambda>a. Net_send a m) (map snd (broadcast_addresses (my_committee E) (my_name E)))"
  let ?w = "s\<lparr>last_voted_round := max (last_voted_round s) (cur_round s), my_timer := start_round now (reset now (my_timer s)),
    out := out s @ ?es\<rparr>"
  have "local_timeout_round E now s = handle_timeout E now x ?w"
    by (simp add: local_timeout_run x after_timeout_def broadcast_message_def m net_broadcast_def run_defs Let_def
        split: prod.splits outcome.splits)
  then have "step E now Timer_fired s = step E now (Message (TimeoutMsg x)) ?w" by (simp add: step_def handle_def)
  then show ?thesis by (intro exI [of _ ?w] exI [of _ ?es]) simp
qed

section \<open>The situation\<close>

text \<open>An authority that is not past round \<open>r\<close> and has counted no timeout for it.\<close>

definition not_past :: "'k dalek \<Rightarrow> committee \<Rightarrow> u64 \<Rightarrow> public_key \<Rightarrow> ('k, 'db) env \<Rightarrow> 'db core \<Rightarrow> bool" where
  "not_past D C r a E s \<longleftrightarrow> dalek E = D \<and> my_committee E = C \<and> my_name E = a \<and> (\<forall>m. ser_msg E m \<noteq> None)
     \<and> agg_committee (my_aggregator s) = C \<and> cur_round s \<le> r \<and> timeouts_aggregators (my_aggregator s) r = None"

text \<open>One of these in round \<open>r\<close>, with a key pair of its own and a high QC that verifies.\<close>

definition stuck_in :: "'k dalek \<Rightarrow> committee \<Rightarrow> u64 \<Rightarrow> public_key \<Rightarrow> ('k, 'db) env \<Rightarrow> 'db core \<Rightarrow> bool" where
  "stuck_in D C r a E s \<longleftrightarrow> not_past D C r a E s \<and> cur_round s = r \<and> 0 < stake C a \<and> key_pair D a (my_secret E)
     \<and> qc_round (high_qc s) < - 1 \<and> (qc_eq (high_qc s) qc_genesis \<or> qc_verify D C (high_qc s) = Inr ())"

text \<open>What the one sends as its timeout the other reads.\<close>

definition understands :: "('k, 'db) env \<Rightarrow> u64 \<Rightarrow> ('k, 'db) env \<Rightarrow> 'db core \<Rightarrow> bool" where
  "understands E' r E s \<longleftrightarrow> (\<forall>x m. timeout_new (dalek E) (high_qc s) r (my_name E) (my_secret E) = Some x \<longrightarrow>
     ser_msg E (TimeoutMsg x) = Some m \<longrightarrow> de_msg E' m = Ok (TimeoutMsg x))"

text \<open>The timer of \<open>a\<close> fires: it sends \<open>x\<close>, as the frame \<open>m\<close>, to every other authority, which hands it to its core.\<close>

definition times_out ::
    "committee \<Rightarrow> (public_key \<Rightarrow> ('k, 'db) env) \<Rightarrow> public_key \<Rightarrow> instant \<Rightarrow> 'db core \<Rightarrow> timeout \<Rightarrow> bytes \<Rightarrow> bool" where
  "times_out C E a now s x m \<longleftrightarrow> (\<exists>t es. step (E a) now Timer_fired s = (Ok (), t) \<and> out t = out s @ es \<and> Signed_timeout x \<in> set es
     \<and> (\<forall>b\<in>names C - {a}. \<exists>addr. address C b = Some addr \<and> Net_send addr m \<in> set es
          \<and> dispatch (E b) {} m [] = (Ok (), [To_core (TimeoutMsg x)])))"

lemma stuck_times_out:
  assumes S: "stuck_in D C r a (E a) s" and U: "\<forall>b\<in>names C. understands (E b) r (E a) s"
  obtains x m w where "times_out C E a now s x m" and "timeout_round x = r" and "timeout_author x = a"
    and "qc_round (timeout_high_qc x) < - 1" and "timeout_verify D C x = Inr ()"
    and "step (E a) now Timer_fired s = step (E a) now (Message (TimeoutMsg x)) w" and "collects_timeouts (E a) r [] w"
proof -
  have E: "dalek (E a) = D" "my_committee (E a) = C" "my_name (E a) = a" "cur_round s = r"
    and ser: "\<And>m. ser_msg (E a) m \<noteq> None"
    and key: "key_pair D a (my_secret (E a))" "0 < stake C a" "qc_eq (high_qc s) qc_genesis \<or> qc_verify D C (high_qc s) = Inr ()"
    using S by (simp_all add: stuck_in_def not_past_def)
  obtain x where x: "timeout_new D (high_qc s) r a (my_secret (E a)) = Some x"
    "timeout_verify D C x = Inr ()" "timeout_round x = r" "timeout_author x = a" "timeout_high_qc x = high_qc s"
    by (rule timeout_new_ok [OF key])
  obtain m where m: "ser_msg (E a) (TimeoutMsg x) = Some m" using ser [of "TimeoutMsg x"] by blast
  obtain w es where w: "step (E a) now Timer_fired s = step (E a) now (Message (TimeoutMsg x)) w" "cur_round w = r"
    "my_aggregator w = my_aggregator s" "out w = out s @ es" "Signed_timeout x \<in> set es"
    "\<forall>addr\<in>snd ` set (broadcast_addresses C a). Net_send addr m \<in> set es"
    using timer_fires [of "E a" s x m now] x(1) m E by auto
  have a: "authorities C \<noteq> []" using key(2) by (auto simp: stake_def)
  obtain q t where t: "handle_timeout (E a) now x w = (q, t)" "q = Ok () \<or> (\<exists>e. q = Err e)"
    using handle_timeout_returns [of "E a" now x w] a ser E(2) by blast
  obtain es' where es': "out t = out w @ es'" using keepsD [OF keeps_handle_timeout t(1)] by (auto simp: log_grows_def)
  have "step (E a) now Timer_fired s = (Ok (), t)" using t w(1) by (auto simp: step_def handle_def)
  moreover have "\<exists>addr. address C b = Some addr \<and> Net_send addr m \<in> set (es @ es') \<and> dispatch (E b) {} m [] = (Ok (), [To_core (TimeoutMsg x)])"
    if b: "b \<in> names C - {a}" for b
  proof -
    obtain addr where addr: "address C b = Some addr" using names_address b by blast
    then have "addr \<in> snd ` set (broadcast_addresses C a)"
      using b by (force simp: address_def broadcast_addresses_def dest: map_of_SomeD)
    moreover have "de_msg (E b) m = Ok (TimeoutMsg x)" using U b x(1) m E by (auto simp: understands_def)
    then have "dispatch (E b) {} m [] = (Ok (), [To_core (TimeoutMsg x)])" by (simp add: dispatch_def deserialize_def proc_simps)
    ultimately show ?thesis using w(6) addr by auto
  qed
  ultimately have "times_out C E a now s x m"
    unfolding times_out_def using es' w(4,5) by (intro exI [of _ t] exI [of _ "es @ es'"]) simp
  moreover have "collects_timeouts (E a) r [] w"
    using S w(2,3) E(2) by (simp add: collects_timeouts_def timeout_maker_def or_new_def stuck_in_def not_past_def)
  ultimately show thesis using that x w(1) S by (simp add: stuck_in_def)
qed

text \<open>Timeouts of a quorum that reach a core which may have counted its own already.\<close>

lemma timeouts_pass:
  assumes "committee_ok (my_committee E)" "authorities (my_committee E) \<noteq> []" "r < - 1" "\<And>m. ser_msg E m \<noteq> None"
    and ts: "\<forall>x\<in>set ts. timeout_round (snd x) = r \<and> qc_round (timeout_high_qc (snd x)) < - 1
      \<and> timeout_verify (dalek E) (my_committee E) (snd x) = Inr ()"
    and Q: "quorum (my_committee E) (timeout_author ` set (seen @ map snd ts))"
    and t: "r < cur_round t \<or> collects_timeouts E r seen t"
  shows "\<exists>u. core_loop E (map (\<lambda>(now, x). (now, Message (TimeoutMsg x))) ts) t = (Ok (), u) \<and> r < cur_round u"
  using t
proof
  assume "r < cur_round t"
  moreover from this ts have "core_loop E (map (\<lambda>(now, x). (now, Message (TimeoutMsg x))) ts) t = (Ok (), t)"
    by (intro old_messages_ignored) auto
  ultimately show ?thesis by blast
qed (rule timeouts_loop [OF assms(1-4) ts _ Q])

text \<open>So every authority gets past the round, which handles its own timeout first if it is one of the quorum.\<close>

lemma member_passes:
  assumes ok: "committee_ok C" "quorum C Q" "r < - 1" and N: "not_past D C r b E s" and as: "set as = Q - {b}"
    and x: "\<And>a. a \<in> Q \<Longrightarrow> timeout_round (x a) = r \<and> timeout_author (x a) = a \<and> qc_round (timeout_high_qc (x a)) < - 1
      \<and> timeout_verify D C (x a) = Inr ()"
    and own: "b \<in> Q \<Longrightarrow> step E now Timer_fired s = step E now (Message (TimeoutMsg (x b))) w \<and> collects_timeouts E r [] w"
  shows "\<exists>t. core_loop E ((if b \<in> Q then [(now, Timer_fired)] else []) @ map (\<lambda>a. (now' a, Message (TimeoutMsg (x a)))) as) s = (Ok (), t)
    \<and> r < cur_round t"
proof -
  let ?ts = "map (\<lambda>a. (now' a, x a)) as"
  have auth: "authorities C \<noteq> []" by (rule quorum_members [OF ok(2)])
  have E: "dalek E = D" "my_committee E = C" "\<And>m. ser_msg E m \<noteq> None" using N by (auto simp: not_past_def)
  have ts: "\<forall>y\<in>set ?ts. timeout_round (snd y) = r \<and> qc_round (timeout_high_qc (snd y)) < - 1
      \<and> timeout_verify (dalek E) (my_committee E) (snd y) = Inr ()" using as x E by auto
  have run: "\<exists>u. core_loop E (map (\<lambda>a. (now' a, Message (TimeoutMsg (x a)))) as) t = (Ok (), u) \<and> r < cur_round u"
    if "timeout_author ` set (seen @ map snd ?ts) = Q" "r < cur_round t \<or> collects_timeouts E r seen t" for seen t
    using timeouts_pass [OF _ _ ok(3) E(3) ts, of seen t] ok(1,2) auth E(2) that by (simp add: comp_def)
  have author: "timeout_author ` x ` A = A" if "A \<subseteq> Q" for A using x that by force
  show ?thesis
  proof (cases "b \<in> Q")
    case False
    have "collects_timeouts E r [] s"
      using N E(2) by (simp add: not_past_def collects_timeouts_def timeout_maker_def or_new_def)
    moreover have "timeout_author ` set ([] @ map snd ?ts) = Q" using False as author [of Q] by (simp add: image_image comp_def)
    ultimately have "\<exists>u. core_loop E (map (\<lambda>a. (now' a, Message (TimeoutMsg (x a)))) as) s = (Ok (), u) \<and> r < cur_round u"
      by (intro run disjI2)
    with False show ?thesis by simp
  next
    case True
    obtain t where t: "step E now Timer_fired s = (Ok (), t)" "r < cur_round t \<or> collects_timeouts E r [x b] t"
      using timeout_step [of E "x b" "[]" w now] x [OF True] own [OF True] auth E ok(3) by auto
    have "timeout_author ` set ([x b] @ map snd ?ts) = Q"
      using author [of "Q - {b}"] x [OF True] True as by (auto simp: image_image comp_def)
    from run [OF this t(2)] show ?thesis using t(1) True by (auto simp: run_sq)
  qed
qed

section \<open>Property\<close>

text \<open>
  C10. A round that makes no progress ends everywhere. Let no core of the committee be past a round or have counted a timeout for it, and let the timers of the
  cores of a quorum fire in this round, each with a high QC that verifies. Then each of them returns, has signed a timeout for the round and sent it to
  every other authority of the committee, whose handler passes it on. And every core of the committee, whether its own timer has fired
  or not, once it has the timeouts of the others in the quorum, in any order and with repetitions, is past the round.
\<close>

theorem round_times_out:
  assumes "committee_ok C" and "quorum C Q" and "r < - 1"
    and "\<forall>b\<in>names C. not_past D C r b (E b) (s b)" and "\<forall>a\<in>Q. stuck_in D C r a (E a) (s a)"
    and "\<forall>a\<in>Q. \<forall>b\<in>names C. understands (E b) r (E a) (s a)"
  shows "\<exists>x m. (\<forall>a\<in>Q. times_out C E a (now a) (s a) (x a) (m a))
    \<and> (\<forall>b\<in>names C. \<forall>as. set as = Q - {b} \<longrightarrow> (\<exists>t. core_loop (E b) ((if b \<in> Q then [(now b, Timer_fired)] else [])
         @ map (\<lambda>a. (now' a, Message (TimeoutMsg (x a)))) as) (s b) = (Ok (), t) \<and> r < cur_round t))"
proof -
  let ?good = "\<lambda>a x m w. times_out C E a (now a) (s a) x m \<and> timeout_round x = r \<and> timeout_author x = a
    \<and> qc_round (timeout_high_qc x) < - 1 \<and> timeout_verify D C x = Inr ()
    \<and> step (E a) (now a) Timer_fired (s a) = step (E a) (now a) (Message (TimeoutMsg x)) w \<and> collects_timeouts (E a) r [] w"
  have "\<exists>x m w. ?good a x m w" if "a \<in> Q" for a
    by (rule stuck_times_out [of D C r a E "s a" "now a"]) (use assms(5,6) that in blast)+
  then obtain x m w where xm: "\<And>a. a \<in> Q \<Longrightarrow> ?good a (x a) (m a) (w a)" by metis
  have "\<exists>t. core_loop (E b) ((if b \<in> Q then [(now b, Timer_fired)] else []) @ map (\<lambda>a. (now' a, Message (TimeoutMsg (x a)))) as) (s b)
      = (Ok (), t) \<and> r < cur_round t" if "b \<in> names C" and "set as = Q - {b}" for b as
    using assms(4) that xm by (intro member_passes [OF assms(1-3), where D = D and w = "w b"]) auto
  with xm show ?thesis by (intro exI [of _ x] exI [of _ m]) blast
qed

section \<open>Four authorities\<close>

text \<open>The timers of authorities 2, 3 and 4 fire in round 1; authority 1, and authority 2 itself, read the timeouts.\<close>

definition waiting_env :: "public_key \<Rightarrow> (bytes, bytes \<rightharpoonup> bytes) env" where
  "waiting_env a = (voting_env a)\<lparr>de_msg := \<lambda>m. Ok (TimeoutMsg (scenario_timeout (hd m)))\<rparr>"

lemma waiting_env_simps [simp]:
  "dalek (waiting_env a) = scenario_dalek" "my_committee (waiting_env a) = test_committee"
  "my_name (waiting_env a) = test_key (hd (public_key_bytes a))" "my_secret (waiting_env a) = SecretKey (replicate 64 0)"
  "ser_msg (waiting_env a) m = Some [hd (public_key_bytes a)]" "de_msg (waiting_env a) f = Ok (TimeoutMsg (scenario_timeout (hd f)))"
  by (simp_all add: waiting_env_def)

definition first_core :: "public_key \<Rightarrow> (bytes \<rightharpoonup> bytes) core" where
  "first_core a = core_new (waiting_env a) 5000 0 (store_new Map.empty)"

lemma first_core_simps [simp]:
  "cur_round (first_core a) = 1" "high_qc (first_core a) = qc_genesis" "agg_committee (my_aggregator (first_core a)) = test_committee"
  "timeouts_aggregators (my_aggregator (first_core a)) r = None"
  by (simp_all add: first_core_def core_new_def aggregator_new_def)

lemma scenario_timeout_new:
  "timeout_new scenario_dalek qc_genesis 1 (test_key k) sk = Some (scenario_timeout k)"
  by (simp add: timeout_new_def Let_def request_signature_def scenario_sign scenario_timeout_def)

theorem round_times_out_witness:
  "\<exists>x t u. core_loop (waiting_env (test_key 1)) (map (\<lambda>a. (9, Message (TimeoutMsg (x a)))) [test_key 3, test_key 2, test_key 3, test_key 4])
      (first_core (test_key 1)) = (Ok (), t) \<and> 1 < cur_round t
    \<and> core_loop (waiting_env (test_key 2)) ((8, Timer_fired) # map (\<lambda>a. (9, Message (TimeoutMsg (x a)))) [test_key 4, test_key 3])
      (first_core (test_key 2)) = (Ok (), u) \<and> 1 < cur_round u"
proof -
  let ?Q = "{test_key 2, test_key 3, test_key 4}"
  have names: "names test_committee = {test_key 1, test_key 2, test_key 3, test_key 4}"
    by (simp add: names_def test_committee_authorities)
  have q: "quorum test_committee ?Q"
    by (simp add: quorum_def weight_of_def test_stake scenario_threshold)
  have n: "not_past scenario_dalek test_committee 1 (test_key k) (waiting_env (test_key k)) (first_core (test_key k))" for k
    by (simp add: not_past_def)
  have s: "stuck_in scenario_dalek test_committee 1 (test_key k) (waiting_env (test_key k)) (first_core (test_key k))" if "k \<in> {2, 3, 4}" for k
    using that n [of k] word_greater_zero_iff [of "- 1 :: u64"]
    by (auto simp: stuck_in_def test_stake scenario_key_pair scenario_qcs)
  have u: "understands (waiting_env b) 1 (waiting_env (test_key k)) (first_core (test_key k))" for b k
    by (simp add: understands_def scenario_timeout_new)
  obtain x m where x: "\<forall>b\<in>names test_committee. \<forall>as. set as = ?Q - {b} \<longrightarrow>
      (\<exists>t. core_loop (waiting_env b) ((if b \<in> ?Q then [(8, Timer_fired)] else []) @ map (\<lambda>a. (9, Message (TimeoutMsg (x a)))) as) (first_core b)
        = (Ok (), t) \<and> 1 < cur_round t)"
    using round_times_out [OF test_committee_ok q one_not_last, of scenario_dalek waiting_env first_core "\<lambda>_. 8" "\<lambda>_. 9"] n s u by (auto simp: names)
  have "set [test_key 3, test_key 2, test_key 3, test_key 4] = ?Q - {test_key 1}" "test_key 1 \<in> names test_committee" "test_key 1 \<notin> ?Q"
    by (auto simp: names)
  with x have 1: "\<exists>t. core_loop (waiting_env (test_key 1))
      (map (\<lambda>a. (9, Message (TimeoutMsg (x a)))) [test_key 3, test_key 2, test_key 3, test_key 4]) (first_core (test_key 1)) = (Ok (), t)
      \<and> 1 < cur_round t" by fastforce
  have "set [test_key 4, test_key 3] = ?Q - {test_key 2}" "test_key 2 \<in> names test_committee" "test_key 2 \<in> ?Q"
    by (auto simp: names)
  with x have "\<exists>t. core_loop (waiting_env (test_key 2))
      ((8, Timer_fired) # map (\<lambda>a. (9, Message (TimeoutMsg (x a)))) [test_key 4, test_key 3]) (first_core (test_key 2)) = (Ok (), t)
      \<and> 1 < cur_round t" by fastforce
  with 1 show ?thesis by blast
qed

end
