(* ===== verification/Mempool_Config.thy ===== *)
theory Mempool_Config
  imports Quorum_Acks
begin

text \<open>
  \<open>mempool/src/config.rs\<close>: the parameters of the mempool and its committee, which has the stakes of the
  committee of the consensus and other addresses. The quorum threshold is computed by a copy of the code of
  \<open>consensus/src/config.rs\<close>; that it is the same number is what carries the lemmas over.
\<close>

section \<open>Parameters and committee\<close>

record mempool_parameters =
  gc_depth :: u64
  mempool_retry_delay :: u64
  sync_retry_nodes :: nat
  batch_size :: nat
  max_batch_delay :: u64

definition mempool_parameters_default :: mempool_parameters where
  "mempool_parameters_default =
     \<lparr>gc_depth = 50, mempool_retry_delay = 5000, sync_retry_nodes = 3, batch_size = 500000,
      max_batch_delay = 100\<rparr>"

record mempool_authority =
  mempool_authority_stake :: stake
  authority_transactions_address :: socket_addr
  authority_mempool_address :: socket_addr

record mempool_committee =
  mempool_authorities :: "(public_key \<times> mempool_authority) list"
  mempool_epoch :: u128

definition mempool_committee_new ::
    "(public_key \<times> stake \<times> socket_addr \<times> socket_addr) list \<Rightarrow> u128 \<Rightarrow> mempool_committee" where
  "mempool_committee_new info ep =
     \<lparr>mempool_authorities = fold (\<lambda>(name, stake, transactions_address, mempool_address).
        AList.update name \<lparr>mempool_authority_stake = stake, authority_transactions_address = transactions_address,
          authority_mempool_address = mempool_address\<rparr>) info [],
      mempool_epoch = ep\<rparr>"

definition mempool_stake :: "mempool_committee \<Rightarrow> public_key \<Rightarrow> stake" where
  "mempool_stake c name =
     (case map_of (mempool_authorities c) name of None \<Rightarrow> 0 | Some x \<Rightarrow> mempool_authority_stake x)"

definition mempool_quorum_threshold :: "mempool_committee \<Rightarrow> stake" where
  "mempool_quorum_threshold c =
     (let total_votes = sum_list (map (\<lambda>(_, x). mempool_authority_stake x) (mempool_authorities c))
      in 2 * total_votes div 3 + 1)"

definition transactions_address :: "mempool_committee \<Rightarrow> public_key \<Rightarrow> socket_addr option" where
  "transactions_address c name =
     map_option authority_transactions_address (map_of (mempool_authorities c) name)"

definition mempool_address :: "mempool_committee \<Rightarrow> public_key \<Rightarrow> socket_addr option" where
  "mempool_address c name =
     map_option authority_mempool_address (map_of (mempool_authorities c) name)"

definition mempool_broadcast_addresses ::
    "mempool_committee \<Rightarrow> public_key \<Rightarrow> (public_key \<times> socket_addr) list" where
  "mempool_broadcast_addresses c myself =
     map (\<lambda>(name, x). (name, authority_mempool_address x))
       (filter (\<lambda>(name, x). name \<noteq> myself) (mempool_authorities c))"

section \<open>The same stakes as in the consensus\<close>

text \<open>The committee of the consensus with these stakes, on the mempool addresses.\<close>

definition voting_committee :: "mempool_committee \<Rightarrow> committee" where
  "voting_committee c =
     \<lparr>authorities = map (\<lambda>(name, x). (name, \<lparr>authority_stake = mempool_authority_stake x,
        authority_address = authority_mempool_address x\<rparr>)) (mempool_authorities c),
      epoch = mempool_epoch c\<rparr>"

definition mempool_names :: "mempool_committee \<Rightarrow> public_key set" where
  "mempool_names c = fst ` set (mempool_authorities c)"

definition mempool_committee_ok :: "mempool_committee \<Rightarrow> bool" where
  "mempool_committee_ok c \<longleftrightarrow> committee_ok (voting_committee c)"

lemma map_of_voting:
  "map_of (authorities (voting_committee c)) name = map_option (\<lambda>x. \<lparr>authority_stake = mempool_authority_stake x,
     authority_address = authority_mempool_address x\<rparr>) (map_of (mempool_authorities c) name)"
  by (simp add: voting_committee_def map_of_map)

lemma voting_committee_simps:
  "stake (voting_committee c) name = mempool_stake c name"
  "quorum_threshold (voting_committee c) = mempool_quorum_threshold c"
  "names (voting_committee c) = mempool_names c"
  "address (voting_committee c) name = mempool_address c name"
  "broadcast_addresses (voting_committee c) name = mempool_broadcast_addresses c name"
proof -
  show "stake (voting_committee c) name = mempool_stake c name"
    by (simp add: stake_def map_of_voting mempool_stake_def option.case_eq_if option.map_sel)
  show "quorum_threshold (voting_committee c) = mempool_quorum_threshold c"
    by (simp add: quorum_threshold_def mempool_quorum_threshold_def voting_committee_def comp_def case_prod_unfold)
  show "names (voting_committee c) = mempool_names c"
    by (force simp: names_def mempool_names_def voting_committee_def)
  show "address (voting_committee c) name = mempool_address c name"
    by (simp add: address_def map_of_voting mempool_address_def option.map_comp comp_def)
  show "broadcast_addresses (voting_committee c) name = mempool_broadcast_addresses c name"
    by (simp add: broadcast_addresses_def mempool_broadcast_addresses_def voting_committee_def comp_def
        case_prod_unfold filter_map)
qed

interpretation ma: acknowledged mempool_committee_ok mempool_names "\<lambda>c a. unat (mempool_stake c a)"
    "\<lambda>c. unat (mempool_quorum_threshold c)" mempool_stake mempool_quorum_threshold
proof unfold_locales
  fix c :: mempool_committee and a assume ok: "mempool_committee_ok c"
  note ok' = ok [unfolded mempool_committee_ok_def]
  show "finite (mempool_names c)" by (simp add: mempool_names_def)
  show "a \<notin> mempool_names c \<Longrightarrow> unat (mempool_stake c a) = 0"
    using qs.weight_outside [OF ok'] by (simp add: voting_committee_simps)
  show "2 * (\<Sum>a\<in>mempool_names c. unat (mempool_stake c a)) < 3 * unat (mempool_quorum_threshold c)"
    using qs.two_thirds [OF ok'] by (simp add: voting_committee_simps)
  show "0 < (\<Sum>a\<in>mempool_names c. unat (mempool_stake c a)) \<Longrightarrow>
      unat (mempool_quorum_threshold c) \<le> (\<Sum>a\<in>mempool_names c. unat (mempool_stake c a))"
    using qs.reachable_threshold [OF ok'] by (simp add: voting_committee_simps)
  show "(\<Sum>a\<in>mempool_names c. unat (mempool_stake c a)) < 2 ^ 32"
    using ca.stakes_fit [OF ok'] by (simp add: voting_committee_simps)
qed simp_all

text \<open>The peers of a broadcast are the other members, each once.\<close>

lemma mempool_broadcast_names:
  assumes "mempool_committee_ok c"
  shows "distinct (map fst (mempool_broadcast_addresses c me))"
    and "set (map fst (mempool_broadcast_addresses c me)) = mempool_names c - {me}"
proof -
  have d: "distinct (map fst (mempool_authorities c))"
    using assms by (simp add: mempool_committee_ok_def committee_ok_def voting_committee_def comp_def case_prod_unfold)
  have "map fst (mempool_broadcast_addresses c me) = filter (\<lambda>n. n \<noteq> me) (map fst (mempool_authorities c))"
    by (simp add: mempool_broadcast_addresses_def comp_def case_prod_unfold filter_map)
  with d show "distinct (map fst (mempool_broadcast_addresses c me))"
    and "set (map fst (mempool_broadcast_addresses c me)) = mempool_names c - {me}"
    by (auto simp: mempool_names_def)
qed

section \<open>A committee of four\<close>

definition test_mempool_committee :: mempool_committee where
  "test_mempool_committee =
     mempool_committee_new (map (\<lambda>i. (test_key i, 1, ([127, 0, 0, 1], 100 + ucast i), ([127, 0, 0, 1], 200 + ucast i)))
       [1, 2, 3, 4]) 1"

lemma test_mempool_authorities:
  "mempool_authorities test_mempool_committee =
     map (\<lambda>i. (test_key i, \<lparr>mempool_authority_stake = 1, authority_transactions_address = ([127, 0, 0, 1], 100 + ucast i),
       authority_mempool_address = ([127, 0, 0, 1], 200 + ucast i)\<rparr>)) [1, 2, 3, 4]"
  by (simp add: test_mempool_committee_def mempool_committee_new_def test_key_def)

lemma test_mempool_committee_ok: "mempool_committee_ok test_mempool_committee"
  by (simp add: mempool_committee_ok_def committee_ok_def total_stake_def voting_committee_def
      test_mempool_authorities test_key_def)

lemma test_mempool_names: "mempool_names test_mempool_committee = test_key ` {1, 2, 3, 4}"
  by (auto simp: mempool_names_def test_mempool_authorities)

lemma test_mempool_stake:
  "mempool_stake test_mempool_committee (test_key j) = (if j \<in> {1, 2, 3, 4} then 1 else 0)"
  by (auto simp: mempool_stake_def test_mempool_authorities)

lemma test_mempool_threshold: "mempool_quorum_threshold test_mempool_committee = 3"
  by (simp add: mempool_quorum_threshold_def test_mempool_authorities)

lemma test_mempool_broadcast:
  "mempool_broadcast_addresses test_mempool_committee (test_key 1) =
     map (\<lambda>i. (test_key i, [127, 0, 0, 1], 200 + ucast i)) [2, 3, 4]"
  by (simp add: mempool_broadcast_addresses_def test_mempool_authorities)

end
