(* ===== verification/Node.thy ===== *)
theory Node
  imports Keys Mempool_Config Tasks
begin

text \<open>
  \<open>node/src/config.rs\<close>, \<open>node/src/node.rs\<close> and \<open>deploy_testbed\<close> of \<open>node/src/main.rs\<close>: the files a node is started
  from, what it reads out of them, and the deployment of a local testbed. \<open>serde_json\<close> is a parameter for each type
  it is used at; the file system is a map from paths to contents.
\<close>

section \<open>Files\<close>

text \<open>\<open>to_string_pretty\<close> may fail; \<open>from_slice\<close> may fail, and panic in the \<open>deserialize\<close> of a key.\<close>

record 'a json =
  to_json :: "'a \<Rightarrow> bytes option"
  from_json :: "bytes \<Rightarrow> (string, 'a) outcome"

definition blank :: "u8 \<Rightarrow> bool" where
  "blank b \<longleftrightarrow> b \<in> {9, 10, 13, 32}"

text \<open>The JSON object for a value is read back, whatever blanks follow it; anything else after it is an error.\<close>

definition json_ok :: "'a json \<Rightarrow> 'a set \<Rightarrow> bool" where
  "json_ok J X \<longleftrightarrow> (\<forall>x\<in>X. \<exists>bs. to_json J x = Some bs
     \<and> (\<forall>rest. list_all blank rest \<longrightarrow> from_json J (bs @ rest) = Ok x)
     \<and> (\<forall>rest. \<not> list_all blank rest \<longrightarrow> (\<exists>e. from_json J (bs @ rest) = Err e)))"

datatype config_error = ReadError string string | WriteError string string

record filesys =
  files :: "string \<rightharpoonup> bytes"
  can_write :: "string \<Rightarrow> bool"

definition export_read :: "'a json \<Rightarrow> string \<Rightarrow> filesys \<Rightarrow> (config_error, 'a) outcome" where
  "export_read J path fs =
     (case files fs path of
        None \<Rightarrow> Err (ReadError path ''No such file or directory (os error 2)'')
      | Some data \<Rightarrow>
          (case from_json J data of
             Ok x \<Rightarrow> Ok x | Err e \<Rightarrow> Err (ReadError path e) | Panic p \<Rightarrow> Panic p | Diverge \<Rightarrow> Diverge))"

text \<open>The file is opened with \<open>create\<close> and \<open>write\<close>, not with \<open>truncate\<close>: old bytes after the new ones stay.\<close>

definition export_write :: "'a json \<Rightarrow> 'a \<Rightarrow> string \<Rightarrow> (filesys, config_error, unit) proc" where
  "export_write J x path =
     bnd (gets (\<lambda>fs. can_write fs path)) (\<lambda>opened.
     if \<not> opened then fail (WriteError path ''Permission denied (os error 13)'')
     else (case to_json J x of
        None \<Rightarrow> panic ''called `Result::unwrap()` on an `Err` value''
      | Some data \<Rightarrow>
          modify (\<lambda>fs. fs\<lparr>files := (files fs)(path \<mapsto> (data @ [10])
            @ drop (length data + 1) (case files fs path of None \<Rightarrow> [] | Some old \<Rightarrow> old))\<rparr>)))"

definition remove_file :: "string \<Rightarrow> (filesys, 'e, unit) proc" where
  "remove_file path = modify (\<lambda>fs. if can_write fs path then fs\<lparr>files := (files fs)(path := None)\<rparr> else fs)"

section \<open>Starting a node\<close>

record secret =
  secret_name :: public_key
  secret_secret :: secret_key

record node_committee =
  consensus_committee :: committee
  mempool_committee :: mempool_committee

record node_parameters =
  consensus_parameters :: parameters
  mempool_params :: mempool_parameters

definition node_parameters_default :: node_parameters where
  "node_parameters_default = \<lparr>consensus_parameters = parameters_default, mempool_params = mempool_parameters_default\<rparr>"

definition secret_new :: "('k, 'g) keygen \<Rightarrow> 'g \<Rightarrow> secret \<times> 'g" where
  "secret_new G g = (case generate_keypair G g of ((name, secret), g') \<Rightarrow> (\<lparr>secret_name = name, secret_secret = secret\<rparr>, g'))"

text \<open>What \<open>Node::new\<close> passes to the mempool and to the consensus.\<close>

record node =
  node_name :: public_key
  node_secret :: secret_key
  node_committees :: node_committee
  node_params :: node_parameters

definition node_new ::
    "node_committee json \<Rightarrow> secret json \<Rightarrow> node_parameters json \<Rightarrow> string \<Rightarrow> string \<Rightarrow> string option \<Rightarrow>
       (filesys, config_error, node) proc" where
  "node_new JC JS JP committee_file key_file parameters =
     bnd (\<lambda>fs. (export_read JC committee_file fs, fs)) (\<lambda>committee.
     bnd (\<lambda>fs. (export_read JS key_file fs, fs)) (\<lambda>secret.
     bnd (\<lambda>fs. (case parameters of Some filename \<Rightarrow> export_read JP filename fs | None \<Rightarrow> Ok node_parameters_default, fs)) (\<lambda>params.
     ret \<lparr>node_name = secret_name secret, node_secret = secret_secret secret, node_committees = committee,
          node_params = params\<rparr>)))"

definition print_key_file :: "('k, 'g) keygen \<Rightarrow> secret json \<Rightarrow> 'g \<Rightarrow> string \<Rightarrow> (filesys, config_error, unit) proc" where
  "print_key_file G JS g filename = export_write JS (fst (secret_new G g)) filename"

section \<open>The local testbed\<close>

text \<open>\<open>format!("127.0.0.1:{}", port).parse().unwrap()\<close>: a port above 65535 does not parse.\<close>

definition local_address :: "nat \<Rightarrow> (config_error, socket_addr) outcome" where
  "local_address port =
     (if port < 65536 then Ok ([127, 0, 0, 1], of_nat port) else Panic ''called `Result::unwrap()` on an `Err` value'')"

primrec mempool_infos ::
    "nat \<Rightarrow> secret list \<Rightarrow> (unit, config_error, (public_key \<times> stake \<times> socket_addr \<times> socket_addr) list) proc" where
  "mempool_infos i [] = ret []"
| "mempool_infos i (key # keys) =
     bnd (\<lambda>s. (local_address (25000 + i), s)) (\<lambda>front.
     bnd (\<lambda>s. (local_address (25100 + i), s)) (\<lambda>mempool.
     bnd (mempool_infos (Suc i) keys) (\<lambda>rest. ret ((secret_name key, 1, front, mempool) # rest))))"

primrec consensus_infos ::
    "nat \<Rightarrow> secret list \<Rightarrow> (unit, config_error, (public_key \<times> stake \<times> socket_addr) list) proc" where
  "consensus_infos i [] = ret []"
| "consensus_infos i (key # keys) =
     bnd (\<lambda>s. (local_address (25200 + i), s)) (\<lambda>address.
     bnd (consensus_infos (Suc i) keys) (\<lambda>rest. ret ((secret_name key, 1, address) # rest)))"

definition testbed_committee :: "secret list \<Rightarrow> (config_error, node_committee) outcome" where
  "testbed_committee keys =
     fst (bnd (mempool_infos 0 keys) (\<lambda>minfo. bnd (consensus_infos 0 keys) (\<lambda>cinfo.
       ret \<lparr>consensus_committee = committee_new cinfo 1, mempool_committee = mempool_committee_new minfo 1\<rparr>)) ())"

text \<open>Decimal numerals, as in \<open>format!("node_{}.json", i)\<close>.\<close>

fun decimal :: "nat \<Rightarrow> string" where
  "decimal n = (if n < 10 then [char_of (48 + n)] else decimal (n div 10) @ [char_of (48 + n mod 10)])"

declare decimal.simps [simp del]

definition node_file :: "nat \<Rightarrow> string" where
  "node_file i = ''node_'' @ decimal i @ ''.json''"

definition committee_path :: string where
  "committee_path = ''committee.json''"

text \<open>The key files, and the arguments with which the nodes are spawned.\<close>

primrec deploy_nodes :: "secret json \<Rightarrow> nat \<Rightarrow> secret list \<Rightarrow> (filesys, config_error, (string \<times> string) list) proc" where
  "deploy_nodes JS i [] = ret []"
| "deploy_nodes JS i (key # keys) =
     sq (remove_file (node_file i))
     (sq (export_write JS key (node_file i))
     (bnd (deploy_nodes JS (Suc i) keys) (\<lambda>rest. ret ((committee_path, node_file i) # rest))))"

definition deploy_testbed ::
    "node_committee json \<Rightarrow> secret json \<Rightarrow> secret list \<Rightarrow> (filesys, config_error, (string \<times> string) list) proc" where
  "deploy_testbed JC JS keys =
     bnd (\<lambda>fs. (testbed_committee keys, fs)) (\<lambda>committee.
     sq (remove_file committee_path)
     (sq (export_write JC committee committee_path)
     (deploy_nodes JS 0 keys)))"

section \<open>Lemmas\<close>

definition stale :: "filesys \<Rightarrow> string \<Rightarrow> nat \<Rightarrow> bytes" where
  "stale fs path n = drop n (case files fs path of None \<Rightarrow> [] | Some old \<Rightarrow> old)"

lemma json_okD:
  assumes "json_ok J X" and "x \<in> X"
  obtains bs where "to_json J x = Some bs" "\<And>rest. list_all blank rest \<Longrightarrow> from_json J (bs @ rest) = Ok x"
    "\<And>rest. \<not> list_all blank rest \<Longrightarrow> \<exists>e. from_json J (bs @ rest) = Err e"
  using assms unfolding json_ok_def by metis

lemma export_write_run:
  assumes "can_write fs path" and "to_json J x = Some bs"
  shows "export_write J x path fs = (Ok (), fs\<lparr>files := (files fs)(path \<mapsto> bs @ 10 # stale fs path (length bs + 1))\<rparr>)"
  using assms by (simp add: export_write_def proc_simps stale_def)

lemma export_read_back:
  assumes "json_ok J X" and "x \<in> X" and "to_json J x = Some bs" and "files fs path = Some (bs @ 10 # rest)"
  shows "export_read J path fs = Ok x \<longleftrightarrow> list_all blank rest"
    and "\<not> list_all blank rest \<Longrightarrow> \<exists>e. export_read J path fs = Err (ReadError path e)"
proof -
  obtain bs' where bs': "to_json J x = Some bs'" "\<And>rest. list_all blank rest \<Longrightarrow> from_json J (bs' @ rest) = Ok x"
    "\<And>rest. \<not> list_all blank rest \<Longrightarrow> \<exists>e. from_json J (bs' @ rest) = Err e"
    using json_okD [OF assms(1,2)] by blast
  have b: "list_all blank (10 # rest) \<longleftrightarrow> list_all blank rest" by (simp add: blank_def)
  show err: "\<exists>e. export_read J path fs = Err (ReadError path e)" if "\<not> list_all blank rest"
    using bs'(3) [of "10 # rest"] that b assms(3,4) bs'(1) by (auto simp: export_read_def)
  show "export_read J path fs = Ok x \<longleftrightarrow> list_all blank rest"
    using bs'(2) [of "10 # rest"] err b assms(3,4) bs'(1) by (auto simp: export_read_def)
qed

lemma local_address_simps [simp]:
  "port < 65536 \<Longrightarrow> local_address port = Ok ([127, 0, 0, 1], of_nat port)"
  "65536 \<le> port \<Longrightarrow> local_address port = Panic ''called `Result::unwrap()` on an `Err` value''"
  by (simp_all add: local_address_def)

lemma mempool_infos_run:
  "mempool_infos i keys s =
     (if i + length keys \<le> 40436 \<or> keys = []
      then Ok (map (\<lambda>(j, key). (secret_name key, 1, ([127, 0, 0, 1], of_nat (25000 + j)), ([127, 0, 0, 1], of_nat (25100 + j))))
        (zip [i ..< i + length keys] keys))
      else Panic ''called `Result::unwrap()` on an `Err` value'', s)"
proof (induction keys arbitrary: i)
  case (Cons key keys)
  have zip: "zip [i ..< i + length (key # keys)] (key # keys) = (i, key) # zip [Suc i ..< Suc i + length keys] keys"
    by (simp add: upt_conv_Cons del: upt_Suc)
  show ?case
    using Cons [of "Suc i"] unfolding zip
    by (cases "i < 40436") (auto simp: bnd_def ret_def local_address_def)
qed (simp add: ret_def)

lemma consensus_infos_run:
  "consensus_infos i keys s =
     (if i + length keys \<le> 40336 \<or> keys = []
      then Ok (map (\<lambda>(j, key). (secret_name key, 1, ([127, 0, 0, 1], of_nat (25200 + j)))) (zip [i ..< i + length keys] keys))
      else Panic ''called `Result::unwrap()` on an `Err` value'', s)"
proof (induction keys arbitrary: i)
  case (Cons key keys)
  have zip: "zip [i ..< i + length (key # keys)] (key # keys) = (i, key) # zip [Suc i ..< Suc i + length keys] keys"
    by (simp add: upt_conv_Cons del: upt_Suc)
  show ?case
    using Cons [of "Suc i"] unfolding zip
    by (cases "i < 40336") (auto simp: bnd_def ret_def local_address_def)
qed (simp add: ret_def)

lemma fold_update_new:
  assumes "distinct (map fst xs @ map fst ys)"
  shows "fold (\<lambda>(k, v). AList.update k v) ys xs = xs @ ys"
  using assms
proof (induction ys arbitrary: xs)
  case (Cons y ys)
  obtain k v where y: "y = (k, v)" by (cases y)
  have "AList.update k v xs = xs @ [(k, v)]" using Cons.prems by (intro update_new) (auto simp: y)
  with Cons.IH [of "xs @ [(k, v)]"] Cons.prems show ?case by (simp add: y)
qed simp

lemma fold_update_map:
  assumes "\<And>x. fst (f x) = fst x" and "distinct (map fst info)"
  shows "fold (\<lambda>(k, v). AList.update k v) (map f info) [] = map f info"
proof -
  have e: "map fst (map f info) = map fst info" using assms(1) by simp
  have "fold (\<lambda>(k, v). AList.update k v) (map f info) [] = [] @ map f info"
    by (rule fold_update_new) (simp only: e list.map(1) append_Nil assms(2))
  then show ?thesis by simp
qed

lemma committee_new_distinct_names:
  assumes "distinct (map fst info)"
  shows "authorities (committee_new info ep) = map (\<lambda>(n, w, a). (n, \<lparr>authority_stake = w, authority_address = a\<rparr>)) info"
proof -
  have "fold (\<lambda>(name, w, a). AList.update name \<lparr>authority_stake = w, authority_address = a\<rparr>) info xs
      = fold (\<lambda>(k, v). AList.update k v) (map (\<lambda>(n, w, a). (n, \<lparr>authority_stake = w, authority_address = a\<rparr>)) info) xs" for xs
    by (induction info arbitrary: xs) auto
  moreover have "fold (\<lambda>(k, v). AList.update k v) (map (\<lambda>(n, w, a). (n, \<lparr>authority_stake = w, authority_address = a\<rparr>)) info) []
      = map (\<lambda>(n, w, a). (n, \<lparr>authority_stake = w, authority_address = a\<rparr>)) info"
    by (rule fold_update_map [OF _ assms]) (simp add: case_prod_unfold)
  ultimately show ?thesis unfolding committee_new_def by simp
qed

lemma mempool_committee_new_distinct_names:
  assumes "distinct (map fst info)"
  shows "mempool_authorities (mempool_committee_new info ep) =
    map (\<lambda>(n, w, a, a'). (n, \<lparr>mempool_authority_stake = w, authority_transactions_address = a, authority_mempool_address = a'\<rparr>)) info"
proof -
  let ?f = "\<lambda>(n, w, a, a'). (n, \<lparr>mempool_authority_stake = w, authority_transactions_address = a, authority_mempool_address = a'\<rparr>)"
  have "fold (\<lambda>(name, w, a, a'). AList.update name \<lparr>mempool_authority_stake = w, authority_transactions_address = a,
        authority_mempool_address = a'\<rparr>) info xs
      = fold (\<lambda>(k, v). AList.update k v) (map ?f info) xs" for xs
    by (induction info arbitrary: xs) auto
  moreover have "fold (\<lambda>(k, v). AList.update k v) (map ?f info) [] = map ?f info"
    by (rule fold_update_map [OF _ assms]) (simp add: case_prod_unfold)
  ultimately show ?thesis unfolding mempool_committee_new_def by simp
qed

text \<open>The entries of the committees of a testbed.\<close>

definition local_port :: "nat \<Rightarrow> socket_addr" where
  "local_port j = ([127, 0, 0, 1], of_nat (25000 + j))"

definition testbed_consensus_entry :: "nat \<times> secret \<Rightarrow> public_key \<times> authority" where
  "testbed_consensus_entry x = (secret_name (snd x), \<lparr>authority_stake = 1, authority_address = local_port (200 + fst x)\<rparr>)"

definition testbed_mempool_entry :: "nat \<times> secret \<Rightarrow> public_key \<times> mempool_authority" where
  "testbed_mempool_entry x = (secret_name (snd x), \<lparr>mempool_authority_stake = 1,
     authority_transactions_address = local_port (fst x), authority_mempool_address = local_port (100 + fst x)\<rparr>)"

lemma names_zip: "map (\<lambda>x. secret_name (snd x)) (zip [0 ..< length keys] keys) = map secret_name keys"
  by (simp add: map_snd_zip flip: map_map [of secret_name snd, unfolded comp_def])

lemma testbed_committee_run:
  assumes "distinct (map secret_name keys)"
  shows "length keys \<le> 40336 \<Longrightarrow> \<exists>c. testbed_committee keys = Ok c
      \<and> authorities (consensus_committee c) = map testbed_consensus_entry (zip [0 ..< length keys] keys)
      \<and> mempool_authorities (mempool_committee c) = map testbed_mempool_entry (zip [0 ..< length keys] keys)"
    and "40336 < length keys \<Longrightarrow> testbed_committee keys = Panic ''called `Result::unwrap()` on an `Err` value''"
proof -
  let ?z = "zip [0 ..< length keys] keys"
  let ?m = "map (\<lambda>(j, key). (secret_name key, 1 :: u32, ([127, 0, 0, 1] :: bytes, of_nat (25000 + j) :: u16),
      ([127, 0, 0, 1] :: bytes, of_nat (25100 + j) :: u16))) ?z"
  let ?c = "map (\<lambda>(j, key). (secret_name key, 1 :: u32, ([127, 0, 0, 1] :: bytes, of_nat (25200 + j) :: u16))) ?z"
  have "map fst ?m = map secret_name keys" "map fst ?c = map secret_name keys"
    using names_zip [of keys] by (simp_all add: comp_def case_prod_unfold)
  then have "authorities (committee_new ?c 1) = map testbed_consensus_entry ?z"
    "mempool_authorities (mempool_committee_new ?m 1) = map testbed_mempool_entry ?z"
    using assms by (simp_all add: committee_new_distinct_names mempool_committee_new_distinct_names comp_def
        case_prod_unfold testbed_consensus_entry_def testbed_mempool_entry_def local_port_def)
  then show "\<exists>c. testbed_committee keys = Ok c
      \<and> authorities (consensus_committee c) = map testbed_consensus_entry ?z
      \<and> mempool_authorities (mempool_committee c) = map testbed_mempool_entry ?z" if "length keys \<le> 40336"
    using that by (simp add: testbed_committee_def mempool_infos_run consensus_infos_run bnd_def ret_def)
  show "testbed_committee keys = Panic ''called `Result::unwrap()` on an `Err` value''" if "40336 < length keys"
    using that by (auto simp: testbed_committee_def mempool_infos_run consensus_infos_run bnd_def ret_def)
qed

lemma map_of_const:
  "\<forall>e\<in>set xs. f (snd e) = w \<Longrightarrow>
   (case map_of xs k of None \<Rightarrow> 0 | Some x \<Rightarrow> f x) = (if k \<in> set (map fst xs) then w else 0)"
  by (induction xs) auto

lemma map_entry_port: "length xs = length ys \<Longrightarrow> map (\<lambda>x. f (fst x)) (zip xs ys) = map f xs"
  by (simp add: map_fst_zip flip: map_map [of f fst, unfolded comp_def])

lemma local_port_inj: "inj_on local_port {..< 40536}"
proof (rule inj_onI)
  fix i j assume ij: "i \<in> {..< 40536}" "j \<in> {..< 40536}" and "local_port i = local_port j"
  then have "unat (of_nat (25000 + i) :: u16) = unat (of_nat (25000 + j) :: u16)" by (simp add: local_port_def)
  moreover have "unat (of_nat (25000 + k) :: u16) = 25000 + k" if "k < 40536" for k
    using that by (intro unat_of_nat_small) simp
  ultimately show "i = j" using ij by simp
qed

lemma decimal_value:
  "foldl (\<lambda>v c. 10 * v + (of_char c - 48)) 0 (decimal n) = n"
proof (induction n rule: decimal.induct)
  case (1 n)
  then show ?case by (subst decimal.simps) simp
qed

lemma decimal_inj: "decimal i = decimal j \<longleftrightarrow> i = j"
  by (metis decimal_value)

lemma node_file_inj [simp]: "node_file i = node_file j \<longleftrightarrow> i = j"
  by (simp add: node_file_def decimal_inj)

lemma node_file_committee [simp]: "node_file i \<noteq> committee_path"
  by (simp add: node_file_def committee_path_def)

lemma deploy_nodes_run:
  assumes "json_ok JS X" and "\<forall>path. can_write fs path" and "set keys \<subseteq> X"
  shows "\<exists>fs'. deploy_nodes JS i keys fs = (Ok (map (\<lambda>j. (committee_path, node_file j)) [i ..< i + length keys]), fs')
    \<and> (\<forall>j < length keys. \<exists>bs. to_json JS (keys ! j) = Some bs \<and> files fs' (node_file (i + j)) = Some (bs @ [10]))
    \<and> (\<forall>path. (\<forall>j < length keys. path \<noteq> node_file (i + j)) \<longrightarrow> files fs' path = files fs path)"
  using assms(2,3)
proof (induction keys arbitrary: i fs)
  case (Cons key keys)
  obtain bs where bs: "to_json JS key = Some bs" using json_okD [OF assms(1), of key] Cons.prems(2)
    by (metis list.set_intros(1) subsetD)
  let ?fs1 = "fs\<lparr>files := (files fs)(node_file i := None)\<rparr>"
  let ?fs2 = "?fs1\<lparr>files := (files ?fs1)(node_file i \<mapsto> bs @ [10])\<rparr>"
  have w: "export_write JS key (node_file i) ?fs1 = (Ok (), ?fs2)"
    using export_write_run [OF _ bs, of ?fs1 "node_file i"] Cons.prems by (simp add: stale_def)
  obtain fs' where fs': "deploy_nodes JS (Suc i) keys ?fs2 = (Ok (map (\<lambda>j. (committee_path, node_file j)) [Suc i ..< Suc i + length keys]), fs')"
    "\<And>j. j < length keys \<Longrightarrow> \<exists>bs. to_json JS (keys ! j) = Some bs \<and> files fs' (node_file (Suc i + j)) = Some (bs @ [10])"
    "\<And>path. \<forall>j < length keys. path \<noteq> node_file (Suc i + j) \<Longrightarrow> files fs' path = files ?fs2 path"
    using Cons.IH [of ?fs2 "Suc i"] Cons.prems by auto
  have run: "deploy_nodes JS i (key # keys) fs = (Ok (map (\<lambda>j. (committee_path, node_file j)) [i ..< i + length (key # keys)]), fs')"
    using w fs'(1) Cons.prems by (simp add: remove_file_def proc_simps run_sq run_bnd upt_conv_Cons del: upt_Suc)
  have own: "files fs' (node_file i) = Some (bs @ [10])" using fs'(3) [of "node_file i"] by simp
  have "\<exists>bs. to_json JS ((key # keys) ! j) = Some bs \<and> files fs' (node_file (i + j)) = Some (bs @ [10])"
    if "j < length (key # keys)" for j
    using that own bs fs'(2) [of "j - 1"] by (cases j) auto
  moreover have "files fs' path = files fs path" if p: "\<forall>j < length (key # keys). path \<noteq> node_file (i + j)" for path
  proof -
    have "path \<noteq> node_file i" using p by (metis add_0_right length_greater_0_conv list.distinct(1))
    moreover have "\<forall>j < length keys. path \<noteq> node_file (Suc i + j)" using p by (metis Suc_mono add_Suc_shift length_Cons)
    ultimately show ?thesis using fs'(3) [of path] by simp
  qed
  ultimately show ?case using run by blast
qed (simp add: ret_def)

lemma testbed_committees:
  assumes "distinct (map secret_name keys)"
  shows "if length keys \<le> 40336
    then \<exists>c. testbed_committee keys = Ok c \<and> committee_ok (consensus_committee c) \<and> mempool_committee_ok (mempool_committee c)
      \<and> names (consensus_committee c) = secret_name ` set keys \<and> mempool_names (mempool_committee c) = secret_name ` set keys
      \<and> (\<forall>k. stake (consensus_committee c) k = (if k \<in> secret_name ` set keys then 1 else 0)
           \<and> mempool_stake (mempool_committee c) k = stake (consensus_committee c) k)
      \<and> unat (quorum_threshold (consensus_committee c)) = 2 * length keys div 3 + 1
      \<and> mempool_quorum_threshold (mempool_committee c) = quorum_threshold (consensus_committee c)
    else testbed_committee keys = Panic ''called `Result::unwrap()` on an `Err` value''"
proof (cases "length keys \<le> 40336")
  case True
  let ?z = "zip [0 ..< length keys] keys"
  obtain c where c: "testbed_committee keys = Ok c"
    "authorities (consensus_committee c) = map testbed_consensus_entry ?z"
    "mempool_authorities (mempool_committee c) = map testbed_mempool_entry ?z"
    using testbed_committee_run(1) [OF assms True] by blast
  have cn: "map fst (map testbed_consensus_entry ?z) = map secret_name keys"
    and mn: "map fst (map testbed_mempool_entry ?z) = map secret_name keys"
    using names_zip [of keys] by (simp_all add: testbed_consensus_entry_def testbed_mempool_entry_def comp_def)
  have set: "set (map fst (authorities (consensus_committee c))) = secret_name ` set keys"
    "set (map fst (mempool_authorities (mempool_committee c))) = secret_name ` set keys"
    by (simp_all only: c cn mn set_map)
  have ones: "map (\<lambda>(_, x). unat (authority_stake x)) (map testbed_consensus_entry ?z) = replicate (length keys) 1"
    by (simp add: testbed_consensus_entry_def comp_def map_replicate_const)
  have total: "total_stake (consensus_committee c) = length keys"
    by (simp only: total_stake_def c ones) (simp add: sum_list_replicate)
  have ok: "committee_ok (consensus_committee c)"
    using True assms by (simp only: committee_ok_def c cn total) simp
  have w: "stake (consensus_committee c) k = (if k \<in> secret_name ` set keys then 1 else 0)" for k
  proof -
    have "\<forall>e\<in>set (authorities (consensus_committee c)). authority_stake (snd e) = 1"
      by (auto simp: c(2) testbed_consensus_entry_def)
    from map_of_const [of _ authority_stake, OF this] show ?thesis unfolding stake_def set(1) by simp
  qed
  have voting: "authorities (voting_committee (mempool_committee c))
      = map (\<lambda>x. (secret_name (snd x), \<lparr>authority_stake = 1, authority_address = local_port (100 + fst x)\<rparr>)) ?z"
    by (simp add: voting_committee_def c testbed_mempool_entry_def comp_def)
  have vt: "total_stake (voting_committee (mempool_committee c)) = length keys"
    by (simp add: total_stake_def voting comp_def map_replicate_const sum_list_replicate)
  have mok: "mempool_committee_ok (mempool_committee c)"
    using True assms names_zip [of keys] by (simp add: mempool_committee_ok_def committee_ok_def vt) (simp add: voting comp_def)
  have mw: "mempool_stake (mempool_committee c) k = stake (consensus_committee c) k" for k
  proof -
    have "\<forall>e\<in>set (mempool_authorities (mempool_committee c)). mempool_authority_stake (snd e) = 1"
      by (auto simp: c(3) testbed_mempool_entry_def)
    from map_of_const [of _ mempool_authority_stake, OF this] show ?thesis unfolding mempool_stake_def w set(2) by simp
  qed
  have q: "unat (quorum_threshold (consensus_committee c)) = 2 * length keys div 3 + 1"
    and mq: "unat (mempool_quorum_threshold (mempool_committee c)) = 2 * length keys div 3 + 1"
    using unat_quorum_threshold [of "consensus_committee c"] unat_quorum_threshold [of "voting_committee (mempool_committee c)"]
      True total vt by (simp_all add: voting_committee_simps)
  then have "mempool_quorum_threshold (mempool_committee c) = quorum_threshold (consensus_committee c)"
    by (simp add: word_unat_eq_iff)
  then show ?thesis
    using True c(1) ok mok set w mw q by (auto simp: names_def mempool_names_def)
next
  case False
  then show ?thesis using testbed_committee_run(2) [OF assms] by simp
qed

section \<open>Properties\<close>

text \<open>
  C37. What a configuration file is read back as. Writing an exported value to a path that can be written succeeds;
  reading the path then gives the value back exactly when what the old content of the file has beyond the length
  of the new one is blank, as for a new file or a longer value, and it is an error otherwise: the file is not
  truncated.
\<close>

theorem export_roundtrip:
  assumes "json_ok J {x}" and "can_write fs path"
  shows "\<exists>bs fs'. to_json J x = Some bs \<and> export_write J x path fs = (Ok (), fs')
    \<and> (export_read J path fs' = Ok x \<longleftrightarrow> list_all blank (stale fs path (length bs + 1)))
    \<and> (\<not> list_all blank (stale fs path (length bs + 1)) \<longrightarrow> (\<exists>e. export_read J path fs' = Err (ReadError path e)))"
proof -
  obtain bs where bs: "to_json J x = Some bs" using json_okD [OF assms(1)] by blast
  let ?fs = "fs\<lparr>files := (files fs)(path \<mapsto> bs @ 10 # stale fs path (length bs + 1))\<rparr>"
  have "files ?fs path = Some (bs @ 10 # stale fs path (length bs + 1))" by simp
  from export_read_back [OF assms(1) _ bs this] export_write_run [OF assms(2) bs] bs show ?thesis by blast
qed

text \<open>
  C38. The committees of a testbed agree. With distinct keys, up to 40,336 nodes, both committees are well formed, have
  the same members, each with stake 1, and the same quorum threshold, two thirds of the nodes and one more; with
  more nodes the deployment panics on a port that does not exist.
\<close>

theorem testbed_committees_agree:
  assumes "distinct (map secret_name keys)"
  shows "if length keys \<le> 40336
    then \<exists>c. testbed_committee keys = Ok c \<and> committee_ok (consensus_committee c) \<and> mempool_committee_ok (mempool_committee c)
      \<and> names (consensus_committee c) = secret_name ` set keys \<and> mempool_names (mempool_committee c) = secret_name ` set keys
      \<and> (\<forall>k. stake (consensus_committee c) k = (if k \<in> secret_name ` set keys then 1 else 0)
           \<and> mempool_stake (mempool_committee c) k = stake (consensus_committee c) k)
      \<and> unat (quorum_threshold (consensus_committee c)) = 2 * length keys div 3 + 1
      \<and> mempool_quorum_threshold (mempool_committee c) = quorum_threshold (consensus_committee c)
    else testbed_committee keys = Panic ''called `Result::unwrap()` on an `Err` value''"
  by (rule testbed_committees [OF assms])

text \<open>All addresses of a testbed, one list after the other: for clients, for mempools, for the consensus.\<close>

definition testbed_addresses :: "node_committee \<Rightarrow> socket_addr list" where
  "testbed_addresses c = map (authority_transactions_address \<circ> snd) (mempool_authorities (mempool_committee c))
     @ map (authority_mempool_address \<circ> snd) (mempool_authorities (mempool_committee c))
     @ map (authority_address \<circ> snd) (authorities (consensus_committee c))"

text \<open>
  A testbed has room for 100 nodes. The addresses of the nodes for clients, for mempools and for the consensus are
  all different exactly when there are at most 100 nodes: the address at which the node with index 100 listens to
  clients is that of the mempool of the first node.
\<close>

theorem testbed_ports:
  assumes "distinct (map secret_name keys)" and "testbed_committee keys = Ok c"
  shows "distinct (testbed_addresses c) \<longleftrightarrow> length keys \<le> 100"
proof -
  let ?n = "length keys"
  have le: "?n \<le> 40336" using testbed_committee_run(2) [OF assms(1)] assms(2) by (cases "?n \<le> 40336") auto
  have c: "authorities (consensus_committee c) = map testbed_consensus_entry (zip [0 ..< ?n] keys)"
    "mempool_authorities (mempool_committee c) = map testbed_mempool_entry (zip [0 ..< ?n] keys)"
    using testbed_committee_run(1) [OF assms(1) le] assms(2) by auto
  have shift: "map (\<lambda>j. local_port (k + j)) [0 ..< ?n] = map local_port [k ..< k + ?n]" for k
    by (rule nth_equalityI) simp_all
  have ports: "testbed_addresses c = map local_port ([0 ..< ?n] @ [100 ..< 100 + ?n] @ [200 ..< 200 + ?n])"
    using shift [of 100] shift [of 200] map_entry_port [of "[0 ..< ?n]" keys local_port]
      map_entry_port [of "[0 ..< ?n]" keys "\<lambda>j. local_port (100 + j)"]
      map_entry_port [of "[0 ..< ?n]" keys "\<lambda>j. local_port (200 + j)"]
    by (simp add: testbed_addresses_def c comp_def testbed_consensus_entry_def testbed_mempool_entry_def)
  have "inj_on local_port (set ([0 ..< ?n] @ [100 ..< 100 + ?n] @ [200 ..< 200 + ?n]))"
    by (rule inj_on_subset [OF local_port_inj]) (use le in auto)
  then have "distinct (testbed_addresses c) \<longleftrightarrow> distinct ([0 ..< ?n] @ [100 ..< 100 + ?n] @ [200 ..< 200 + ?n])"
    unfolding ports by (simp only: distinct_map simp_thms)
  also have "\<dots> \<longleftrightarrow> ?n \<le> 100"
  proof (cases "?n \<le> 100")
    case False
    then have "100 \<in> {0 ..< ?n} \<inter> {100 ..< 100 + ?n}" by auto
    with False show ?thesis by (auto simp del: Int_iff)
  qed auto
  finally show ?thesis .
qed

text \<open>
  The nodes of a testbed start. On a file system that can be written, whatever it held, \<open>deploy_testbed\<close>
  returns, and every node it spawns reads from its files the committees of the testbed and its own name and
  secret, with the default parameters.
\<close>

theorem deployed_nodes_start:
  assumes "json_ok JC {c}" and "json_ok JS (set keys)" and "\<forall>path. can_write fs path" and "testbed_committee keys = Ok c"
  shows "\<exists>fs'. deploy_testbed JC JS keys fs = (Ok (map (\<lambda>j. (committee_path, node_file j)) [0 ..< length keys]), fs')
    \<and> (\<forall>j < length keys. node_new JC JS JP committee_path (node_file j) None fs' =
         (Ok \<lparr>node_name = secret_name (keys ! j), node_secret = secret_secret (keys ! j), node_committees = c,
            node_params = node_parameters_default\<rparr>, fs'))"
proof -
  obtain bs where bs: "to_json JC c = Some bs" using json_okD [OF assms(1)] by blast
  let ?fs1 = "fs\<lparr>files := (files fs)(committee_path := None)\<rparr>"
  let ?fs2 = "?fs1\<lparr>files := (files ?fs1)(committee_path \<mapsto> bs @ [10])\<rparr>"
  have w: "export_write JC c committee_path ?fs1 = (Ok (), ?fs2)"
    using export_write_run [OF _ bs, of ?fs1 committee_path] assms(3) by (simp add: stale_def)
  have "\<forall>path. can_write ?fs2 path" using assms(3) by simp
  from deploy_nodes_run [OF assms(2) this, of keys 0] obtain fs' where fs':
    "deploy_nodes JS 0 keys ?fs2 = (Ok (map (\<lambda>j. (committee_path, node_file j)) [0 ..< length keys]), fs')"
    "\<And>j. j < length keys \<Longrightarrow> \<exists>bs. to_json JS (keys ! j) = Some bs \<and> files fs' (node_file j) = Some (bs @ [10])"
    "files fs' committee_path = Some (bs @ [10])"
    using node_file_committee by (auto simp: eq_commute [of committee_path])
  have "deploy_testbed JC JS keys fs = (Ok (map (\<lambda>j. (committee_path, node_file j)) [0 ..< length keys]), fs')"
    using w fs'(1) assms(3,4) by (simp add: deploy_testbed_def bnd_def sq_def remove_file_def modify_def)
  moreover have "node_new JC JS JP committee_path (node_file j) None fs' =
      (Ok \<lparr>node_name = secret_name (keys ! j), node_secret = secret_secret (keys ! j), node_committees = c,
          node_params = node_parameters_default\<rparr>, fs')" if j: "j < length keys" for j
  proof -
    obtain bs' where bs': "to_json JS (keys ! j) = Some bs'" "files fs' (node_file j) = Some (bs' @ [10])"
      using fs'(2) [OF j] by blast
    have "export_read JC committee_path fs' = Ok c"
      using export_read_back(1) [OF assms(1) _ bs, of fs' committee_path "[]"] fs'(3) by simp
    moreover have "export_read JS (node_file j) fs' = Ok (keys ! j)"
      using export_read_back(1) [OF assms(2) nth_mem [OF j] bs'(1), of fs' "node_file j" "[]"] bs'(2) by simp
    ultimately show ?thesis by (simp add: node_new_def bnd_def ret_def)
  qed
  ultimately show ?thesis by blast
qed

end
