(* ===== verification/Texts.thy ===== *)
theory Texts
  imports Node Core_Safety
begin

text \<open>
  The texts in which \<open>Debug\<close> and \<open>Display\<close> of \<open>consensus/src/messages.rs\<close> print the messages, as they go to the log. The scripts
  read blocks in the log by these texts. Digests and keys are printed by the first 16 letters of their base64 text, which panics when there
  are fewer.
\<close>

section \<open>Messages\<close>

text \<open>\<open>write!\<close> with several arguments prints one after the other.\<close>

primrec texts :: "(unit, string) outcome list \<Rightarrow> (unit, string) outcome" where
  "texts [] = Ok []"
| "texts (x # xs) =
     (case x of
        Ok a \<Rightarrow> (case texts xs of Ok b \<Rightarrow> Ok (a @ b) | r \<Rightarrow> r)
      | r \<Rightarrow> r)"

definition number :: "'a::len word \<Rightarrow> (unit, string) outcome" where
  "number w = Ok (decimal (unat w))"

definition qc_debug :: "base64 \<Rightarrow> qc \<Rightarrow> (unit, string) outcome" where
  "qc_debug B q = texts [Ok ''QC('', digest_display B (qc_hash q), Ok '', '', number (qc_round q), Ok '')'']"

definition vote_debug :: "base64 \<Rightarrow> vote \<Rightarrow> (unit, string) outcome" where
  "vote_debug B v = texts [Ok ''V('', public_key_display B (vote_author v), Ok '', '', number (vote_round v), Ok '', '',
     digest_display B (vote_hash v), Ok '')'']"

definition timeout_debug :: "base64 \<Rightarrow> timeout \<Rightarrow> (unit, string) outcome" where
  "timeout_debug B t = texts [Ok ''TV('', public_key_display B (timeout_author t), Ok '', '', number (timeout_round t), Ok '', '',
     qc_debug B (timeout_high_qc t), Ok '')'']"

text \<open>\<open>Debug\<close> of a \<open>Vec<u64>\<close>.\<close>

fun listing :: "u64 list \<Rightarrow> (unit, string) outcome" where
  "listing [] = Ok []"
| "listing [r] = number r"
| "listing (r # rs) = texts [number r, Ok '', '', listing rs]"

definition tc_debug :: "base64 \<Rightarrow> tc \<Rightarrow> (unit, string) outcome" where
  "tc_debug B t = texts [Ok ''TC('', number (tc_round t), Ok '', ['', listing (high_qc_rounds t), Ok ''])'']"

text \<open>\<open>Digest::size\<close>, and its sum over the payload, in \<open>usize\<close>.\<close>

definition digest_size :: "digest \<Rightarrow> u64" where
  "digest_size d = of_nat (length (digest_bytes d))"

definition block_debug :: "base64 \<Rightarrow> 'k dalek \<Rightarrow> block \<Rightarrow> (unit, string) outcome" where
  "block_debug B D b = texts [digest_display B (block_digest D b), Ok '': B('', public_key_display B (block_author b), Ok '', '',
     number (block_round b), Ok '', '', qc_debug B (block_qc b), Ok '', '', number (sum_list (map digest_size (block_payload b))), Ok '')'']"

definition block_display :: "block \<Rightarrow> (unit, string) outcome" where
  "block_display b = texts [Ok ''B'', number (block_round b)]"

section \<open>Printing\<close>

lemma texts_append: "texts (xs @ ys) = (case texts xs of Ok a \<Rightarrow> (case texts ys of Ok b \<Rightarrow> Ok (a @ b) | r \<Rightarrow> r) | r \<Rightarrow> r)"
  by (induction xs) (auto split: outcome.split)

lemma texts_Ok: "\<forall>x\<in>set xs. \<exists>a. x = Ok a \<Longrightarrow> \<exists>a. texts xs = Ok a"
  by (induction xs) auto

lemma listing_Ok: "\<exists>a. listing rs = Ok a"
  by (induction rs rule: listing.induct) (auto simp: number_def)

lemma display_Ok:
  assumes "base64_ok B"
  shows "digest_wf d \<Longrightarrow> \<exists>a. digest_display B d = Ok a" and "public_key_wf k \<Longrightarrow> \<exists>a. public_key_display B k = Ok a"
proof -
  have "\<exists>a. short_text (b64_encode B bs) = Ok a" if "length bs = 32" for bs
  proof -
    have "4 * length bs \<le> 3 * length (b64_encode B bs)" using assms by (auto simp: base64_ok_def)
    with that show ?thesis by (simp add: short_text_def)
  qed
  then show "digest_wf d \<Longrightarrow> \<exists>a. digest_display B d = Ok a" and "public_key_wf k \<Longrightarrow> \<exists>a. public_key_display B k = Ok a"
    by (auto simp: digest_display_def public_key_display_def public_key_encode_base64_def digest_wf_def public_key_wf_def)
qed

lemma qc_debug_Ok: "base64_ok B \<Longrightarrow> digest_wf (qc_hash q) \<Longrightarrow> \<exists>a. qc_debug B q = Ok a"
  using display_Ok(1) [of B "qc_hash q"] by (auto simp: qc_debug_def number_def)

section \<open>Properties\<close>

text \<open>
  What is logged does not panic, and blocks are told apart by their rounds. With digests and keys of 32 bytes, as they all have, every message can
  be printed; and the short texts of two blocks are the same exactly when their rounds are.
\<close>

theorem messages_print:
  assumes "base64_ok B" and "sha512_ok D" and "public_key_wf (block_author b)" and "digest_wf (qc_hash (block_qc b))"
    and "public_key_wf (vote_author v)" and "digest_wf (vote_hash v)"
    and "public_key_wf (timeout_author t)" and "digest_wf (qc_hash (timeout_high_qc t))"
  shows "(\<exists>s. block_debug B D b = Ok s) \<and> (\<exists>s. vote_debug B v = Ok s) \<and> (\<exists>s. timeout_debug B t = Ok s) \<and> (\<exists>s. tc_debug B c = Ok s)
    \<and> (block_display b = block_display b' \<longleftrightarrow> block_round b = block_round b')"
proof -
  have "digest_wf (block_digest D b)" using assms(2) by (simp add: digest_wf_def block_digest_def hash32_def sha512_ok_def)
  then have "\<exists>s. block_debug B D b = Ok s"
    using display_Ok [OF assms(1)] qc_debug_Ok [OF assms(1,4)] assms(3) unfolding block_debug_def
    by (intro texts_Ok) (simp add: number_def)
  moreover have "\<exists>s. vote_debug B v = Ok s"
    using display_Ok [OF assms(1)] assms(5,6) unfolding vote_debug_def by (intro texts_Ok) (simp add: number_def)
  moreover have "\<exists>s. timeout_debug B t = Ok s"
    using display_Ok [OF assms(1)] qc_debug_Ok [OF assms(1,8)] assms(7) unfolding timeout_debug_def
    by (intro texts_Ok) (simp add: number_def)
  moreover have "\<exists>s. tc_debug B c = Ok s"
    using listing_Ok [of "high_qc_rounds c"] unfolding tc_debug_def by (intro texts_Ok) (simp add: number_def)
  moreover have "block_display b = block_display b' \<longleftrightarrow> block_round b = block_round b'"
    by (simp add: block_display_def number_def decimal_inj word_unat_eq_iff)
  ultimately show ?thesis by blast
qed

end
