(* ===== verification/Mempool_Wire.thy ===== *)
theory Mempool_Wire
  imports Mempool_Config Store Tasks Crypto
begin

text \<open>
  What the tasks of the mempool share: the messages of \<open>mempool/src/mempool.rs\<close>, what a mempool is started with
  and the functions of \<open>bincode\<close> it uses, the store and what is sent to other nodes and to the consensus, and the
  two handlers of the network receivers.
\<close>

section \<open>Messages\<close>

type_synonym transaction = bytes
type_synonym batch = "transaction list"

datatype mempool_message =
    Batch batch
  | BatchRequest "digest list" public_key

datatype mempool_effect =
    Mp_send socket_addr bytes
  | Mp_digest digest
  | Mp_notify store_reply

record ('k, 'db) mempool_env =
  mp_dalek :: "'k dalek"
  mp_rocksdb :: "'db rocksdb"
  ser_mempool :: "mempool_message \<Rightarrow> bytes option"
  de_mempool :: "bytes \<Rightarrow> (unit, mempool_message) outcome"
  mp_name :: public_key
  mp_committee :: mempool_committee
  mp_parameters :: mempool_parameters

record 'db mempool_world =
  mp_store :: "'db store"
  mp_out :: "mempool_effect list"

definition mp_emit :: "mempool_effect list \<Rightarrow> (('db, 'z) mempool_world_scheme, unit, unit) proc" where
  "mp_emit es = modify (\<lambda>s. s\<lparr>mp_out := mp_out s @ es\<rparr>)"

definition mp_write ::
    "('k, 'db) mempool_env \<Rightarrow> bytes \<Rightarrow> bytes \<Rightarrow> (('db, 'z) mempool_world_scheme, unit, unit) proc" where
  "mp_write ME key value = modify (\<lambda>s.
     s\<lparr>mp_store := store_write (mp_rocksdb ME) key value (mp_store s),
       mp_out := mp_out s @ map Mp_notify (store_write_replies (mp_rocksdb ME) key value (mp_store s))\<rparr>)"

text \<open>What the store holds under a digest.\<close>

definition stored :: "('k, 'db) mempool_env \<Rightarrow> 'db store \<Rightarrow> digest \<Rightarrow> bytes option" where
  "stored ME st d = (case store_read (mp_rocksdb ME) (digest_bytes d) st of Inr v \<Rightarrow> v | Inl _ \<Rightarrow> None)"

lemma stored_write:
  "rocksdb_ok (mp_rocksdb ME) \<Longrightarrow>
   stored ME (store_write (mp_rocksdb ME) k v st) d = (if digest_bytes d = k then Some v else stored ME st d)"
  by (simp add: stored_def st.read_write_if)

lemma stored_read:
  assumes "rocksdb_ok (mp_rocksdb ME)"
  shows "store_read (mp_rocksdb ME) (digest_bytes d) st = Inr (stored ME st d)"
  using st.read_total [OF assms, of "digest_bytes d" st] by (auto simp: stored_def)

section \<open>The handlers of the receivers\<close>

text \<open>What a handler does with one frame: answer on the connection, or pass something on to a task.\<close>

datatype mempool_dispatched =
    Mp_ack
  | To_batch_maker transaction
  | To_processor bytes
  | To_mempool_helper "digest list" public_key

text \<open>The channels that the handlers send to; \<open>gone\<close> are those whose receiving task has ended.\<close>

datatype mempool_channel = Batch_maker_channel | Processor_channel | Batch_helper_channel

text \<open>\<open>TxReceiverHandler\<close>: no answer, and any frame is a transaction.\<close>

definition tx_dispatch :: "mempool_channel set \<Rightarrow> bytes \<Rightarrow> (mempool_dispatched list, unit, unit) proc" where
  "tx_dispatch gone frame =
     channel_send ''Failed to send transaction'' (Batch_maker_channel \<in> gone) (To_batch_maker frame)"

text \<open>
  \<open>MempoolReceiverHandler\<close>: the frame is acknowledged before it is looked at, a batch goes on as the bytes that
  arrived, and a frame that does not deserialize is dropped.
\<close>

definition mempool_dispatch ::
    "('k, 'db) mempool_env \<Rightarrow> mempool_channel set \<Rightarrow> bytes \<Rightarrow> (mempool_dispatched list, unit, unit) proc" where
  "mempool_dispatch ME gone serialized =
     sq (modify (\<lambda>ds. ds @ [Mp_ack]))
       (case de_mempool ME serialized of
          Ok (Batch _) \<Rightarrow> channel_send ''Failed to send batch'' (Processor_channel \<in> gone) (To_processor serialized)
        | Ok (BatchRequest missing requestor) \<Rightarrow>
            channel_send ''Failed to send batch request'' (Batch_helper_channel \<in> gone) (To_mempool_helper missing requestor)
        | Err _ \<Rightarrow> ret ()
        | Panic p \<Rightarrow> panic p
        | Diverge \<Rightarrow> (\<lambda>s. (Diverge, s)))"

text \<open>\<open>bincode\<close> gives back what it serialized, and every message of the node can be serialized.\<close>

definition mempool_bincode_ok :: "('k, 'db) mempool_env \<Rightarrow> bool" where
  "mempool_bincode_ok ME \<longleftrightarrow> (\<forall>m. \<exists>b. ser_mempool ME m = Some b \<and> de_mempool ME b = Ok m)"

end
