(* ===== verification/Batch_Maker.thy ===== *)
theory Batch_Maker
  imports Mempool_Wire
begin

text \<open>
  \<open>mempool/src/batch_maker.rs\<close>: the task that assembles the transactions of clients into batches and broadcasts
  them. \<open>bincode::serialize\<close> of a batch message is a parameter. The log entries of the feature \<open>benchmark\<close> look
  at the first byte of every transaction; the flag of the model is that feature.
\<close>

section \<open>The task\<close>




text \<open>What a batch maker is started with, and the serialization of \<open>MempoolMessage::Batch\<close>.\<close>

record batch_config =
  bm_batch_size :: u64
  bm_max_batch_delay :: u64
  bm_addresses :: "(public_key \<times> socket_addr) list"
  bm_benchmark :: bool
  bm_serialize :: "batch \<Rightarrow> bytes option"

text \<open>
  A sealed batch goes to the network and to the quorum waiter, with the names of the peers whose handlers it
  awaits; \<open>Timer_reset\<close> is the new deadline of the timer, in milliseconds from the call.
\<close>

datatype batch_effect =
    Batch_broadcast "socket_addr list" bytes
  | To_quorum_waiter bytes "public_key list"
  | Timer_reset u64

record batch_maker =
  current_batch :: batch
  current_batch_size :: u64
  bm_out :: "batch_effect list"

type_synonym batch_proc = "(batch_maker, unit, unit) proc"

definition batch_maker_new :: batch_maker where
  "batch_maker_new = \<lparr>current_batch = [], current_batch_size = 0, bm_out = []\<rparr>"

definition bm_emit :: "batch_effect list \<Rightarrow> batch_proc" where
  "bm_emit es = modify (\<lambda>s. s\<lparr>bm_out := bm_out s @ es\<rparr>)"

definition seal :: "batch_config \<Rightarrow> batch_proc" where
  "seal C =
     bnd (gets current_batch) (\<lambda>batch.
     sq (if bm_benchmark C \<and> [] \<in> set batch then panic ''index out of bounds'' else ret ())
     (sq (modify (\<lambda>s. s\<lparr>current_batch_size := 0, current_batch := []\<rparr>))
     (case bm_serialize C batch of
        None \<Rightarrow> panic ''Failed to serialize our own batch''
      | Some serialized \<Rightarrow>
          bm_emit [Batch_broadcast (map snd (bm_addresses C)) serialized,
                   To_quorum_waiter serialized (map fst (bm_addresses C))])))"

definition reset_timer :: "batch_config \<Rightarrow> batch_proc" where
  "reset_timer C = bm_emit [Timer_reset (bm_max_batch_delay C)]"

datatype batch_event = Transaction transaction | Batch_timer

definition batch_handle :: "batch_config \<Rightarrow> batch_event \<Rightarrow> batch_proc" where
  "batch_handle C ev =
     (case ev of
        Transaction tx \<Rightarrow>
          sq (modify (\<lambda>s. s\<lparr>current_batch_size := current_batch_size s + of_nat (length tx),
                current_batch := current_batch s @ [tx]\<rparr>))
            (bnd (gets (\<lambda>s. current_batch_size s \<ge> bm_batch_size C)) (\<lambda>full.
             if full then sq (seal C) (reset_timer C) else ret ()))
      | Batch_timer \<Rightarrow>
          bnd (gets current_batch) (\<lambda>batch.
          sq (if batch \<noteq> [] then seal C else ret ()) (reset_timer C)))"

definition batch_run :: "batch_config \<Rightarrow> batch_event list \<Rightarrow> (unit, unit) outcome \<times> batch_maker" where
  "batch_run C evs = run_all (batch_handle C) evs batch_maker_new"

section \<open>What happens to the transactions\<close>

definition transactions :: "batch_event list \<Rightarrow> transaction list" where
  "transactions evs = concat (map (\<lambda>ev. case ev of Transaction tx \<Rightarrow> [tx] | Batch_timer \<Rightarrow> []) evs)"

definition sealed :: "batch_effect list \<Rightarrow> bytes list" where
  "sealed es = concat (map (\<lambda>e. case e of To_quorum_waiter b _ \<Rightarrow> [b] | _ \<Rightarrow> []) es)"

definition size_of :: "batch \<Rightarrow> nat" where
  "size_of b = sum_list (map length b)"

text \<open>The batches that a batch maker seals, as a function of the events: cut by size or by the timer.\<close>

fun cut :: "nat \<Rightarrow> batch \<Rightarrow> batch_event list \<Rightarrow> batch list \<times> batch" where
  "cut limit cur [] = ([], cur)"
| "cut limit cur (Transaction tx # evs) =
     (if limit \<le> size_of (cur @ [tx]) then (case cut limit [] evs of (bs, rest) \<Rightarrow> ((cur @ [tx]) # bs, rest))
      else cut limit (cur @ [tx]) evs)"
| "cut limit cur (Batch_timer # evs) =
     (if cur \<noteq> [] then (case cut limit [] evs of (bs, rest) \<Rightarrow> (cur # bs, rest)) else cut limit cur evs)"

lemma cut_concat: "cut limit cur evs = (bs, rest) \<Longrightarrow> concat bs @ rest = cur @ transactions evs"
  by (induction limit cur evs arbitrary: bs rest rule: cut.induct)
    (auto simp: transactions_def split: if_splits prod.splits)

lemma cut_sizes:
  assumes "cut limit cur evs = (bs, rest)" and "size_of cur < limit \<or> cur = []"
  shows "[] \<notin> set bs \<and> (size_of rest < limit \<or> rest = [])
    \<and> (\<forall>b\<in>set bs. size_of (butlast b) < limit \<or> butlast b = [])"
  using assms
proof (induction limit cur evs arbitrary: bs rest rule: cut.induct)
  case (2 limit cur tx evs)
  then show ?case by (auto split: if_splits prod.splits)
next
  case (3 limit cur evs)
  have "size_of (butlast cur) \<le> size_of cur" by (cases cur rule: rev_cases) (auto simp: size_of_def)
  with 3 show ?case by (auto split: if_splits prod.splits)
qed simp

section \<open>Refinement\<close>

text \<open>What one sealed batch sends.\<close>

definition seal_effects :: "batch_config \<Rightarrow> batch \<Rightarrow> batch_effect list" where
  "seal_effects C b = (case bm_serialize C b of None \<Rightarrow> []
     | Some bytes \<Rightarrow> [Batch_broadcast (map snd (bm_addresses C)) bytes, To_quorum_waiter bytes (map fst (bm_addresses C))])"

definition no_reset :: "batch_effect \<Rightarrow> bool" where
  "no_reset e \<longleftrightarrow> (case e of Timer_reset _ \<Rightarrow> False | _ \<Rightarrow> True)"

definition batch_env_ok :: "batch_config \<Rightarrow> batch_event list \<Rightarrow> bool" where
  "batch_env_ok C evs \<longleftrightarrow> (\<forall>b. bm_serialize C b \<noteq> None) \<and> (bm_benchmark C \<longrightarrow> [] \<notin> set (transactions evs))
     \<and> size_of (transactions evs) < 2 ^ 64"

lemma seal_run:
  assumes "bm_serialize C (current_batch s) \<noteq> None" and "bm_benchmark C \<longrightarrow> [] \<notin> set (current_batch s)"
  shows "seal C s = (Ok (), s\<lparr>current_batch := [], current_batch_size := 0,
      bm_out := bm_out s @ seal_effects C (current_batch s)\<rparr>)"
  using assms
  by (cases "bm_serialize C (current_batch s)") (auto simp: seal_def proc_simps bm_emit_def seal_effects_def)

lemma no_reset_Timer [simp]: "\<not> no_reset (Timer_reset n)"
  by (simp add: no_reset_def)

lemma filter_seal_effects: "filter no_reset (seal_effects C b) = seal_effects C b"
  by (simp add: seal_effects_def no_reset_def split: option.split)

lemma transactions_Cons:
  "transactions (Transaction tx # evs) = tx # transactions evs" "transactions (Batch_timer # evs) = transactions evs"
  "transactions [] = []"
  by (simp_all add: transactions_def)

lemma size_of_simps [simp]: "size_of [] = 0" "size_of (b @ b') = size_of b + size_of b'" "size_of (tx # b) = length tx + size_of b"
  by (simp_all add: size_of_def)

text \<open>One event against \<open>cut\<close>: it completes the batches \<open>bs\<close>, and what is left is the current batch.\<close>

definition cuts :: "batch_config \<Rightarrow> batch_event \<Rightarrow> batch_maker \<Rightarrow> batch list \<Rightarrow> batch_maker \<Rightarrow> bool" where
  "cuts C ev s bs t \<longleftrightarrow> batch_handle C ev s = (Ok (), t) \<and> unat (current_batch_size t) = size_of (current_batch t)
     \<and> current_batch s @ transactions [ev] = concat bs @ current_batch t
     \<and> filter no_reset (bm_out t) = filter no_reset (bm_out s) @ concat (map (seal_effects C) bs)
     \<and> (\<forall>evs. cut (unat (bm_batch_size C)) (current_batch s) (ev # evs)
          = (case cut (unat (bm_batch_size C)) (current_batch t) evs of (bs', rest) \<Rightarrow> (bs @ bs', rest)))"

definition sealed_state :: "batch_config \<Rightarrow> batch_maker \<Rightarrow> batch_maker" where
  "sealed_state C s = s\<lparr>current_batch := [], current_batch_size := 0,
     bm_out := (bm_out s @ seal_effects C (current_batch s)) @ [Timer_reset (bm_max_batch_delay C)]\<rparr>"

lemma transaction_cuts:
  assumes ser: "\<forall>b. bm_serialize C b \<noteq> None" and bench: "bm_benchmark C \<longrightarrow> [] \<notin> set (current_batch s @ [tx])"
    and fits: "size_of (current_batch s) + length tx < 2 ^ 64" and size: "unat (current_batch_size s) = size_of (current_batch s)"
  shows "\<exists>bs t. cuts C (Transaction tx) s bs t"
proof -
  let ?s = "s\<lparr>current_batch_size := current_batch_size s + of_nat (length tx), current_batch := current_batch s @ [tx]\<rparr>"
  have "unat (of_nat (length tx) :: u64) = length tx" using fits by (intro unat_of_nat_small) simp
  then have size': "unat (current_batch_size ?s) = size_of (current_batch s @ [tx])"
    using fits size by (simp, subst unat_add_no_overflow) simp_all
  show ?thesis
  proof (cases "bm_batch_size C \<le> current_batch_size ?s")
    case True
    then have full: "unat (bm_batch_size C) \<le> size_of (current_batch s @ [tx])"
      using size' by (simp add: word_le_nat_alt)
    have "batch_handle C (Transaction tx) s = (Ok (), sealed_state C ?s)"
      using True spec [OF ser, of "current_batch s @ [tx]"] bench
      by (simp add: batch_handle_def proc_simps seal_run reset_timer_def bm_emit_def sealed_state_def)
    then have "cuts C (Transaction tx) s [current_batch s @ [tx]] (sealed_state C ?s)"
      using full by (simp add: cuts_def transactions_def filter_seal_effects sealed_state_def)
    then show ?thesis by blast
  next
    case False
    then have part: "\<not> unat (bm_batch_size C) \<le> size_of (current_batch s @ [tx])"
      using size' by (simp add: word_le_nat_alt)
    have "batch_handle C (Transaction tx) s = (Ok (), ?s)"
      using False by (simp add: batch_handle_def proc_simps)
    then have "cuts C (Transaction tx) s [] ?s"
      using part size' by (simp add: cuts_def transactions_def)
    then show ?thesis by blast
  qed
qed

lemma timer_cuts:
  assumes ser: "\<forall>b. bm_serialize C b \<noteq> None" and bench: "bm_benchmark C \<longrightarrow> [] \<notin> set (current_batch s)"
    and size: "unat (current_batch_size s) = size_of (current_batch s)"
  shows "\<exists>bs t. cuts C Batch_timer s bs t"
proof (cases "current_batch s = []")
  case True
  let ?s = "s\<lparr>bm_out := bm_out s @ [Timer_reset (bm_max_batch_delay C)]\<rparr>"
  have "batch_handle C Batch_timer s = (Ok (), ?s)"
    using True by (simp add: batch_handle_def proc_simps reset_timer_def bm_emit_def)
  then have "cuts C Batch_timer s [] ?s" using True size by (simp add: cuts_def transactions_def)
  then show ?thesis by blast
next
  case False
  have "batch_handle C Batch_timer s = (Ok (), sealed_state C s)"
    using False spec [OF ser, of "current_batch s"] bench
    by (simp add: batch_handle_def proc_simps seal_run reset_timer_def bm_emit_def sealed_state_def)
  then have "cuts C Batch_timer s [current_batch s] (sealed_state C s)"
    using False by (simp add: cuts_def transactions_def filter_seal_effects sealed_state_def)
  then show ?thesis by blast
qed

lemma batch_loop_refines:
  assumes "\<forall>b. bm_serialize C b \<noteq> None"
    and "bm_benchmark C \<longrightarrow> [] \<notin> set (current_batch s @ transactions evs)"
    and "size_of (current_batch s @ transactions evs) < 2 ^ 64"
    and "unat (current_batch_size s) = size_of (current_batch s)"
    and "cut (unat (bm_batch_size C)) (current_batch s) evs = (bs, rest)"
  shows "\<exists>t. run_all (batch_handle C) evs s = (Ok (), t) \<and> current_batch t = rest
    \<and> unat (current_batch_size t) = size_of rest
    \<and> filter no_reset (bm_out t) = filter no_reset (bm_out s) @ concat (map (seal_effects C) bs)"
  using assms(2-)
proof (induction evs arbitrary: s bs)
  case Nil
  then show ?case by (auto simp: ret_def)
next
  case (Cons ev evs)
  have "\<exists>bs1 u. cuts C ev s bs1 u"
    using Cons.prems(1-3) transaction_cuts [OF assms(1)] timer_cuts [OF assms(1)]
    by (cases ev) (auto simp: transactions_Cons)
  then obtain bs1 u where u: "cuts C ev s bs1 u" by blast
  obtain bs2 where bs: "cut (unat (bm_batch_size C)) (current_batch u) evs = (bs2, rest)" "bs = bs1 @ bs2"
    using u Cons.prems(4) by (auto simp: cuts_def split: prod.splits)
  have same: "current_batch s @ transactions (ev # evs) = concat bs1 @ current_batch u @ transactions evs"
    using u by (simp add: cuts_def transactions_def)
  have "\<exists>t. run_all (batch_handle C) evs u = (Ok (), t) \<and> current_batch t = rest \<and> unat (current_batch_size t) = size_of rest
      \<and> filter no_reset (bm_out t) = filter no_reset (bm_out u) @ concat (map (seal_effects C) bs2)"
    by (rule Cons.IH) (use Cons.prems(1,2) bs u in \<open>simp_all only: same cuts_def size_of_simps set_append Un_iff de_Morgan_disj, simp_all\<close>)
  then show ?case using u by (auto simp: cuts_def run_sq bs(2))
qed

section \<open>Properties\<close>

lemma batch_maker_loop:
  assumes "batch_env_ok C evs"
  shows "\<exists>bs s. batch_run C evs = (Ok (), s)
    \<and> cut (unat (bm_batch_size C)) [] evs = (bs, current_batch s)
    \<and> concat bs @ current_batch s = transactions evs
    \<and> filter no_reset (bm_out s) = concat (map (seal_effects C) bs)
    \<and> unat (current_batch_size s) = size_of (current_batch s)"
proof -
  obtain bs rest where c: "cut (unat (bm_batch_size C)) [] evs = (bs, rest)"
    by (cases "cut (unat (bm_batch_size C)) [] evs")
  have "\<exists>t. run_all (batch_handle C) evs batch_maker_new = (Ok (), t) \<and> current_batch t = rest
    \<and> unat (current_batch_size t) = size_of rest
    \<and> filter no_reset (bm_out t) = filter no_reset (bm_out batch_maker_new) @ concat (map (seal_effects C) bs)"
    by (rule batch_loop_refines)
      (use assms c in \<open>simp_all add: batch_env_ok_def batch_maker_new_def\<close>)
  then show ?thesis using c cut_concat [OF c] by (auto simp: batch_run_def batch_maker_new_def)
qed

text \<open>
  C19. The batch maker refines a cutting of the stream of transactions. When batches can be serialized, fewer than
  2^64 bytes arrive and (with the feature \<open>benchmark\<close>) no transaction is empty, every run over transactions and
  timer expiries returns; the sealed batches and the batch at the end, put together, are the transactions
  received, in order, none lost and none twice; each sealed batch is not empty, is broadcast to all peers and then
  handed to the quorum waiter with the peers as acknowledgers, and was below the batch size before its last
  transaction; and the size that is kept is the size of the current batch.
\<close>

theorem batch_maker_refines_cut:
  assumes "batch_env_ok C evs"
  shows "\<exists>bs s. batch_run C evs = (Ok (), s)
    \<and> cut (unat (bm_batch_size C)) [] evs = (bs, current_batch s)
    \<and> concat bs @ current_batch s = transactions evs
    \<and> filter no_reset (bm_out s) = concat (map (seal_effects C) bs)
    \<and> unat (current_batch_size s) = size_of (current_batch s)
    \<and> (\<forall>b\<in>set bs. b \<noteq> [] \<and> (size_of (butlast b) < unat (bm_batch_size C) \<or> butlast b = []))"
proof -
  obtain bs s where *: "batch_run C evs = (Ok (), s)" "cut (unat (bm_batch_size C)) [] evs = (bs, current_batch s)"
    "concat bs @ current_batch s = transactions evs" "filter no_reset (bm_out s) = concat (map (seal_effects C) bs)"
    "unat (current_batch_size s) = size_of (current_batch s)"
    using batch_maker_loop [OF assms] by blast
  moreover have "\<forall>b\<in>set bs. b \<noteq> [] \<and> (size_of (butlast b) < unat (bm_batch_size C) \<or> butlast b = [])"
    using cut_sizes [OF *(2)] by auto
  ultimately show ?thesis by blast
qed

theorem batch_maker_refines_cut_witness:
  "\<exists>s. batch_run \<lparr>bm_batch_size = 2, bm_max_batch_delay = 100, bm_addresses = [], bm_benchmark = True,
        bm_serialize = \<lambda>b. Some (concat b)\<rparr>
      [Transaction [1], Batch_timer, Transaction [2, 3], Transaction [4]] = (Ok (), s)
    \<and> concat [[[1]], [[2, 3]]] @ current_batch s = [[1], [2, 3], [4 :: u8]]"
  using batch_maker_refines_cut [of "\<lparr>bm_batch_size = 2, bm_max_batch_delay = 100, bm_addresses = [], bm_benchmark = True,
        bm_serialize = \<lambda>b. Some (concat b)\<rparr>" "[Transaction [1], Batch_timer, Transaction [2, 3], Transaction [4]]"]
  by (auto simp: batch_env_ok_def transactions_Cons)

text \<open>
  With the feature \<open>benchmark\<close>, one empty transaction stops the batch maker. The log entry indexes the first
  byte of every transaction, so the seal of a batch with an empty transaction panics before anything of it is
  broadcast: after an empty first transaction, however the events go on, the task ends or has sealed nothing.
\<close>

theorem batch_maker_empty_transaction:
  fixes C :: batch_config and evs :: "batch_event list"
  shows "let C' = C\<lparr>bm_benchmark := True\<rparr>; (r, s) = batch_run C' (Transaction [] # evs) in
    sealed (bm_out s) = [] \<and> (Batch_timer \<in> set evs \<longrightarrow> r = Panic ''index out of bounds'')"
proof -
  let ?C = "C\<lparr>bm_benchmark := True\<rparr>"
  let ?bad = "\<lambda>s. [] \<in> set (current_batch s) \<and> sealed (bm_out s) = []"
  have seal: "seal ?C s = (Panic ''index out of bounds'', s)" if "?bad s" for s
    using that by (simp add: seal_def proc_simps)
  have step: "?bad t \<and> (r = Ok () \<and> ev \<noteq> Batch_timer \<or> r = Panic ''index out of bounds'')"
    if "?bad s" and "batch_handle ?C ev s = (r, t)" for ev s r t
  proof (cases ev)
    case (Transaction tx)
    let ?s = "s\<lparr>current_batch_size := current_batch_size s + of_nat (length tx), current_batch := current_batch s @ [tx]\<rparr>"
    have "seal ?C ?s = (Panic ''index out of bounds'', ?s)" by (rule seal) (use that in simp)
    with that Transaction show ?thesis by (auto simp: batch_handle_def proc_simps split: if_splits)
  next
    case Batch_timer
    have "current_batch s \<noteq> []" using that(1) by auto
    with that seal [OF that(1)] Batch_timer show ?thesis by (simp add: batch_handle_def proc_simps)
  qed
  have loop: "?bad (snd (run_all (batch_handle ?C) evs s))
      \<and> (Batch_timer \<in> set evs \<longrightarrow> fst (run_all (batch_handle ?C) evs s) = Panic ''index out of bounds'')"
    if "?bad s" for evs s
    using that
  proof (induction evs arbitrary: s)
    case (Cons ev evs)
    obtain r t where h: "batch_handle ?C ev s = (r, t)" by (cases "batch_handle ?C ev s")
    from step [OF Cons.prems h] Cons.IH [of t] show ?case using h by (auto simp: run_sq)
  qed (simp add: ret_def)
  obtain r t where h: "batch_handle ?C (Transaction []) batch_maker_new = (r, t)"
    by (cases "batch_handle ?C (Transaction []) batch_maker_new")
  have "?bad t \<and> (r = Ok () \<or> r = Panic ''index out of bounds'')"
    using h by (auto simp: batch_handle_def batch_maker_new_def seal_def proc_simps sealed_def split: if_splits)
  with h loop [of t evs] show ?thesis
    by (auto simp: batch_run_def run_sq Let_def split: prod.split)
qed

end
