(* ===== verification/Quorum_Waiter.thy ===== *)
theory Quorum_Waiter
  imports Mempool_Config Tasks
begin

text \<open>
  \<open>mempool/src/quorum_waiter.rs\<close>: the task that holds back a batch until peers have acknowledged it whose stake,
  with that of this authority, reaches the quorum threshold. The handlers of a message are the names of the peers;
  the order in which they complete is part of the event, since \<open>wait_for_quorum.next()\<close> is awaited inside the
  branch of the \<open>select!\<close>: while it waits, the task does nothing else.
\<close>

section \<open>The task\<close>

definition dissemination_deadline :: u64 where
  "dissemination_deadline = 500"

definition dissemination_queue_max :: u64 where
  "dissemination_queue_max = 10000"

text \<open>\<open>pending\<close> has, for each batch, the peers that have not answered yet when the quorum is reached.\<close>

record quorum_waiter =
  qw_pending :: "public_key list list"
  pending_counter :: u64
  delivered :: "bytes list"

definition quorum_waiter_new :: quorum_waiter where
  "quorum_waiter_new = \<lparr>qw_pending = [], pending_counter = 0, delivered = []\<rparr>"

type_synonym quorum_proc = "(quorum_waiter, unit, unit) proc"

definition quorum_message ::
    "mempool_committee \<Rightarrow> stake \<Rightarrow> bytes \<Rightarrow> public_key list \<Rightarrow> public_key list \<Rightarrow> quorum_proc" where
  "quorum_message c my_stake batch handlers answers =
     (case await_acks (mempool_stake c) (mempool_quorum_threshold c) my_stake answers of
        (_, counted, reached) \<Rightarrow>
          sq (if reached then modify (\<lambda>s. s\<lparr>delivered := delivered s @ [batch]\<rparr>)
              else if length counted = length handlers then ret ()
              else (\<lambda>s. (Diverge, s)))
            (bnd (gets (\<lambda>s. pending_counter s \<ge> dissemination_queue_max)) (\<lambda>extra.
             if extra
             then modify (\<lambda>s. s\<lparr>qw_pending := qw_pending s @ [filter (\<lambda>n. n \<notin> set counted) handlers],
                    pending_counter := pending_counter s + 1\<rparr>)
             else ret ())))"

text \<open>The future at position \<open>i\<close> completes: all its peers have answered, or its deadline has passed.\<close>

definition quorum_disseminated :: "nat \<Rightarrow> quorum_proc" where
  "quorum_disseminated i =
     bnd (gets (\<lambda>s. i < length (qw_pending s))) (\<lambda>ready.
     if ready
     then modify (\<lambda>s. s\<lparr>qw_pending := remove_at i (qw_pending s),
            pending_counter := (if pending_counter s > 0 then pending_counter s - 1 else pending_counter s)\<rparr>)
     else ret ())"

datatype quorum_event =
    Quorum_message bytes "public_key list" "public_key list"
  | Disseminated nat

definition quorum_handle :: "mempool_committee \<Rightarrow> stake \<Rightarrow> quorum_event \<Rightarrow> quorum_proc" where
  "quorum_handle c my_stake ev =
     (case ev of
        Quorum_message batch handlers answers \<Rightarrow> quorum_message c my_stake batch handlers answers
      | Disseminated i \<Rightarrow> quorum_disseminated i)"

definition quorum_run ::
    "mempool_committee \<Rightarrow> stake \<Rightarrow> quorum_event list \<Rightarrow> (unit, unit) outcome \<times> quorum_waiter" where
  "quorum_run c my_stake evs = run_all (quorum_handle c my_stake) evs quorum_waiter_new"

section \<open>What is delivered\<close>

definition batch_of :: "quorum_event \<Rightarrow> bytes list" where
  "batch_of ev = (case ev of Quorum_message batch _ _ \<Rightarrow> [batch] | Disseminated _ \<Rightarrow> [])"

text \<open>Enough peers have answered for this message.\<close>

definition acked :: "mempool_committee \<Rightarrow> public_key \<Rightarrow> quorum_event \<Rightarrow> bool" where
  "acked c me ev = (case ev of
     Quorum_message _ _ answers \<Rightarrow> answers \<noteq> []
       \<and> unat (mempool_quorum_threshold c) \<le> (\<Sum>a\<in>insert me (set answers). unat (mempool_stake c a))
   | Disseminated _ \<Rightarrow> True)"

text \<open>The message is one of the batch maker, and each peer answers it at most once.\<close>

definition quorum_event_ok :: "mempool_committee \<Rightarrow> public_key \<Rightarrow> quorum_event \<Rightarrow> bool" where
  "quorum_event_ok c me ev = (case ev of
     Quorum_message _ handlers answers \<Rightarrow> handlers = map fst (mempool_broadcast_addresses c me)
       \<and> distinct answers \<and> set answers \<subseteq> set handlers
   | Disseminated _ \<Rightarrow> True)"

lemma quorum_handle_idle:
  assumes "qw_pending s = []" and "pending_counter s = 0" and "quorum_handle c w ev s = (r, t)"
  shows "qw_pending t = [] \<and> pending_counter t = 0"
  using assms
  by (cases ev)
    (auto simp: quorum_handle_def quorum_message_def quorum_disseminated_def dissemination_queue_max_def
      proc_simps sq_def bnd_def modify_def ret_def gets_def split: if_splits prod.splits)

lemma quorum_message_run:
  assumes ok: "mempool_committee_ok c" and me: "me \<in> mempool_names c"
    and total: "0 < (\<Sum>a\<in>mempool_names c. unat (mempool_stake c a))" and peers: "mempool_broadcast_addresses c me \<noteq> []"
    and ev: "quorum_event_ok c me ev" and idle: "pending_counter s = 0" "qw_pending s = []"
  shows "quorum_handle c (mempool_stake c me) ev s =
    (if acked c me ev then (Ok (), s\<lparr>delivered := delivered s @ batch_of ev\<rparr>) else (Diverge, s))"
proof (cases ev)
  case (Disseminated i)
  then show ?thesis using idle by (simp add: quorum_handle_def quorum_disseminated_def proc_simps acked_def batch_of_def)
next
  case (Quorum_message b handlers answers)
  have h: "handlers = map fst (mempool_broadcast_addresses c me)" and a: "distinct answers" "set answers \<subseteq> set handlers"
    using ev by (auto simp: Quorum_message quorum_event_ok_def)
  note names = mempool_broadcast_names [OF ok, of me]
  have d: "distinct (me # answers)" using h a names by auto
  obtain acc counted reached where acks: "await_acks (mempool_stake c) (mempool_quorum_threshold c) (mempool_stake c me)
      answers = (acc, counted, reached)"
    by (cases "await_acks (mempool_stake c) (mempool_quorum_threshold c) (mempool_stake c me) answers") auto
  note q = ma.acks_quorum(2) [OF ok d acks]
  obtain rest where rest: "answers = counted @ rest" "\<not> reached \<longrightarrow> rest = []"
    using await_acks_prefix [OF acks] by blast
  have "reached" if "length counted = length handlers"
  proof (rule ma.acks_all [OF ok d _ total _ acks])
    have "length handlers \<le> length answers" using that rest by simp
    then have "card (set handlers) \<le> card (set answers)"
      using distinct_card [OF a(1)] card_length [of handlers] by linarith
    then have "set answers = set handlers" using a(2) by (intro card_seteq) simp_all
    then show "mempool_names c \<subseteq> insert me (set answers)" using h names by auto
    show "answers \<noteq> []" using that rest peers h by auto
  qed
  then show ?thesis
    using q idle acks by (auto simp: Quorum_message quorum_handle_def quorum_message_def dissemination_queue_max_def
        acked_def batch_of_def proc_simps sq_def bnd_def modify_def ret_def gets_def)
qed

lemma quorum_loop:
  assumes "mempool_committee_ok c" and "me \<in> mempool_names c"
    and "0 < (\<Sum>a\<in>mempool_names c. unat (mempool_stake c a))" and "mempool_broadcast_addresses c me \<noteq> []"
    and "\<forall>ev\<in>set evs. quorum_event_ok c me ev" and "pending_counter s = 0" and "qw_pending s = []"
  shows "run_all (quorum_handle c (mempool_stake c me)) evs s =
      (if \<forall>ev\<in>set evs. acked c me ev then Ok () else Diverge,
       s\<lparr>delivered := delivered s @ concat (map batch_of (takeWhile (acked c me) evs))\<rparr>)"
  using assms(5-)
proof (induction evs arbitrary: s)
  case (Cons ev evs)
  have h: "quorum_handle c (mempool_stake c me) ev s =
    (if acked c me ev then (Ok (), s\<lparr>delivered := delivered s @ batch_of ev\<rparr>) else (Diverge, s))"
    by (rule quorum_message_run [OF assms(1-4)]) (use Cons.prems in simp_all)
  show ?case
  proof (cases "acked c me ev")
    case True
    have "run_all (quorum_handle c (mempool_stake c me)) evs (s\<lparr>delivered := delivered s @ batch_of ev\<rparr>) =
      (if \<forall>ev\<in>set evs. acked c me ev then Ok () else Diverge,
       s\<lparr>delivered := delivered s @ batch_of ev @ concat (map batch_of (takeWhile (acked c me) evs))\<rparr>)"
      using Cons.IH [of "s\<lparr>delivered := delivered s @ batch_of ev\<rparr>"] Cons.prems by simp
    then show ?thesis using h True by (simp add: run_sq)
  qed (use h in \<open>simp add: run_sq\<close>)
qed (simp add: ret_def)

section \<open>Properties\<close>

text \<open>
  C20. The quorum waiter delivers exactly the batches that a quorum holds, in order. In a committee with another
  member and with stake, and with the messages of the batch maker, each peer answering each batch at most once:
  the batches delivered are those of the messages up to the first that is not acknowledged by a quorum together
  with this authority; that message is waited for, and the task goes through all messages exactly when every one
  of them is acknowledged by a quorum.
\<close>

theorem quorum_waiter_delivers:
  assumes "mempool_committee_ok c" and "me \<in> mempool_names c"
    and "0 < (\<Sum>a\<in>mempool_names c. unat (mempool_stake c a))" and "mempool_broadcast_addresses c me \<noteq> []"
    and "\<forall>ev\<in>set evs. quorum_event_ok c me ev"
  shows "quorum_run c (mempool_stake c me) evs =
    (if \<forall>ev\<in>set evs. acked c me ev then Ok () else Diverge,
     quorum_waiter_new\<lparr>delivered := concat (map batch_of (takeWhile (acked c me) evs))\<rparr>)"
  using quorum_loop [OF assms, of quorum_waiter_new] by (simp add: quorum_run_def quorum_waiter_new_def)

lemma test_events_ok:
  "\<forall>ev\<in>set [Quorum_message [1] (map test_key [2, 3, 4]) [test_key 3, test_key 2], Disseminated 0,
      Quorum_message [2] (map test_key [2, 3, 4]) [test_key 4]]. quorum_event_ok test_mempool_committee (test_key 1) ev"
  by (simp add: quorum_event_ok_def test_mempool_broadcast)

lemma test_me: "test_key 1 \<in> mempool_names test_mempool_committee"
    "0 < (\<Sum>a\<in>mempool_names test_mempool_committee. unat (mempool_stake test_mempool_committee a))"
    "mempool_broadcast_addresses test_mempool_committee (test_key 1) \<noteq> []"
  by (simp_all add: test_mempool_names test_mempool_broadcast test_mempool_stake)

theorem quorum_waiter_delivers_witness:
  "quorum_run test_mempool_committee (mempool_stake test_mempool_committee (test_key 1))
      [Quorum_message [1] (map test_key [2, 3, 4]) [test_key 3, test_key 2], Disseminated 0,
       Quorum_message [2] (map test_key [2, 3, 4]) [test_key 4]]
    = (Diverge, \<lparr>qw_pending = [], pending_counter = 0, delivered = [[1]]\<rparr>)"
  using quorum_waiter_delivers [OF test_mempool_committee_ok test_me test_events_ok]
  by (simp add: acked_def batch_of_def test_mempool_stake test_mempool_threshold quorum_waiter_new_def)

text \<open>
  C21. What is delivered is available. If the faulty members have less than a third of the stake, every batch that
  the quorum waiter delivers is held by a correct member: this authority, or a peer that acknowledged it.
\<close>

theorem delivered_batch_available:
  assumes "mempool_committee_ok c" and "me \<in> mempool_names c" and "mempool_broadcast_addresses c me \<noteq> []"
    and "\<forall>ev\<in>set evs. quorum_event_ok c me ev" and "finite F"
    and "3 * (\<Sum>a\<in>F. unat (mempool_stake c a)) < (\<Sum>a\<in>mempool_names c. unat (mempool_stake c a))"
    and "b \<in> set (delivered (snd (quorum_run c (mempool_stake c me) evs)))"
  shows "\<exists>handlers answers a. Quorum_message b handlers answers \<in> set evs \<and> a \<in> insert me (set answers)
    \<and> a \<in> mempool_names c - F"
proof -
  have total: "0 < (\<Sum>a\<in>mempool_names c. unat (mempool_stake c a))" using assms(6) by linarith
  from assms(7) obtain ev where ev: "ev \<in> set (takeWhile (acked c me) evs)" "b \<in> set (batch_of ev)"
    using quorum_loop [OF assms(1,2) total assms(3,4), of quorum_waiter_new]
    by (auto simp: quorum_run_def quorum_waiter_new_def)
  then obtain handlers answers where m: "ev = Quorum_message b handlers answers"
    by (auto simp: batch_of_def split: quorum_event.splits)
  have q: "unat (mempool_quorum_threshold c) \<le> (\<Sum>a\<in>insert me (set answers). unat (mempool_stake c a))"
    using ev(1) by (auto simp: m acked_def dest: set_takeWhileD)
  then obtain a where "a \<in> insert me (set answers)" "a \<notin> F" "0 < unat (mempool_stake c a)"
    using ma.quorum_intersection [OF assms(1) _ _ assms(5) q q assms(6)] by auto
  moreover from this have "a \<in> mempool_names c" using ma.weight_outside [OF assms(1), of a] by auto
  ultimately show ?thesis using ev(1) m by (auto dest: set_takeWhileD)
qed

theorem delivered_batch_available_witness:
  "\<exists>handlers answers a. Quorum_message [1] handlers answers \<in>
      set [Quorum_message [1] (map test_key [2, 3, 4]) [test_key 3, test_key 2], Disseminated 0,
        Quorum_message [2] (map test_key [2, 3, 4]) [test_key 4]]
    \<and> a \<in> insert (test_key 1) (set answers) \<and> a \<in> mempool_names test_mempool_committee - {test_key 3}"
proof (rule delivered_batch_available [OF test_mempool_committee_ok test_me(1,3) test_events_ok])
  show "[1] \<in> set (delivered (snd (quorum_run test_mempool_committee (mempool_stake test_mempool_committee (test_key 1))
      [Quorum_message [1] (map test_key [2, 3, 4]) [test_key 3, test_key 2], Disseminated 0,
        Quorum_message [2] (map test_key [2, 3, 4]) [test_key 4]])))"
    by (simp add: quorum_run_def quorum_handle_def quorum_message_def quorum_disseminated_def quorum_waiter_new_def
        test_mempool_stake test_mempool_threshold dissemination_queue_max_def proc_simps sq_def bnd_def modify_def
        ret_def gets_def)
qed (simp_all add: test_mempool_names test_mempool_stake)

text \<open>
  The extra dissemination never happens. Whatever the messages and acknowledgements, no batch is kept for its
  slower peers: the counter, which has to be at least 10,000 for a batch to be kept, stays at 0, so the handlers
  that have not completed when the quorum is reached are dropped, which cancels their transmissions.
\<close>

theorem extra_dissemination_never_happens:
  shows "qw_pending (snd (quorum_run c w evs)) = [] \<and> pending_counter (snd (quorum_run c w evs)) = 0"
  unfolding quorum_run_def
  by (rule run_all_inv [of _ "\<lambda>s. qw_pending s = [] \<and> pending_counter s = 0"])
    (blast dest: quorum_handle_idle, simp add: quorum_waiter_new_def)

text \<open>
  An authority that is alone in its committee delivers no batch: its own stake is a quorum, but the loop
  compares the stake with the threshold only after an acknowledgement.
\<close>

theorem lone_authority_delivers_nothing:
  assumes "mempool_names c \<subseteq> {me}"
  shows "quorum_run c w (map (\<lambda>b. Quorum_message b (map fst (mempool_broadcast_addresses c me)) []) bs)
    = (Ok (), quorum_waiter_new)"
proof -
  have "mempool_broadcast_addresses c me = []"
    using assms by (auto simp: mempool_broadcast_addresses_def mempool_names_def filter_empty_conv)
  then have "run_all (quorum_handle c w) (map (\<lambda>b. Quorum_message b (map fst (mempool_broadcast_addresses c me)) []) bs)
      quorum_waiter_new = (Ok (), quorum_waiter_new)"
    by (induction bs) (simp_all add: quorum_handle_def quorum_message_def dissemination_queue_max_def
        quorum_waiter_new_def proc_simps sq_def bnd_def modify_def ret_def gets_def)
  then show ?thesis by (simp add: quorum_run_def)
qed

theorem lone_authority_delivers_nothing_witness:
  "quorum_run (mempool_committee_new [(test_key 1, 1, ([127, 0, 0, 1], 5), ([127, 0, 0, 1], 6))] 1) 1 [Quorum_message [7] [] []] = (Ok (), quorum_waiter_new)"
  using lone_authority_delivers_nothing [of "mempool_committee_new [(test_key 1, 1, ([127, 0, 0, 1], 5), ([127, 0, 0, 1], 6))] 1" "test_key 1" 1 "[[7]]"]
  by (simp add: mempool_names_def mempool_committee_new_def mempool_broadcast_addresses_def)

end
