(* ===== verification/Processor.thy ===== *)
theory Processor
  imports Mempool_Wire
begin

text \<open>
  \<open>mempool/src/processor.rs\<close> and \<open>mempool/src/helper.rs\<close>: the task that hashes and stores batches and announces
  their digests to the consensus, and the task that answers the batch requests of other mempools out of the
  store. Both share the store with other tasks, whose writes are events of the run.
\<close>

section \<open>The processor\<close>

definition processor_handle ::
    "('k, 'db) mempool_env \<Rightarrow> bytes \<Rightarrow> ('db mempool_world, unit, unit) proc" where
  "processor_handle ME batch =
     (let digest = hash32 (mp_dalek ME) batch in
      sq (mp_write ME (digest_bytes digest) batch)
        (mp_emit [Mp_digest digest]))"

datatype processor_event =
    Processor_batch bytes
  | Processor_write bytes bytes

definition processor_step ::
    "('k, 'db) mempool_env \<Rightarrow> processor_event \<Rightarrow> ('db mempool_world, unit, unit) proc" where
  "processor_step ME ev =
     (case ev of
        Processor_batch batch \<Rightarrow> processor_handle ME batch
      | Processor_write key value \<Rightarrow> mp_write ME key value)"

definition processor_run ::
    "('k, 'db) mempool_env \<Rightarrow> processor_event list \<Rightarrow> ('db mempool_world, unit, unit) proc" where
  "processor_run ME evs = run_all (processor_step ME) evs"

text \<open>The batches that a run is given, and the digests that it announces.\<close>

definition batches :: "processor_event list \<Rightarrow> bytes list" where
  "batches evs = concat (map (\<lambda>ev. case ev of Processor_batch b \<Rightarrow> [b] | Processor_write _ _ \<Rightarrow> []) evs)"

definition announced :: "mempool_effect list \<Rightarrow> digest list" where
  "announced es = concat (map (\<lambda>e. case e of Mp_digest d \<Rightarrow> [d] | _ \<Rightarrow> []) es)"

lemma announced_append [simp]: "announced (es @ es') = announced es @ announced es'"
  by (simp add: announced_def)

lemma announced_simps [simp]:
  "announced [] = []" "announced (Mp_digest d # es) = d # announced es" "announced (map Mp_notify rs) = []"
  by (simp_all add: announced_def comp_def)

lemma batches_simps [simp]:
  "batches [] = []" "batches (Processor_batch b # evs) = b # batches evs"
  "batches (Processor_write k v # evs) = batches evs" "batches (map Processor_batch bs) = bs"
  by (simp_all add: batches_def comp_def)

text \<open>
  No task but the processors writes under the digest of a batch, or it writes a batch with this digest (the
  consensus writes blocks under the digests of blocks).
\<close>

definition writes_ok :: "('k, 'db) mempool_env \<Rightarrow> bytes list \<Rightarrow> processor_event list \<Rightarrow> bool" where
  "writes_ok ME bs evs \<longleftrightarrow> (\<forall>k v. Processor_write k v \<in> set evs \<longrightarrow>
     (\<forall>b\<in>set bs. digest_bytes (hash32 (mp_dalek ME) b) = k \<longrightarrow> hash32 (mp_dalek ME) v = Digest k))"

lemma processor_loop:
  assumes R: "rocksdb_ok (mp_rocksdb ME)" and "writes_ok ME bs evs"
    and "\<forall>d\<in>set (announced (mp_out s)). \<exists>v. stored ME (mp_store s) d = Some v \<and> hash32 (mp_dalek ME) v = d"
    and "set (announced (mp_out s)) \<subseteq> hash32 (mp_dalek ME) ` set bs" and "set (batches evs) \<subseteq> set bs"
  shows "\<exists>t. run_all (processor_step ME) evs s = (Ok (), t)
    \<and> announced (mp_out t) = announced (mp_out s) @ map (hash32 (mp_dalek ME)) (batches evs)
    \<and> (\<forall>d\<in>set (announced (mp_out t)). \<exists>v. stored ME (mp_store t) d = Some v \<and> hash32 (mp_dalek ME) v = d)"
  using assms(2-)
proof (induction evs arbitrary: s)
  case (Cons ev evs)
  have ok: "writes_ok ME bs evs" using Cons.prems(1) by (auto simp: writes_ok_def)
  let ?w = "\<lambda>k v es. s\<lparr>mp_store := store_write (mp_rocksdb ME) k v (mp_store s),
      mp_out := mp_out s @ map Mp_notify (store_write_replies (mp_rocksdb ME) k v (mp_store s)) @ es\<rparr>"
  show ?case
  proof (cases ev)
    case (Processor_batch b)
    let ?d = "hash32 (mp_dalek ME) b"
    let ?t = "?w (digest_bytes ?d) b [Mp_digest ?d]"
    have h: "processor_step ME ev s = (Ok (), ?t)"
      by (simp add: Processor_batch processor_step_def processor_handle_def Let_def mp_write_def mp_emit_def proc_simps)
    have "\<forall>d\<in>set (announced (mp_out ?t)). \<exists>v. stored ME (mp_store ?t) d = Some v \<and> hash32 (mp_dalek ME) v = d"
      using Cons.prems(2) by (auto simp: stored_write [OF R] intro: digest.expand)
    from Cons.IH [OF ok this] Cons.prems show ?thesis
      using h by (auto simp: Processor_batch run_sq)
  next
    case (Processor_write k v)
    let ?t = "?w k v []"
    have h: "processor_step ME ev s = (Ok (), ?t)"
      by (simp add: Processor_write processor_step_def mp_write_def proc_simps)
    have "\<forall>d\<in>set (announced (mp_out ?t)). \<exists>v. stored ME (mp_store ?t) d = Some v \<and> hash32 (mp_dalek ME) v = d"
    proof
      fix d assume d: "d \<in> set (announced (mp_out ?t))"
      then obtain b where "b \<in> set bs" "d = hash32 (mp_dalek ME) b" using Cons.prems(3) by auto
      then have "digest_bytes d = k \<longrightarrow> hash32 (mp_dalek ME) v = d"
        using Cons.prems(1) by (force simp: Processor_write writes_ok_def)
      with d Cons.prems(2) show "\<exists>v. stored ME (mp_store ?t) d = Some v \<and> hash32 (mp_dalek ME) v = d"
        by (simp add: stored_write [OF R])
    qed
    from Cons.IH [OF ok this] Cons.prems show ?thesis
      using h by (auto simp: Processor_write run_sq)
  qed
qed (simp add: ret_def)

section \<open>The helper\<close>

primrec send_batches :: "('k, 'db) mempool_env \<Rightarrow> socket_addr \<Rightarrow> digest list \<Rightarrow> ('db mempool_world, unit, unit) proc" where
  "send_batches ME a [] = ret ()"
| "send_batches ME a (d # ds) =
     sq (bnd (gets (\<lambda>s. store_read (mp_rocksdb ME) (digest_bytes d) (mp_store s))) (\<lambda>result.
         case result of
           Inr (Some data) \<Rightarrow> mp_emit [Mp_send a data]
         | Inr None \<Rightarrow> ret ()
         | Inl e \<Rightarrow> ret ()))
       (send_batches ME a ds)"

definition mempool_helper_handle ::
    "('k, 'db) mempool_env \<Rightarrow> digest list \<times> public_key \<Rightarrow> ('db mempool_world, unit, unit) proc" where
  "mempool_helper_handle ME request =
     (case request of (digests, origin) \<Rightarrow>
        (case mempool_address (mp_committee ME) origin of
           None \<Rightarrow> ret ()
         | Some a \<Rightarrow> send_batches ME a digests))"

definition mempool_helper_run ::
    "('k, 'db) mempool_env \<Rightarrow> (digest list \<times> public_key) list \<Rightarrow> ('db mempool_world, unit, unit) proc" where
  "mempool_helper_run ME requests = run_all (mempool_helper_handle ME) requests"

lemma send_batches_run:
  "send_batches ME a ds s = (Ok (), s\<lparr>mp_out := mp_out s @ map (Mp_send a) (List.map_filter (stored ME (mp_store s)) ds)\<rparr>)"
proof (induction ds arbitrary: s)
  case (Cons d ds)
  then show ?case
    by (auto simp: proc_simps mp_emit_def stored_def map_filter_def sq_def bnd_def ret_def modify_def
        split: sum.split option.split)
qed (simp add: ret_def map_filter_def)

text \<open>What is sent for one request.\<close>

definition answer_to :: "('k, 'db) mempool_env \<Rightarrow> 'db store \<Rightarrow> digest list \<times> public_key \<Rightarrow> mempool_effect list" where
  "answer_to ME st request = (case mempool_address (mp_committee ME) (snd request) of None \<Rightarrow> []
     | Some a \<Rightarrow> map (Mp_send a) (List.map_filter (stored ME st) (fst request)))"

section \<open>Properties\<close>

text \<open>
  What is announced to the consensus is stored. On a database without errors, and when no other task writes
  something else under the digests of the batches, a processor handles every batch it is given, announces the
  digests of exactly these batches, in order, and for each digest announced the store holds, also at the end,
  bytes with that digest.
\<close>

theorem announced_digests_are_stored:
  assumes "rocksdb_ok (mp_rocksdb ME)" and "writes_ok ME (batches evs) evs"
  shows "\<exists>s. processor_run ME evs \<lparr>mp_store = st, mp_out = []\<rparr> = (Ok (), s)
    \<and> announced (mp_out s) = map (hash32 (mp_dalek ME)) (batches evs)
    \<and> (\<forall>d\<in>set (announced (mp_out s)). \<exists>v. stored ME (mp_store s) d = Some v \<and> hash32 (mp_dalek ME) v = d)"
  using processor_loop [OF assms, of "\<lparr>mp_store = st, mp_out = []\<rparr>"] by (simp add: processor_run_def)

text \<open>
  The mempool helper answers every request it can, whatever the store holds and whatever the requests: it
  never stops, it changes no store, and it sends to each requestor that is a member, in the order of its digests,
  the stored bytes of those it has, and nothing else.
\<close>

theorem mempool_helper_answers:
  "mempool_helper_run ME requests s =
     (Ok (), s\<lparr>mp_out := mp_out s @ concat (map (answer_to ME (mp_store s)) requests)\<rparr>)"
proof (induction requests arbitrary: s)
  case (Cons x requests)
  have "mempool_helper_handle ME x s = (Ok (), s\<lparr>mp_out := mp_out s @ answer_to ME (mp_store s) x\<rparr>)"
    by (cases x) (simp add: mempool_helper_handle_def answer_to_def send_batches_run ret_def split: option.split)
  then show ?case
    using Cons.IH [of "s\<lparr>mp_out := mp_out s @ answer_to ME (mp_store s) x\<rparr>"]
    by (simp add: mempool_helper_run_def run_sq)
qed (simp add: mempool_helper_run_def ret_def)

end
