(* ===== verification/Mempool_Synchronizer.thy ===== *)
theory Mempool_Synchronizer
  imports Mempool_Wire
begin

text \<open>
  \<open>mempool/src/synchronizer.rs\<close>: the task that fetches the batches the consensus is missing. As in the payload
  waiter, a cancel channel is a number whose sender lives in \<open>pending\<close>: a waiter is cancelled exactly when its
  channel is no longer there, since \<open>run\<close> sends on a channel only to drop it right after.
\<close>

section \<open>The task\<close>

text \<open>\<open>ConsensusMempoolMessage\<close>.\<close>

datatype sync_message =
    Synchronize_batches "digest list" public_key
  | Cleanup_batches u64

definition mempool_timer_resolution :: u64 where
  "mempool_timer_resolution = 1000"

record 'db mempool_sync = "'db mempool_world" +
  ms_round :: u64
  ms_pending :: "(digest \<times> u64 \<times> nat \<times> u128) list"
  ms_waiting :: "(digest \<times> nat) list"
  ms_channel :: nat

type_synonym ('db, 'a) ms_proc = "('db mempool_sync, unit, 'a) proc"

definition mempool_sync_new :: "'db store \<Rightarrow> 'db mempool_sync" where
  "mempool_sync_new st =
     \<lparr>mp_store = st, mp_out = [], ms_round = 0, ms_pending = [], ms_waiting = [], ms_channel = 0\<rparr>"

text \<open>The loop over the digests of \<open>Synchronize\<close>; it yields those that were not pending.\<close>

primrec register_digests :: "u128 \<Rightarrow> digest list \<Rightarrow> digest list \<Rightarrow> ('db, digest list) ms_proc" where
  "register_digests now [] missing = ret missing"
| "register_digests now (d # ds) missing =
     bnd (gets (\<lambda>s. d \<in> fst ` set (ms_pending s))) (\<lambda>known.
     if known then register_digests now ds missing
     else sq (modify (\<lambda>s. s\<lparr>ms_waiting := ms_waiting s @ [(d, ms_channel s)],
            ms_pending := AList.update d (ms_round s, ms_channel s, now) (ms_pending s),
            ms_channel := ms_channel s + 1\<rparr>))
       (register_digests now ds (missing @ [d])))"

definition mempool_synchronize ::
    "('k, 'db) mempool_env \<Rightarrow> u128 \<Rightarrow> digest list \<Rightarrow> public_key \<Rightarrow> ('db, unit) ms_proc" where
  "mempool_synchronize ME now digests target =
     bnd (register_digests now digests []) (\<lambda>missing.
     case mempool_address (mp_committee ME) target of
       None \<Rightarrow> ret ()
     | Some a \<Rightarrow>
         (case ser_mempool ME (BatchRequest missing (mp_name ME)) of
            None \<Rightarrow> panic ''Failed to serialize our own message''
          | Some serialized \<Rightarrow> mp_emit [Mp_send a serialized]))"

definition mempool_sync_cleanup :: "('k, 'db) mempool_env \<Rightarrow> u64 \<Rightarrow> ('db, unit) ms_proc" where
  "mempool_sync_cleanup ME r =
     sq (modify (\<lambda>s. s\<lparr>ms_round := r\<rparr>))
       (if r < gc_depth (mp_parameters ME) then ret ()
        else (let gc_round = r - gc_depth (mp_parameters ME) in
          modify (\<lambda>s. s\<lparr>ms_pending := filter (\<lambda>(_, k, _). k > gc_round) (ms_pending s)\<rparr>)))"

definition batch_cancelled :: "'db mempool_sync \<Rightarrow> nat \<Rightarrow> bool" where
  "batch_cancelled s c \<longleftrightarrow> c \<notin> (\<lambda>(_, _, c, _). c) ` set (ms_pending s)"

text \<open>
  \<open>Synchronizer::waiter\<close>: what the future yields when it is polled, \<open>None\<close> while it is not ready. When both
  branches of its \<open>select!\<close> are ready, \<open>pick\<close> is the one taken.
\<close>

definition batch_waiter ::
    "('k, 'db) mempool_env \<Rightarrow> bool \<Rightarrow> 'db mempool_sync \<Rightarrow> digest \<times> nat \<Rightarrow> (store_error + digest option) option" where
  "batch_waiter ME pick s f =
     (case f of (d, c) \<Rightarrow>
        if batch_cancelled s c \<and> \<not> pick then Some (Inr None)
        else (case store_read (mp_rocksdb ME) (digest_bytes d) (mp_store s) of
            Inl e \<Rightarrow> Some (Inl e)
          | Inr (Some _) \<Rightarrow> Some (Inr (Some d))
          | Inr None \<Rightarrow> if batch_cancelled s c then Some (Inr None) else None))"

definition mempool_sync_ready :: "('k, 'db) mempool_env \<Rightarrow> bool \<Rightarrow> nat \<Rightarrow> ('db, unit) ms_proc" where
  "mempool_sync_ready ME pick i =
     bnd (gets (\<lambda>s. if i < length (ms_waiting s) then batch_waiter ME pick s (ms_waiting s ! i) else None)) (\<lambda>f.
     case f of
       None \<Rightarrow> ret ()
     | Some result \<Rightarrow>
         sq (modify (\<lambda>s. s\<lparr>ms_waiting := remove_at i (ms_waiting s)\<rparr>))
           (case result of
              Inr (Some d) \<Rightarrow> modify (\<lambda>s. s\<lparr>ms_pending := AList.delete d (ms_pending s)\<rparr>)
            | Inr None \<Rightarrow> ret ()
            | Inl e \<Rightarrow> ret ()))"

text \<open>
  The timer: one request for everything that is overdue, to \<open>sync_retry_nodes\<close> peers; \<open>shuffle\<close> is what the
  random number generator makes of the list of addresses.
\<close>

definition overdue :: "('k, 'db) mempool_env \<Rightarrow> u128 \<Rightarrow> (digest \<times> u64 \<times> nat \<times> u128) list \<Rightarrow> digest list" where
  "overdue ME now pending = map fst (filter (\<lambda>(_, _, _, timestamp).
     timestamp + ucast (mempool_retry_delay (mp_parameters ME)) < now) pending)"

definition mempool_sync_timer ::
    "('k, 'db) mempool_env \<Rightarrow> (socket_addr list \<Rightarrow> socket_addr list) \<Rightarrow> u128 \<Rightarrow> ('db, unit) ms_proc" where
  "mempool_sync_timer ME shuffle now =
     bnd (gets (\<lambda>s. overdue ME now (ms_pending s))) (\<lambda>retry.
     if retry \<noteq> []
     then (let addresses = map snd (mempool_broadcast_addresses (mp_committee ME) (mp_name ME)) in
       (case ser_mempool ME (BatchRequest retry (mp_name ME)) of
          None \<Rightarrow> panic ''Failed to serialize our own message''
        | Some serialized \<Rightarrow>
            mp_emit (map (\<lambda>a. Mp_send a serialized)
              (take (sync_retry_nodes (mp_parameters ME)) (shuffle addresses)))))
     else ret ())"

datatype mempool_sync_event =
    Ms_message u128 sync_message
  | Ms_ready bool nat
  | Ms_timer "socket_addr list \<Rightarrow> socket_addr list" u128
  | Ms_write bytes bytes

definition mempool_sync_handle :: "('k, 'db) mempool_env \<Rightarrow> mempool_sync_event \<Rightarrow> ('db, unit) ms_proc" where
  "mempool_sync_handle ME ev =
     (case ev of
        Ms_message now (Synchronize_batches digests target) \<Rightarrow> mempool_synchronize ME now digests target
      | Ms_message now (Cleanup_batches r) \<Rightarrow> mempool_sync_cleanup ME r
      | Ms_ready pick i \<Rightarrow> mempool_sync_ready ME pick i
      | Ms_timer shuffle now \<Rightarrow> mempool_sync_timer ME shuffle now
      | Ms_write key value \<Rightarrow> mp_write ME key value)"

definition mempool_sync_run ::
    "('k, 'db) mempool_env \<Rightarrow> 'db store \<Rightarrow> mempool_sync_event list \<Rightarrow> (unit, unit) outcome \<times> 'db mempool_sync" where
  "mempool_sync_run ME st evs = run_all (mempool_sync_handle ME) evs (mempool_sync_new st)"

section \<open>The invariant\<close>

text \<open>Every digest that is pending has a future of its own, whose channel nobody else has.\<close>

definition ms_links :: "nat \<Rightarrow> (digest \<times> u64 \<times> nat \<times> u128) list \<Rightarrow> (digest \<times> nat) list \<Rightarrow> bool" where
  "ms_links ch pending waiting \<longleftrightarrow> distinct (map snd waiting) \<and> (\<forall>(d, c)\<in>set waiting. c < ch)
     \<and> (\<forall>(d, k, c, ts)\<in>set pending. (d, c) \<in> set waiting)"

text \<open>
  The round that the task knows after some events, and when a digest was asked for in a round: a request for it
  came when this was the round.
\<close>

definition round_after :: "mempool_sync_event list \<Rightarrow> u64" where
  "round_after evs = foldl (\<lambda>k ev. case ev of Ms_message _ (Cleanup_batches k') \<Rightarrow> k' | _ \<Rightarrow> k) 0 evs"

definition asked_at :: "mempool_sync_event list \<Rightarrow> digest \<Rightarrow> u64 \<Rightarrow> bool" where
  "asked_at evs d j \<longleftrightarrow> (\<exists>pre now digests target post. d \<in> set digests \<and> round_after pre = j
     \<and> evs = pre @ Ms_message now (Synchronize_batches digests target) # post)"

text \<open>An event that drops a request made in round \<open>j\<close>: a cleanup for a round at least \<open>gc_depth\<close> above it.\<close>

definition expires :: "('k, 'db) mempool_env \<Rightarrow> u64 \<Rightarrow> mempool_sync_event \<Rightarrow> bool" where
  "expires ME j ev \<longleftrightarrow> (\<exists>now k. ev = Ms_message now (Cleanup_batches k)
     \<and> unat j + unat (gc_depth (mp_parameters ME)) \<le> unat k)"

definition ms_inv :: "('k, 'db) mempool_env \<Rightarrow> mempool_sync_event list \<Rightarrow> 'db mempool_sync \<Rightarrow> bool" where
  "ms_inv ME evs s \<longleftrightarrow> ms_links (ms_channel s) (ms_pending s) (ms_waiting s) \<and> ms_round s = round_after evs
     \<and> (\<forall>(d, j, _)\<in>set (ms_pending s). asked_at evs d j)"

text \<open>What a step does to the entries: none is lost unless its batch is stored or it expires.\<close>

definition ms_keeps :: "('k, 'db) mempool_env \<Rightarrow> mempool_sync_event \<Rightarrow> 'db mempool_sync \<Rightarrow> 'db mempool_sync \<Rightarrow> bool" where
  "ms_keeps ME ev s t \<longleftrightarrow>
     (\<forall>(d, e)\<in>set (ms_pending s). (d, e) \<in> set (ms_pending t) \<or> stored ME (mp_store t) d \<noteq> None \<or> expires ME (fst e) ev)
     \<and> (\<forall>d. stored ME (mp_store s) d \<noteq> None \<longrightarrow> stored ME (mp_store t) d \<noteq> None)
     \<and> (\<forall>now ds target. ev = Ms_message now (Synchronize_batches ds target) \<longrightarrow> set ds \<subseteq> fst ` set (ms_pending t))"

lemma round_after_snoc [simp]:
  "round_after [] = 0"
  "round_after (evs @ [ev]) = (case ev of Ms_message _ (Cleanup_batches k) \<Rightarrow> k | _ \<Rightarrow> round_after evs)"
  by (simp_all add: round_after_def split: mempool_sync_event.split sync_message.split)

lemma asked_at_snoc: "asked_at evs d j \<Longrightarrow> asked_at (evs @ [ev]) d j"
  unfolding asked_at_def by (metis append_Cons append_assoc)

lemma asked_at_last:
  "d \<in> set ds \<Longrightarrow> asked_at (evs @ [Ms_message now (Synchronize_batches ds target)]) d (round_after evs)"
  unfolding asked_at_def by blast

lemma ms_links_new:
  assumes "ms_links ch pending waiting"
  shows "ms_links (ch + 1) (AList.update d (k, ch, now) pending) (waiting @ [(d, ch)])"
proof -
  have "x \<in> set pending \<or> x = (d, k, ch, now)" if "x \<in> set (AList.update d (k, ch, now) pending)" for x
    using that by (induction pending) (auto split: if_splits)
  then show ?thesis using assms by (fastforce simp: ms_links_def)
qed

lemma ms_links_filter: "ms_links ch pending waiting \<Longrightarrow> ms_links ch (filter P pending) waiting"
  by (auto simp: ms_links_def)

text \<open>A future leaves together with the entry of its digest, or when no entry has its channel any more.\<close>

lemma ms_links_remove:
  assumes L: "ms_links ch pending waiting" and i: "i < length waiting" and f: "waiting ! i = (d, c)"
    and c: "c \<notin> (\<lambda>(_, _, c, _). c) ` set pending'" and sub: "set pending' \<subseteq> set pending"
  shows "ms_links ch pending' (remove_at i waiting)"
proof -
  have w: "set waiting = insert (d, c) (set (remove_at i waiting))" using set_remove_at [OF i] f by simp
  have "(d', c') \<in> set (remove_at i waiting)" if "(d', k, c', ts) \<in> set pending'" for d' k c' ts
  proof -
    have "(d', c') \<in> set waiting" using L sub that by (auto simp: ms_links_def)
    moreover have "c' \<noteq> c" using c that by force
    ultimately show ?thesis using w by auto
  qed
  then show ?thesis
    using L w by (auto simp: ms_links_def map_remove_at distinct_remove_at)
qed

lemma register_digests_run:
  assumes "ms_links (ms_channel s) (ms_pending s) (ms_waiting s)"
  shows "\<exists>m t. register_digests now ds missing s = (Ok m, t) \<and> ms_links (ms_channel t) (ms_pending t) (ms_waiting t)
    \<and> set ds \<subseteq> fst ` set (ms_pending t) \<and> set (ms_pending s) \<subseteq> set (ms_pending t)
    \<and> (\<forall>e\<in>set (ms_pending t) - set (ms_pending s). fst e \<in> set ds \<and> fst (snd e) = ms_round s)
    \<and> mp_store t = mp_store s \<and> ms_round t = ms_round s"
  using assms
proof (induction ds arbitrary: s missing)
  case Nil
  then show ?case by (simp add: ret_def)
next
  case (Cons d ds)
  show ?case
  proof (cases "d \<in> fst ` set (ms_pending s)")
    case True
    obtain m t where "register_digests now ds missing s = (Ok m, t)" "ms_links (ms_channel t) (ms_pending t) (ms_waiting t)"
      "set ds \<subseteq> fst ` set (ms_pending t)" "set (ms_pending s) \<subseteq> set (ms_pending t)"
      "\<forall>e\<in>set (ms_pending t) - set (ms_pending s). fst e \<in> set ds \<and> fst (snd e) = ms_round s"
      "mp_store t = mp_store s" "ms_round t = ms_round s"
      using Cons.IH [OF Cons.prems, of missing] by blast
    with True show ?thesis by (simp add: proc_simps) blast
  next
    case False
    let ?s = "s\<lparr>ms_waiting := ms_waiting s @ [(d, ms_channel s)],
      ms_pending := AList.update d (ms_round s, ms_channel s, now) (ms_pending s), ms_channel := ms_channel s + 1\<rparr>"
    have p: "ms_pending ?s = ms_pending s @ [(d, ms_round s, ms_channel s, now)]"
      using False by (simp add: update_new)
    have "ms_links (ms_channel ?s) (ms_pending ?s) (ms_waiting ?s)"
      using ms_links_new [OF Cons.prems] by simp
    from Cons.IH [OF this, of "missing @ [d]"] obtain m t where
      t: "register_digests now ds (missing @ [d]) ?s = (Ok m, t)" "ms_links (ms_channel t) (ms_pending t) (ms_waiting t)"
      "set ds \<subseteq> fst ` set (ms_pending t)" "set (ms_pending ?s) \<subseteq> set (ms_pending t)"
      "\<forall>e\<in>set (ms_pending t) - set (ms_pending ?s). fst e \<in> set ds \<and> fst (snd e) = ms_round ?s"
      "mp_store t = mp_store ?s" "ms_round t = ms_round ?s"
      by blast
    have "(d, ms_round s, ms_channel s, now) \<in> set (ms_pending t)" using t(4) unfolding p by simp
    then have "set (d # ds) \<subseteq> fst ` set (ms_pending t)" using t(3) by force
    moreover have "fst e \<in> set (d # ds) \<and> fst (snd e) = ms_round s" if e: "e \<in> set (ms_pending t) - set (ms_pending s)" for e
    proof (cases "e = (d, ms_round s, ms_channel s, now)")
      case False
      with e have "e \<in> set (ms_pending t) - set (ms_pending ?s)" unfolding p by simp
      from bspec [OF t(5) this] show ?thesis by simp
    qed simp
    moreover have "set (ms_pending s) \<subseteq> set (ms_pending t)" using t(4) unfolding p by simp
    moreover have "register_digests now (d # ds) missing s = (Ok m, t)" using False t(1) by (simp add: proc_simps)
    moreover have "mp_store t = mp_store s" "ms_round t = ms_round s" using t(6,7) by simp_all
    ultimately show ?thesis using t(2) by blast
  qed
qed

lemma ms_keepsI:
  assumes "set (ms_pending s) \<subseteq> set (ms_pending t)" and "mp_store t = mp_store s"
    and "\<And>now ds target. ev = Ms_message now (Synchronize_batches ds target) \<Longrightarrow> set ds \<subseteq> fst ` set (ms_pending t)"
  shows "ms_keeps ME ev s t"
  using assms unfolding ms_keeps_def by auto

text \<open>A step that changes neither the round nor the entries nor the futures.\<close>

lemma ms_inv_same:
  assumes "ms_inv ME evs s" and "ms_pending t = ms_pending s" and "ms_waiting t = ms_waiting s"
    and "ms_channel t = ms_channel s" and "ms_round t = ms_round s" and "round_after (evs @ [ev]) = round_after evs"
  shows "ms_inv ME (evs @ [ev]) t"
  using assms by (auto simp: ms_inv_def asked_at_snoc)

lemma mempool_synchronize_inv:
  assumes "mempool_bincode_ok ME" and I: "ms_inv ME evs s" and run: "mempool_synchronize ME now ds target s = (r, t)"
  defines "ev \<equiv> Ms_message now (Synchronize_batches ds target)"
  shows "r = Ok () \<and> ms_inv ME (evs @ [ev]) t \<and> ms_keeps ME ev s t"
proof -
  obtain m u where u: "register_digests now ds [] s = (Ok m, u)" "ms_links (ms_channel u) (ms_pending u) (ms_waiting u)"
    "set ds \<subseteq> fst ` set (ms_pending u)" "set (ms_pending s) \<subseteq> set (ms_pending u)"
    "\<forall>e\<in>set (ms_pending u) - set (ms_pending s). fst e \<in> set ds \<and> fst (snd e) = ms_round s"
    "mp_store u = mp_store s" "ms_round u = ms_round s"
    using register_digests_run [of s now ds "[]"] I unfolding ms_inv_def by blast
  obtain bs where "ser_mempool ME (BatchRequest m (mp_name ME)) = Some bs"
    using assms(1) by (auto simp: mempool_bincode_ok_def)
  then have "r = Ok () \<and> (\<exists>es. t = u\<lparr>mp_out := mp_out u @ es\<rparr>)"
    using run u(1) by (auto simp: mempool_synchronize_def proc_simps mp_emit_def split: option.splits)
      (metis append_Nil2 mempool_world.surjective mempool_world.update_convs(2))
  then obtain es where t: "r = Ok ()" "t = u\<lparr>mp_out := mp_out u @ es\<rparr>" by blast
  have "asked_at (evs @ [ev]) d j" if e: "(d, j, x) \<in> set (ms_pending u)" for d j x
  proof (cases "(d, j, x) \<in> set (ms_pending s)")
    case True
    then show ?thesis using I asked_at_snoc by (auto simp: ms_inv_def)
  next
    case False
    with e u(5) I have "d \<in> set ds" "j = round_after evs" by (force simp: ms_inv_def)+
    then show ?thesis unfolding ev_def by (simp add: asked_at_last)
  qed
  then have "ms_inv ME (evs @ [ev]) t"
    using u(2,7) I by (auto simp: ms_inv_def t ev_def)
  moreover have "ms_keeps ME ev s t"
    using u(3,4,6) by (intro ms_keepsI) (auto simp: t ev_def)
  ultimately show ?thesis using t by simp
qed

lemma mempool_sync_cleanup_inv:
  fixes now :: u128
  assumes I: "ms_inv ME evs s" and run: "mempool_sync_cleanup ME k s = (r, t)"
  defines "ev \<equiv> Ms_message now (Cleanup_batches k)"
  shows "r = Ok () \<and> ms_inv ME (evs @ [ev]) t \<and> ms_keeps ME ev s t"
proof (cases "k < gc_depth (mp_parameters ME)")
  case True
  then have "r = Ok ()" "t = s\<lparr>ms_round := k\<rparr>"
    using run by (simp_all add: mempool_sync_cleanup_def proc_simps)
  then show ?thesis using I by (auto simp: ms_inv_def ev_def asked_at_snoc intro: ms_keepsI)
next
  case False
  then have le: "gc_depth (mp_parameters ME) \<le> k" by simp
  have t: "r = Ok ()" "t = s\<lparr>ms_round := k,
      ms_pending := filter (\<lambda>(_, j, _). j > k - gc_depth (mp_parameters ME)) (ms_pending s)\<rparr>"
    using run False by (auto simp: mempool_sync_cleanup_def proc_simps Let_def)
  have "\<not> j > k - gc_depth (mp_parameters ME) \<Longrightarrow> expires ME j ev" for j
    using le by (auto simp: expires_def ev_def word_less_nat_alt word_le_nat_alt unat_sub)
  then have "ms_keeps ME ev s t" by (auto simp: ms_keeps_def t ev_def)
  moreover have "ms_inv ME (evs @ [ev]) t"
    using I by (auto simp: ms_inv_def t ev_def asked_at_snoc ms_links_filter)
  ultimately show ?thesis using t by simp
qed

lemma mempool_sync_ready_inv:
  assumes R: "rocksdb_ok (mp_rocksdb ME)" and I: "ms_inv ME evs s" and run: "mempool_sync_ready ME pick i s = (r, t)"
  shows "r = Ok () \<and> ms_inv ME (evs @ [Ms_ready pick i]) t \<and> ms_keeps ME (Ms_ready pick i) s t"
proof -
  have L: "ms_links (ms_channel s) (ms_pending s) (ms_waiting s)" using I by (simp add: ms_inv_def)
  have same: "ms_inv ME (evs @ [Ms_ready pick i]) s" by (rule ms_inv_same [OF I]) simp_all
  show ?thesis
  proof (cases "i < length (ms_waiting s)")
    case i: True
    obtain d c where f: "ms_waiting s ! i = (d, c)" by (cases "ms_waiting s ! i")
    have w: "batch_waiter ME pick s (d, c) = (if batch_cancelled s c \<and> \<not> pick then Some (Inr None)
        else case stored ME (mp_store s) d of Some _ \<Rightarrow> Some (Inr (Some d))
          | None \<Rightarrow> if batch_cancelled s c then Some (Inr None) else None)"
      unfolding batch_waiter_def stored_read [OF R] by (simp split: option.split)
    consider (idle) "batch_waiter ME pick s (d, c) = None"
      | (off) "batch_waiter ME pick s (d, c) = Some (Inr None)" "batch_cancelled s c"
      | (got) "batch_waiter ME pick s (d, c) = Some (Inr (Some d))" "stored ME (mp_store s) d \<noteq> None"
      using w by (cases "stored ME (mp_store s) d"; cases "batch_cancelled s c"; cases pick; simp)
    then show ?thesis
    proof cases
      case idle
      then have "r = Ok ()" "t = s" using run i f by (simp_all add: mempool_sync_ready_def proc_simps)
      then show ?thesis using same by (auto intro: ms_keepsI)
    next
      case off
      then have t: "r = Ok ()" "t = s\<lparr>ms_waiting := remove_at i (ms_waiting s)\<rparr>"
        using run i f by (simp_all add: mempool_sync_ready_def proc_simps)
      have "ms_links (ms_channel s) (ms_pending s) (remove_at i (ms_waiting s))"
        by (rule ms_links_remove [OF L i f]) (use off(2) in \<open>simp_all add: batch_cancelled_def\<close>)
      then have "ms_inv ME (evs @ [Ms_ready pick i]) t" using same by (simp add: ms_inv_def t)
      then show ?thesis using t by (auto intro: ms_keepsI)
    next
      case got
      then have t: "r = Ok ()" "t = s\<lparr>ms_waiting := remove_at i (ms_waiting s), ms_pending := AList.delete d (ms_pending s)\<rparr>"
        using run i f by (simp_all add: mempool_sync_ready_def proc_simps)
      have "c \<notin> (\<lambda>(_, _, c, _). c) ` set (AList.delete d (ms_pending s))"
      proof
        assume "c \<in> (\<lambda>(_, _, c, _). c) ` set (AList.delete d (ms_pending s))"
        then obtain d' k ts where e: "(d', k, c, ts) \<in> set (ms_pending s)" "d' \<noteq> d" by (auto simp: set_delete)
        then have "(d', c) \<in> set (ms_waiting s)" "(d, c) \<in> set (ms_waiting s)"
          using L nth_mem [OF i] f by (auto simp: ms_links_def)
        moreover have "inj_on snd (set (ms_waiting s))" using L by (simp add: ms_links_def distinct_map)
        ultimately have "(d', c) = (d, c)" by (intro inj_onD [of snd]) simp_all
        then show False using e(2) by simp
      qed
      then have "ms_links (ms_channel s) (AList.delete d (ms_pending s)) (remove_at i (ms_waiting s))"
        by (rule ms_links_remove [OF L i f]) (auto simp: set_delete)
      then have "ms_inv ME (evs @ [Ms_ready pick i]) t" using same by (auto simp: ms_inv_def t set_delete)
      moreover have "ms_keeps ME (Ms_ready pick i) s t" using got(2) by (auto simp: ms_keeps_def t set_delete)
      ultimately show ?thesis using t by simp
    qed
  next
    case False
    then show ?thesis using run same by (auto simp: mempool_sync_ready_def proc_simps intro: ms_keepsI)
  qed
qed

lemma mempool_sync_timer_run:
  assumes "ser_mempool ME (BatchRequest (overdue ME now (ms_pending s)) (mp_name ME)) = Some m"
  shows "mempool_sync_timer ME shuffle now s = (Ok (), s\<lparr>mp_out := mp_out s @
      (if overdue ME now (ms_pending s) = [] then [] else map (\<lambda>a. Mp_send a m) (take (sync_retry_nodes (mp_parameters ME))
        (shuffle (map snd (mempool_broadcast_addresses (mp_committee ME) (mp_name ME))))))\<rparr>)"
  using assms by (simp add: mempool_sync_timer_def proc_simps mp_emit_def Let_def)

lemma mempool_sync_handle_inv:
  assumes R: "rocksdb_ok (mp_rocksdb ME)" and S: "mempool_bincode_ok ME" and I: "ms_inv ME evs s"
    and run: "mempool_sync_handle ME ev s = (r, t)"
  shows "r = Ok () \<and> ms_inv ME (evs @ [ev]) t \<and> ms_keeps ME ev s t"
proof (cases ev)
  case (Ms_message now msg)
  then show ?thesis
    using run mempool_synchronize_inv [OF S I, of now _ _ r t] mempool_sync_cleanup_inv [OF I, of _ r t now]
    by (cases msg) (simp_all add: mempool_sync_handle_def)
next
  case (Ms_ready pick i)
  then show ?thesis using run mempool_sync_ready_inv [OF R I, of pick i r t] by (simp add: mempool_sync_handle_def)
next
  case (Ms_timer shuffle now)
  obtain m where "ser_mempool ME (BatchRequest (overdue ME now (ms_pending s)) (mp_name ME)) = Some m"
    using S by (auto simp: mempool_bincode_ok_def)
  note timer = mempool_sync_timer_run [OF this, of shuffle]
  then obtain es where t: "r = Ok ()" "t = s\<lparr>mp_out := mp_out s @ es\<rparr>"
    using run by (auto simp: Ms_timer mempool_sync_handle_def)
  have "ms_inv ME (evs @ [ev]) t" by (rule ms_inv_same [OF I]) (simp_all add: t Ms_timer)
  then show ?thesis using t by (auto simp: Ms_timer intro: ms_keepsI)
next
  case (Ms_write k v)
  obtain es where t: "r = Ok ()" "t = s\<lparr>mp_store := store_write (mp_rocksdb ME) k v (mp_store s), mp_out := es\<rparr>"
    using run by (auto simp: Ms_write mempool_sync_handle_def mp_write_def modify_def)
  have "ms_inv ME (evs @ [ev]) t" by (rule ms_inv_same [OF I]) (simp_all add: t Ms_write)
  then show ?thesis by (auto simp: t ms_keeps_def Ms_write stored_write [OF R])
qed

text \<open>Runs: the invariant, and what happens to one entry on the way.\<close>

lemma mempool_sync_loop:
  assumes "rocksdb_ok (mp_rocksdb ME)" and "mempool_bincode_ok ME" and "ms_inv ME ys s"
  shows "\<exists>t. run_all (mempool_sync_handle ME) evs s = (Ok (), t) \<and> ms_inv ME (ys @ evs) t"
  using assms(3)
proof (induction evs arbitrary: ys s)
  case (Cons ev evs)
  obtain r t where h: "mempool_sync_handle ME ev s = (r, t)" by (cases "mempool_sync_handle ME ev s")
  from mempool_sync_handle_inv [OF assms(1,2) Cons.prems h] Cons.IH [of "ys @ [ev]" t] h
  show ?case by (simp add: run_sq)
qed (simp add: ret_def)

lemma mempool_sync_loop_keeps:
  assumes "rocksdb_ok (mp_rocksdb ME)" and "mempool_bincode_ok ME" and "ms_inv ME ys s"
    and "(d, e) \<in> set (ms_pending s) \<or> stored ME (mp_store s) d \<noteq> None"
    and "run_all (mempool_sync_handle ME) evs s = (r, t)"
  shows "(d, e) \<in> set (ms_pending t) \<or> stored ME (mp_store t) d \<noteq> None \<or> (\<exists>ev\<in>set evs. expires ME (fst e) ev)"
  using assms(3-5)
proof (induction evs arbitrary: ys s)
  case (Cons ev evs)
  obtain q u where h: "mempool_sync_handle ME ev s = (q, u)" by (cases "mempool_sync_handle ME ev s")
  note step = mempool_sync_handle_inv [OF assms(1,2) Cons.prems(1) h]
  then have rest: "run_all (mempool_sync_handle ME) evs u = (r, t)" using Cons.prems(3) h by (simp add: run_sq)
  from step Cons.prems(2) consider "expires ME (fst e) ev"
    | "(d, e) \<in> set (ms_pending u) \<or> stored ME (mp_store u) d \<noteq> None"
    unfolding ms_keeps_def by blast
  then show ?case
  proof cases
    case 2
    from Cons.IH [OF _ this rest] step show ?thesis by auto
  qed simp
qed (simp add: ret_def)

lemma ms_entry_waits:
  assumes "ms_inv ME evs s" and "(d, k, c, ts) \<in> set (ms_pending s)"
  shows "(d, c) \<in> set (ms_waiting s) \<and> \<not> batch_cancelled s c"
proof -
  from assms(2) have "c \<in> (\<lambda>(_, _, c, _). c) ` set (ms_pending s)" by force
  then show ?thesis using assms by (auto simp: ms_inv_def ms_links_def batch_cancelled_def)
qed

section \<open>Properties\<close>

text \<open>
  C30. The mempool's synchronizer forgets no batch that is still wanted. On a database without errors the task never
  panics. Take any run over requests, cleanups, writes and timer ticks in any order, and a digest of any of the
  requests: it is pending with a waiter that is not cancelled, or in the store, or after this request came a cleanup
  for a round at least \<open>gc_depth\<close> above the one in which the digest was asked for, by this request or by an
  earlier one.
\<close>

theorem mempool_synchronizer_keeps:
  assumes "rocksdb_ok (mp_rocksdb ME)" and "mempool_bincode_ok ME" and "mempool_sync_run ME st evs = (r, s)"
  shows "r = Ok () \<and> (\<forall>pre now digests target post. evs = pre @ Ms_message now (Synchronize_batches digests target) # post \<longrightarrow>
      (\<forall>d\<in>set digests. (\<exists>c. (d, c) \<in> set (ms_waiting s) \<and> \<not> batch_cancelled s c) \<or> stored ME (mp_store s) d \<noteq> None
         \<or> (\<exists>j. asked_at (pre @ [Ms_message now (Synchronize_batches digests target)]) d j \<and> (\<exists>ev\<in>set post. expires ME j ev))))"
proof -
  have new: "ms_inv ME [] (mempool_sync_new st)"
    by (simp add: ms_inv_def mempool_sync_new_def ms_links_def)
  note loop = mempool_sync_loop [OF assms(1,2)]
  have r: "r = Ok ()" "ms_inv ME evs s"
    using loop [OF new, of evs] assms(3) by (simp_all add: mempool_sync_run_def)
  have "(\<exists>c. (d, c) \<in> set (ms_waiting s) \<and> \<not> batch_cancelled s c) \<or> stored ME (mp_store s) d \<noteq> None
      \<or> (\<exists>j. asked_at (pre @ [Ms_message now (Synchronize_batches ds target)]) d j \<and> (\<exists>ev\<in>set post. expires ME j ev))"
    if evs: "evs = pre @ Ms_message now (Synchronize_batches ds target) # post" and d: "d \<in> set ds" for pre now ds target post d
  proof -
    let ?ev = "Ms_message now (Synchronize_batches ds target)"
    obtain u where u: "run_all (mempool_sync_handle ME) pre (mempool_sync_new st) = (Ok (), u)" "ms_inv ME pre u"
      using loop [OF new, of pre] by auto
    obtain q w where w: "mempool_sync_handle ME ?ev u = (q, w)" by (cases "mempool_sync_handle ME ?ev u")
    note step = mempool_sync_handle_inv [OF assms(1,2) u(2) w]
    then have "d \<in> fst ` set (ms_pending w)" using d unfolding ms_keeps_def by blast
    then obtain j c ts where e: "(d, j, c, ts) \<in> set (ms_pending w)" by force
    then have at: "asked_at (pre @ [?ev]) d j" using step unfolding ms_inv_def by blast
    have "run_all (mempool_sync_handle ME) post w = (r, s)"
      using assms(3) u(1) w step by (simp add: mempool_sync_run_def evs run_all_append run_sq)
    from mempool_sync_loop_keeps [OF assms(1,2) _ _ this] step e
    have "(d, j, c, ts) \<in> set (ms_pending s) \<or> stored ME (mp_store s) d \<noteq> None \<or> (\<exists>ev\<in>set post. expires ME j ev)"
      by fastforce
    then show ?thesis using at ms_entry_waits [OF r(2)] by blast
  qed
  then show ?thesis using r(1) by blast
qed

text \<open>
  The garbage collection keeps exactly the last \<open>gc_depth\<close> rounds: on a cleanup for round \<open>k\<close>, a request made
  in round \<open>j\<close> stays when \<open>j + gc_depth > k\<close>, as natural numbers, without wrap-around; before round \<open>gc_depth\<close>
  every request stays.
\<close>

theorem mempool_cleanup_window:
  "mempool_sync_cleanup ME k s = (Ok (), s\<lparr>ms_round := k, ms_pending := filter (\<lambda>(_, j, _).
     unat k < unat (gc_depth (mp_parameters ME)) \<or> unat k < unat j + unat (gc_depth (mp_parameters ME))) (ms_pending s)\<rparr>)"
proof (cases "k < gc_depth (mp_parameters ME)")
  case True
  then show ?thesis by (simp add: mempool_sync_cleanup_def proc_simps word_less_nat_alt)
next
  case False
  then have le: "gc_depth (mp_parameters ME) \<le> k" by simp
  have "k - gc_depth (mp_parameters ME) < j \<longleftrightarrow> unat k < unat j + unat (gc_depth (mp_parameters ME))" for j
    using le by (auto simp: word_less_nat_alt word_le_nat_alt unat_sub)
  then show ?thesis
    using False by (simp add: mempool_sync_cleanup_def proc_simps word_less_nat_alt Let_def)
qed

text \<open>
  A retry asks enough peers for all that is overdue. When something is overdue, one request for exactly the
  overdue digests goes to \<open>sync_retry_nodes\<close> other members, or to all of them if there are fewer, none of them
  twice, whatever the shuffling; when nothing is overdue, nothing is sent.
\<close>

theorem mempool_retry_targets:
  assumes "mset (shuffle (map snd (mempool_broadcast_addresses (mp_committee ME) (mp_name ME)))) =
      mset (map snd (mempool_broadcast_addresses (mp_committee ME) (mp_name ME)))"
    and "ser_mempool ME (BatchRequest (overdue ME now (ms_pending s)) (mp_name ME)) = Some m"
  shows "\<exists>targets. mempool_sync_timer ME shuffle now s = (Ok (), s\<lparr>mp_out := mp_out s @ map (\<lambda>a. Mp_send a m) targets\<rparr>)
    \<and> mset targets \<subseteq># mset (map snd (mempool_broadcast_addresses (mp_committee ME) (mp_name ME)))
    \<and> length targets = (if overdue ME now (ms_pending s) = [] then 0
         else min (sync_retry_nodes (mp_parameters ME)) (length (mempool_broadcast_addresses (mp_committee ME) (mp_name ME))))"
proof -
  let ?as = "map snd (mempool_broadcast_addresses (mp_committee ME) (mp_name ME))"
  let ?ts = "if overdue ME now (ms_pending s) = [] then [] else take (sync_retry_nodes (mp_parameters ME)) (shuffle ?as)"
  have len: "length (shuffle ?as) = length ?as" using mset_eq_length [OF assms(1)] .
  have "mset (take n (shuffle ?as)) \<subseteq># mset ?as" for n
    unfolding assms(1) [symmetric] by (metis append_take_drop_id mset_append mset_subset_eq_add_left)
  then show ?thesis
    using mempool_sync_timer_run [OF assms(2), of shuffle] len
    by (intro exI [of _ ?ts]) (simp add: min.commute)
qed

end
