(* ===== verification/Mempool.thy ===== *)
theory Mempool
  imports Batch_Maker Quorum_Waiter Processor Mempool_Synchronizer Wire
begin

text \<open>
  \<open>Mempool::spawn\<close> of \<open>mempool/src/mempool.rs\<close>: how the tasks of the mempool are put together, and what holds of
  the chain batch maker, quorum waiter, processor, consensus, and of its copy at the peers. A channel delivers in
  order what is sent on it.
\<close>

section \<open>Wiring\<close>

text \<open>\<open>BatchMaker::spawn\<close> with the parameters and the committee of the mempool.\<close>

definition mempool_batch_config :: "('k, 'db) mempool_env \<Rightarrow> bool \<Rightarrow> batch_config" where
  "mempool_batch_config ME benchmark =
     \<lparr>bm_batch_size = of_nat (batch_size (mp_parameters ME)),
      bm_max_batch_delay = max_batch_delay (mp_parameters ME),
      bm_addresses = mempool_broadcast_addresses (mp_committee ME) (mp_name ME),
      bm_benchmark = benchmark,
      bm_serialize = (\<lambda>b. ser_mempool ME (Batch b))\<rparr>"

text \<open>The two \<open>NetworkReceiver\<close>s listen on all interfaces, on the ports of the committee.\<close>

definition mempool_listen :: "('k, 'db) mempool_env \<Rightarrow> (unit, socket_addr \<times> socket_addr) outcome" where
  "mempool_listen ME =
     (case (transactions_address (mp_committee ME) (mp_name ME), mempool_address (mp_committee ME) (mp_name ME)) of
        (Some (_, port), Some (_, port')) \<Rightarrow> Ok (([0, 0, 0, 0], port), ([0, 0, 0, 0], port'))
      | _ \<Rightarrow> Panic ''Our public key is not in the committee'')"

text \<open>The batches that the quorum waiter of this node lets through, in the order of its messages.\<close>

definition mempool_quorum_run ::
    "('k, 'db) mempool_env \<Rightarrow> quorum_event list \<Rightarrow> (unit, unit) outcome \<times> quorum_waiter" where
  "mempool_quorum_run ME evs =
     quorum_run (mp_committee ME) (mempool_stake (mp_committee ME) (mp_name ME)) evs"

text \<open>What the receiver passes to the processor of the batches of others.\<close>

definition received_batches :: "mempool_dispatched list \<Rightarrow> bytes list" where
  "received_batches ds = concat (map (\<lambda>x. case x of To_processor b \<Rightarrow> [b] | _ \<Rightarrow> []) ds)"

section \<open>The chain of the own batches\<close>

definition mempool_committee_live :: "('k, 'db) mempool_env \<Rightarrow> bool" where
  "mempool_committee_live ME \<longleftrightarrow> mempool_committee_ok (mp_committee ME) \<and> mp_name ME \<in> mempool_names (mp_committee ME)
     \<and> 0 < (\<Sum>a\<in>mempool_names (mp_committee ME). unat (mempool_stake (mp_committee ME) a))
     \<and> mempool_broadcast_addresses (mp_committee ME) (mp_name ME) \<noteq> []"

definition frame_of :: "('k, 'db) mempool_env \<Rightarrow> batch \<Rightarrow> bytes" where
  "frame_of ME b = (case ser_mempool ME (Batch b) of Some m \<Rightarrow> m | None \<Rightarrow> [])"

lemma sealed_append [simp]: "sealed (es @ es') = sealed es @ sealed es'"
  by (simp add: sealed_def)

lemma sealed_filter: "sealed (filter no_reset es) = sealed es"
  by (induction es) (auto simp: sealed_def no_reset_def split: batch_effect.splits)

lemma sealed_effects:
  assumes "mempool_bincode_ok ME"
  shows "sealed (concat (map (seal_effects (mempool_batch_config ME bench)) bs)) = map (frame_of ME) bs"
proof (induction bs)
  case (Cons b bs)
  obtain m where "ser_mempool ME (Batch b) = Some m" using assms by (auto simp: mempool_bincode_ok_def)
  then have "sealed (seal_effects (mempool_batch_config ME bench) b) = [frame_of ME b]"
    by (simp add: seal_effects_def frame_of_def mempool_batch_config_def sealed_def)
  with Cons show ?case by simp
qed (simp add: sealed_def)

lemma takeWhile_all: "(\<forall>x\<in>set xs. P x) \<Longrightarrow> takeWhile P xs = xs"
  by (simp add: takeWhile_eq_all_conv)

lemma dispatch_frames:
  assumes "mempool_bincode_ok ME" and "de_mempool ME' = de_mempool ME"
  shows "\<exists>ds'. run_all (mempool_dispatch ME' {}) (map (frame_of ME) bs) ds = (Ok (), ds @ ds')
    \<and> received_batches ds' = map (frame_of ME) bs \<and> count_list ds' Mp_ack = length bs"
proof (induction bs arbitrary: ds)
  case Nil
  show ?case by (auto simp: ret_def received_batches_def)
next
  case (Cons b bs)
  obtain m where "ser_mempool ME (Batch b) = Some m" "de_mempool ME m = Ok (Batch b)"
    using assms(1) by (auto simp: mempool_bincode_ok_def)
  then have "mempool_dispatch ME' {} (frame_of ME b) ds = (Ok (), ds @ [Mp_ack, To_processor (frame_of ME b)])"
    by (simp add: mempool_dispatch_def frame_of_def assms(2) proc_simps)
  note h = this
  obtain ds' where "run_all (mempool_dispatch ME' {}) (map (frame_of ME) bs) (ds @ [Mp_ack, To_processor (frame_of ME b)])
      = (Ok (), (ds @ [Mp_ack, To_processor (frame_of ME b)]) @ ds')"
    "received_batches ds' = map (frame_of ME) bs" "count_list ds' Mp_ack = length bs"
    using Cons.IH by blast
  then show ?case
    using h by (intro exI [of _ "Mp_ack # To_processor (frame_of ME b) # ds'"]) (simp add: run_sq received_batches_def)
qed

section \<open>Properties\<close>

text \<open>
  Every transaction a client sends gets to the consensus. Take a run of the batch maker over any transactions
  and timer expiries, a run of the quorum waiter over the sealed batches in order in which a quorum acknowledges
  each, and a run of the processor over what that delivers, interleaved with writes of other tasks to the store.
  All three return; the digests announced to the consensus are those of the frames of batches that, with the
  current batch, make up exactly the transactions received, in order; and the store holds bytes with each of these
  digests.
\<close>

theorem transactions_reach_consensus:
  assumes "mempool_committee_live ME" and "mempool_bincode_ok ME" and "rocksdb_ok (mp_rocksdb ME)"
    and "batch_env_ok (mempool_batch_config ME bench) evs"
    and "batch_run (mempool_batch_config ME bench) evs = (r1, s1)"
    and "concat (map batch_of qevs) = sealed (bm_out s1)"
    and "\<forall>ev\<in>set qevs. quorum_event_ok (mp_committee ME) (mp_name ME) ev \<and> acked (mp_committee ME) (mp_name ME) ev"
    and "mempool_quorum_run ME qevs = (r2, s2)"
    and "batches pevs = delivered s2" and "writes_ok ME (batches pevs) pevs"
    and "processor_run ME pevs \<lparr>mp_store = st, mp_out = []\<rparr> = (r3, s3)"
  shows "r1 = Ok () \<and> r2 = Ok () \<and> r3 = Ok () \<and> (\<exists>bs. concat bs @ current_batch s1 = transactions evs
    \<and> announced (mp_out s3) = map (hash32 (mp_dalek ME) \<circ> frame_of ME) bs
    \<and> (\<forall>b\<in>set bs. \<exists>v. stored ME (mp_store s3) (hash32 (mp_dalek ME) (frame_of ME b)) = Some v
         \<and> hash32 (mp_dalek ME) v = hash32 (mp_dalek ME) (frame_of ME b)))"
proof -
  obtain bs where bs: "r1 = Ok ()" "concat bs @ current_batch s1 = transactions evs"
    "filter no_reset (bm_out s1) = concat (map (seal_effects (mempool_batch_config ME bench)) bs)"
  proof (cases rule: exE [OF batch_maker_loop [OF assms(4)]])
    case (1 bs)
    with that assms(5) show ?thesis by auto
  qed
  have "sealed (bm_out s1) = map (frame_of ME) bs"
    by (metis bs(3) sealed_filter sealed_effects [OF assms(2)])
  then have q: "r2 = Ok ()" "delivered s2 = map (frame_of ME) bs"
    using quorum_loop [of "mp_committee ME" "mp_name ME" qevs quorum_waiter_new] assms(1,6-8)
    by (auto simp: mempool_committee_live_def mempool_quorum_run_def quorum_run_def takeWhile_all quorum_waiter_new_def)
  have "r3 = Ok ()" "announced (mp_out s3) = map (hash32 (mp_dalek ME)) (map (frame_of ME) bs)"
    "\<forall>d\<in>set (announced (mp_out s3)). \<exists>v. stored ME (mp_store s3) d = Some v \<and> hash32 (mp_dalek ME) v = d"
    using processor_loop [OF assms(3,10), of "\<lparr>mp_store = st, mp_out = []\<rparr>"] assms(9,11) q(2)
    by (auto simp: processor_run_def)
  then show ?thesis using bs q(1) by (intro conjI exI [of _ bs]) simp_all
qed

text \<open>
  C31. Peers announce the same digests. The frames that one mempool broadcasts for its batches are acknowledged, one
  by one, by the handler of any other node and go to its processor as they are, so that this node announces to its
  consensus, in the same order, exactly the digests that the sender announces for them, as long as the tasks behind the handler run.
\<close>

theorem peers_announce_same_digests:
  assumes "mempool_bincode_ok ME" and "de_mempool ME' = de_mempool ME" and "mp_dalek ME' = mp_dalek ME"
    and "rocksdb_ok (mp_rocksdb ME')"
    and "run_all (mempool_dispatch ME' {}) (map (frame_of ME) bs) [] = (r, ds)"
  shows "r = Ok () \<and> count_list ds Mp_ack = length bs
    \<and> (\<exists>s. processor_run ME' (map Processor_batch (received_batches ds)) \<lparr>mp_store = st, mp_out = []\<rparr> = (Ok (), s)
         \<and> announced (mp_out s) = map (hash32 (mp_dalek ME) \<circ> frame_of ME) bs)"
proof -
  have ds: "r = Ok ()" "count_list ds Mp_ack = length bs" "received_batches ds = map (frame_of ME) bs"
    using dispatch_frames [OF assms(1,2), of bs "[]"] assms(5) by auto
  have "writes_ok ME' (map (frame_of ME) bs) (map Processor_batch (map (frame_of ME) bs))"
    by (auto simp: writes_ok_def)
  from processor_loop [OF assms(4) this, of "\<lparr>mp_store = st, mp_out = []\<rparr>"] show ?thesis
    by (simp add: ds processor_run_def assms(3) del: map_map) auto
qed

end
