(* ===== verification/Receiver.thy ===== *)
theory Receiver
  imports Mempool
begin

text \<open>
  \<open>network/src/receiver.rs\<close> and the errors of \<open>network/src/error.rs\<close>: the task that reads the frames of one
  connection and gives them to the handler of its node. What the socket delivers is a list of frames and failures;
  the three handlers of the program are \<open>dispatch\<close> of the consensus and the two of the mempool.
\<close>

section \<open>Errors\<close>

text \<open>\<open>std::io::Error\<close> is a parameter.\<close>

datatype 'io network_error =
    FailedToConnect socket_addr u16 'io
  | FailedToListen 'io
  | FailedToSendMessage socket_addr 'io
  | FailedToReceiveMessage socket_addr 'io
  | FailedToReceiveAck socket_addr
  | UnexpectedAck socket_addr

section \<open>The runner of a connection\<close>

text \<open>How \<open>spawn_runner\<close> ends: the peer closed the connection, the handler or the socket failed, or it panicked.\<close>

datatype ('io, 'e) runner_end =
    Closed_by_peer
  | Handler_failed 'e
  | Receive_failed "'io network_error"
  | Runner_panicked string
  | Runner_stuck

primrec runner ::
    "(bytes \<Rightarrow> ('s, 'e, unit) proc) \<Rightarrow> socket_addr \<Rightarrow> ('io + bytes) list \<Rightarrow> 's \<Rightarrow> ('io, 'e) runner_end \<times> 's" where
  "runner handler peer [] s = (Closed_by_peer, s)"
| "runner handler peer (frame # frames) s =
     (case map_err (FailedToReceiveMessage peer) frame of
        Inl e \<Rightarrow> (Receive_failed e, s)
      | Inr message \<Rightarrow>
          (case handler message s of
             (Ok _, s') \<Rightarrow> runner handler peer frames s'
           | (Err e, s') \<Rightarrow> (Handler_failed e, s')
           | (Panic p, s') \<Rightarrow> (Runner_panicked p, s')
           | (Diverge, s') \<Rightarrow> (Runner_stuck, s')))"

lemma runner_append:
  assumes "run_all handler ms s = (Ok (), t)"
  shows "runner handler peer (map Inr ms @ frames) s = runner handler peer frames t"
  using assms
proof (induction ms arbitrary: s)
  case (Cons m ms)
  obtain r u where h: "handler m s = (r, u)" by (cases "handler m s")
  with Cons.prems have "r = Ok ()" by (cases r) (simp_all add: run_sq)
  with h Cons show ?case by (simp add: run_sq map_err_def)
qed (simp add: ret_def)

section \<open>Properties\<close>

text \<open>
  C32. One malformed frame closes a connection of the consensus, but none of the mempool. After frames that the
  handler of the consensus accepts, a frame that does not deserialize ends the task: what was dispatched before
  stays, and no later frame of the connection is read. The handler of the mempool acknowledges the malformed
  frame, drops it, and goes on with the next.
\<close>

theorem malformed_frames:
  assumes "run_all (dispatch E gone) good [] = (Ok (), ds)" and "de_msg E bad = Err ()"
    and "run_all (mempool_dispatch ME gone') good' ds0 = (Ok (), ds')" and "de_mempool ME bad' = Err ()"
  shows "runner (dispatch E gone) peer (map Inr (good @ bad # rest)) [] = (Handler_failed SerializationError, ds)
    \<and> runner (mempool_dispatch ME gone') peer (map Inr (good' @ bad' # rest')) ds0
        = runner (mempool_dispatch ME gone') peer (map Inr rest') (ds' @ [Mp_ack])"
proof -
  have "dispatch E gone bad ds = (Err SerializationError, ds)"
    using assms(2) by (simp add: dispatch_def deserialize_def bnd_def fail_def)
  moreover have "mempool_dispatch ME gone' bad' ds' = (Ok (), ds' @ [Mp_ack])"
    using assms(4) by (simp add: mempool_dispatch_def proc_simps)
  ultimately show ?thesis
    using runner_append [OF assms(1), of peer "map Inr (bad # rest)"]
      runner_append [OF assms(3), of peer "map Inr (bad' # rest')"]
    by (simp add: map_err_def)
qed

text \<open>
  Every frame of a client becomes one transaction. The runner of a connection of a client reads, while the batch maker runs, until the client
  closes it or the socket fails, and hands the frames read, each as it is and in order, to the batch maker.
\<close>

theorem client_frames_are_transactions:
  assumes "Batch_maker_channel \<notin> gone"
  shows "runner (tx_dispatch gone) peer (map Inr txs @ tail) ds =
     runner (tx_dispatch gone) peer tail (ds @ map To_batch_maker txs)"
proof -
  have "run_all (tx_dispatch gone) txs ds = (Ok (), ds @ map To_batch_maker txs)"
    using assms by (induction txs arbitrary: ds) (simp_all add: tx_dispatch_def proc_simps)
  then show ?thesis by (rule runner_append)
qed

end
