(* ===== verification/Listener.thy ===== *)
theory Listener
  imports Receiver Consensus_Node
begin

text \<open>
  The accept loop of \<open>network/src/receiver.rs\<close>: a receiver binds its port, accepts connections and spawns a runner for
  each of them, which shares the handler, and so the channels behind it, with the runners of all other connections.
  What the runtime does is a list of events in any order: a socket comes in or fails, one of the connections yields a
  frame or an error, its peer hangs up, or a task behind the handler ends, which closes its channel. \<open>Receiver\<close> has the runner of a
  single connection.
\<close>

section \<open>The receiver\<close>

datatype ('io, 'c) listen_event =
    Incoming socket_addr
  | Accept_failed 'io
  | Arrives nat "'io + bytes"
  | Hangs_up nat
  | Task_ended 'c

text \<open>A runner is the peer of its connection and how it has ended, if it has; connections are numbered as accepted.
  \<open>ended\<close> are the channels of the handler whose tasks have ended.\<close>

record ('s, 'io, 'e, 'c) listener =
  listen_address :: socket_addr
  runners :: "(socket_addr \<times> ('io, 'e) runner_end option) list"
  handled :: 's
  ended :: "'c set"

definition listener_new :: "socket_addr \<Rightarrow> 's \<Rightarrow> ('s, 'io, 'e, 'c) listener" where
  "listener_new addr s = \<lparr>listen_address = addr, runners = [], handled = s, ended = {}\<rparr>"

definition receiver_bind :: "socket_addr \<Rightarrow> bool \<Rightarrow> 's \<Rightarrow> (unit, ('s, 'io, 'e, 'c) listener) outcome" where
  "receiver_bind addr bound s =
     (if bound then Ok (listener_new addr s) else Panic ''Failed to bind TCP port'')"

text \<open>One turn of the loop of \<open>spawn_runner\<close>, for what \<open>reader.next()\<close> returns; a panic ends only the task it is in.\<close>

definition runner_turn ::
    "(bytes \<Rightarrow> ('s, 'e, unit) proc) \<Rightarrow> socket_addr \<Rightarrow> ('io + bytes) option \<Rightarrow> 's \<Rightarrow> ('io, 'e) runner_end option \<times> 's" where
  "runner_turn handler peer frame s =
     (case frame of
        None \<Rightarrow> (Some Closed_by_peer, s)
      | Some frame \<Rightarrow>
          (case map_err (FailedToReceiveMessage peer) frame of
             Inl e \<Rightarrow> (Some (Receive_failed e), s)
           | Inr message \<Rightarrow>
               (case handler message s of
                  (Ok _, s') \<Rightarrow> (None, s')
                | (Err e, s') \<Rightarrow> (Some (Handler_failed e), s')
                | (Panic p, s') \<Rightarrow> (Some (Runner_panicked p), s')
                | (Diverge, s') \<Rightarrow> (Some Runner_stuck, s'))))"

definition resume ::
    "('c set \<Rightarrow> bytes \<Rightarrow> ('s, 'e, unit) proc) \<Rightarrow> nat \<Rightarrow> ('io + bytes) option \<Rightarrow> ('s, 'io, 'e, 'c) listener \<Rightarrow>
       ('s, 'io, 'e, 'c) listener" where
  "resume handler n frame l =
     (if n < length (runners l) then
        (case runners l ! n of
           (peer, Some _) \<Rightarrow> l
         | (peer, None) \<Rightarrow>
             (case runner_turn (handler (ended l)) peer frame (handled l) of
                (r, s) \<Rightarrow> l\<lparr>runners := (runners l)[n := (peer, r)], handled := s\<rparr>))
      else l)"

primrec listen_turn ::
    "('c set \<Rightarrow> bytes \<Rightarrow> ('s, 'e, unit) proc) \<Rightarrow> ('io, 'c) listen_event \<Rightarrow> ('s, 'io, 'e, 'c) listener \<Rightarrow>
       ('s, 'io, 'e, 'c) listener" where
  "listen_turn handler (Incoming peer) l = l\<lparr>runners := runners l @ [(peer, None)]\<rparr>"
| "listen_turn handler (Accept_failed e) l = l"
| "listen_turn handler (Arrives n frame) l = resume handler n (Some frame) l"
| "listen_turn handler (Hangs_up n) l = resume handler n None l"
| "listen_turn handler (Task_ended c) l = l\<lparr>ended := insert c (ended l)\<rparr>"

definition listen ::
    "('c set \<Rightarrow> bytes \<Rightarrow> ('s, 'e, unit) proc) \<Rightarrow> ('io, 'c) listen_event list \<Rightarrow> ('s, 'io, 'e, 'c) listener \<Rightarrow>
       ('s, 'io, 'e, 'c) listener" where
  "listen handler evs l = fold (listen_turn handler) evs l"

section \<open>One connection on its own\<close>

text \<open>
  The turns of a runner, and none after it has ended: each is what the connection yields, and the channels that are closed by then.
\<close>

fun turns ::
    "('c set \<Rightarrow> bytes \<Rightarrow> ('s, 'e, unit) proc) \<Rightarrow> socket_addr \<Rightarrow> ('c set \<times> ('io + bytes) option) list \<Rightarrow> 's \<Rightarrow>
       ('io, 'e) runner_end option \<times> 's" where
  "turns handler peer [] s = (None, s)"
| "turns handler peer ((gone, x) # xs) s =
     (case runner_turn (handler gone) peer x s of
        (None, s') \<Rightarrow> turns handler peer xs s'
      | (Some e, s') \<Rightarrow> (Some e, s'))"

text \<open>
  What \<open>runner\<close>, which has the whole connection at once, does with what a connection yields: it has seen the end of the connection only
  when there is one. While no task ends, the turns are those of \<open>runner\<close>.
\<close>

definition serve ::
    "(bytes \<Rightarrow> ('s, 'e, unit) proc) \<Rightarrow> socket_addr \<Rightarrow> ('io + bytes) option list \<Rightarrow> 's \<Rightarrow> ('io, 'e) runner_end option \<times> 's" where
  "serve handler peer xs s =
     (case runner handler peer (map the (takeWhile (\<lambda>x. x \<noteq> None) xs)) s of
        (e, t) \<Rightarrow> (if e = Closed_by_peer \<and> None \<notin> set xs then None else Some e, t))"

lemma turns_serve: "turns handler peer (map (Pair gone) xs) s = serve (handler gone) peer xs s"
  by (induction xs arbitrary: s)
    (auto simp: serve_def runner_turn_def split: option.split sum.split prod.split outcome.split)

lemma turns_append:
  "turns handler peer (xs @ ys) s =
     (case turns handler peer xs s of (None, t) \<Rightarrow> turns handler peer ys t | (Some e, t) \<Rightarrow> (Some e, t))"
  by (induction xs arbitrary: s) (auto split: prod.split option.split)

text \<open>
  What the \<open>n\<close>-th connection yields in a list of events, of which \<open>k\<close> connections have been accepted and the tasks of \<open>gone\<close> have
  ended before.
\<close>

fun reads :: "nat \<Rightarrow> nat \<Rightarrow> 'c set \<Rightarrow> ('io, 'c) listen_event list \<Rightarrow> ('c set \<times> ('io + bytes) option) list" where
  "reads n k gone [] = []"
| "reads n k gone (Incoming peer # evs) = reads n (Suc k) gone evs"
| "reads n k gone (Accept_failed e # evs) = reads n k gone evs"
| "reads n k gone (Arrives m frame # evs) = (if m = n \<and> m < k then [(gone, Some frame)] else []) @ reads n k gone evs"
| "reads n k gone (Hangs_up m # evs) = (if m = n \<and> m < k then [(gone, None)] else []) @ reads n k gone evs"
| "reads n k gone (Task_ended c # evs) = reads n k (insert c gone) evs"

fun accepted :: "('io, 'c) listen_event list \<Rightarrow> socket_addr list" where
  "accepted [] = []"
| "accepted (Incoming peer # evs) = peer # accepted evs"
| "accepted (_ # evs) = accepted evs"

definition tasks_ended :: "('io, 'c) listen_event list \<Rightarrow> 'c set" where
  "tasks_ended evs = {c. Task_ended c \<in> set evs}"

lemma tasks_ended_simps [simp]:
  "tasks_ended [] = {}" "tasks_ended (evs @ evs') = tasks_ended evs \<union> tasks_ended evs'" "tasks_ended [Task_ended c] = {c}"
  "tasks_ended [Incoming peer] = {}" "tasks_ended [Arrives n frame] = {}" "tasks_ended [Hangs_up n] = {}" "tasks_ended [Accept_failed e] = {}"
  "tasks_ended (Task_ended c # evs) = insert c (tasks_ended evs)" "tasks_ended (Incoming peer # evs) = tasks_ended evs"
  "tasks_ended (Arrives n frame # evs) = tasks_ended evs" "tasks_ended (Hangs_up n # evs) = tasks_ended evs"
  "tasks_ended (Accept_failed e # evs) = tasks_ended evs"
  by (auto simp: tasks_ended_def)

lemma accepted_append: "accepted (evs @ evs') = accepted evs @ accepted evs'"
  by (induction evs rule: accepted.induct) auto

lemma reads_append:
  "reads n k gone (evs @ evs') = reads n k gone evs @ reads n (k + length (accepted evs)) (gone \<union> tasks_ended evs) evs'"
  by (induction n k gone evs rule: reads.induct) auto

text \<open>
  The connections are served apart: what has been sent is an interleaving, each entry tagged with its connection, and every
  connection has sent, and ended as, a runner that reads what this connection yields, as if there were no other.
\<close>

definition served_apart ::
    "('c set \<Rightarrow> bytes \<Rightarrow> ('d list, 'e, unit) proc) \<Rightarrow> ('io, 'c) listen_event list \<Rightarrow> (nat \<times> 'd) list \<Rightarrow>
       ('d list, 'io, 'e, 'c) listener \<Rightarrow> bool" where
  "served_apart handler evs tagged l \<longleftrightarrow> map snd tagged = handled l \<and> map fst (runners l) = accepted evs \<and> ended l = tasks_ended evs
     \<and> (\<forall>n < length (runners l). turns handler (fst (runners l ! n)) (reads n 0 {} evs) []
          = (snd (runners l ! n), map snd (filter (\<lambda>x. fst x = n) tagged)))
     \<and> (\<forall>x\<in>set tagged. fst x < length (runners l))"

section \<open>Handlers\<close>

text \<open>
  The contract of \<open>MessageHandler::dispatch\<close> that the handlers of the program keep: the answer and what is sent depend on the
  frame alone, as a handler has only the sending ends of channels.
\<close>

locale message_handler =
  fixes handler :: "'c set \<Rightarrow> bytes \<Rightarrow> ('d list, 'e, unit) proc" and reply :: "'c set \<Rightarrow> bytes \<Rightarrow> ('e, unit) outcome"
    and sends :: "'c set \<Rightarrow> bytes \<Rightarrow> 'd list"
  assumes handles: "handler gone m ds = (reply gone m, ds @ sends gone m)"
begin

lemma turn_parts:
  obtains r ds' where "\<And>ds. runner_turn (handler gone) peer frame ds = (r, ds @ ds')"
proof (cases frame)
  case (Some x)
  show thesis
  proof (cases x)
    case (Inr m)
    then show thesis using that Some by (cases "reply gone m") (simp_all add: runner_turn_def map_err_def handles)
  qed (rule that, simp add: Some runner_turn_def map_err_def)
qed (rule that, simp add: runner_turn_def)

lemma apart_same:
  assumes "served_apart handler evs tagged l" and "\<And>n. n < length (runners l) \<Longrightarrow> turns handler (fst (runners l ! n)) (reads n 0 {} (evs @ [ev])) []
    = turns handler (fst (runners l ! n)) (reads n 0 {} evs) []" and "accepted [ev] = []" and "tasks_ended [ev] = {}"
  shows "served_apart handler (evs @ [ev]) tagged l"
  using assms by (simp add: served_apart_def accepted_append)

lemma resume_apart:
  assumes inv: "served_apart handler evs tagged l" and ev: "ev = Arrives n (the frame) \<and> frame \<noteq> None \<or> ev = Hangs_up n \<and> frame = None"
  shows "\<exists>tagged. served_apart handler (evs @ [ev]) tagged (resume handler n frame l)"
proof -
  have len: "length (accepted evs) = length (runners l)" using inv unfolding served_apart_def by (metis length_map)
  have end': "ended l = tasks_ended evs" and none: "tasks_ended [ev] = {}" using inv ev by (auto simp: served_apart_def)
  have acc: "accepted (evs @ [ev]) = accepted evs" using ev by (auto simp: accepted_append)
  have reads: "reads m 0 {} (evs @ [ev]) = reads m 0 {} evs @ (if m = n \<and> m < length (runners l) then [(ended l, frame)] else [])" for m
    using ev end' by (auto simp: reads_append len)
  show ?thesis
  proof (cases "n < length (runners l) \<and> snd (runners l ! n) = None")
    case False
    then have "resume handler n frame l = l" by (auto simp: resume_def split: prod.split option.split)
    moreover have "served_apart handler (evs @ [ev]) tagged l"
    proof (rule apart_same [OF inv])
      show "accepted [ev] = []" using ev by auto
      show "tasks_ended [ev] = {}" by (rule none)
      show "turns handler (fst (runners l ! m)) (reads m 0 {} (evs @ [ev])) [] = turns handler (fst (runners l ! m)) (reads m 0 {} evs) []"
        if "m < length (runners l)" for m
        using inv that False by (auto simp: served_apart_def reads turns_append split: option.split)
    qed
    ultimately show ?thesis by auto
  next
    case True
    then obtain peer where n: "n < length (runners l)" "runners l ! n = (peer, None)"
      by (metis prod.collapse)
    obtain r ds where turn: "\<And>s. runner_turn (handler (ended l)) peer frame s = (r, s @ ds)" using turn_parts by blast
    let ?tagged = "tagged @ map (Pair n) ds"
    have l: "resume handler n frame l = l\<lparr>runners := (runners l)[n := (peer, r)], handled := handled l @ ds\<rparr>"
      using n turn by (simp add: resume_def)
    have old: "turns handler (fst (runners l ! m)) (reads m 0 {} evs) [] = (snd (runners l ! m), map snd (filter (\<lambda>x. fst x = m) tagged))"
      if "m < length (runners l)" for m
      using inv that by (simp add: served_apart_def)
    have mine: "turns handler peer (reads n 0 {} (evs @ [ev])) [] = (r, map snd (filter (\<lambda>x. fst x = n) ?tagged))"
      using old [OF n(1)] n by (simp add: reads turns_append turn filter_map comp_def split: option.split)
    have other: "turns handler (fst (runners l ! m)) (reads m 0 {} (evs @ [ev])) []
        = (snd (runners l ! m), map snd (filter (\<lambda>x. fst x = m) ?tagged))" if "m < length (runners l)" "m \<noteq> n" for m
      using old [OF that(1)] that(2) by (simp add: reads filter_map comp_def)
    have "map fst ((runners l)[n := (peer, r)]) = map fst (runners l)" using n by (simp add: map_update list_update_same_conv)
    then have "served_apart handler (evs @ [ev]) ?tagged (resume handler n frame l)"
      using inv mine other n(1) unfolding served_apart_def l acc by (auto simp: nth_list_update comp_def none)
    then show ?thesis by blast
  qed
qed

lemma incoming_apart:
  assumes inv: "served_apart handler evs tagged l"
  shows "served_apart handler (evs @ [Incoming peer]) tagged (listen_turn handler (Incoming peer) l)"
proof -
  have len: "length (accepted evs) = length (runners l)" using inv unfolding served_apart_def by (metis length_map)
  have "reads n k gone evs = []" if "n \<ge> k + length (accepted evs)" for n k gone
    using that by (induction n k gone evs rule: reads.induct) auto
  then have fresh: "reads (length (runners l)) 0 {} evs = []" using len by simp
  have none: "filter (\<lambda>x. fst x = length (runners l)) tagged = []" using inv by (auto simp: served_apart_def filter_empty_conv)
  show ?thesis
    using inv fresh none unfolding served_apart_def by (auto simp: accepted_append reads_append nth_append less_Suc_eq)
qed

lemma listen_apart:
  assumes "handled l = []" and "runners l = []" and "ended l = {}"
  shows "\<exists>tagged. served_apart handler evs tagged (listen handler evs l)"
proof (induction evs rule: rev_induct)
  case Nil
  show ?case using assms by (auto simp: served_apart_def listen_def)
next
  case (snoc ev evs)
  then obtain tagged where inv: "served_apart handler evs tagged (listen handler evs l)" by blast
  show ?case
  proof (cases ev)
    case (Accept_failed e)
    then show ?thesis using apart_same [OF inv, of ev] by (auto simp: listen_def reads_append)
  next
    case (Task_ended c)
    then show ?thesis using inv by (intro exI [of _ tagged]) (auto simp: served_apart_def listen_def reads_append accepted_append)
  next
    case (Incoming peer)
    then show ?thesis using incoming_apart [OF inv, of peer] unfolding listen_def by auto
  qed (use resume_apart [OF inv] in \<open>auto simp: listen_def\<close>)
qed

end

text \<open>The three handlers: of the consensus, of the mempool for its peers, and of the mempool for clients.\<close>

definition sent :: "('c \<Rightarrow> bytes \<Rightarrow> ('d list, 'e, unit) proc) \<Rightarrow> 'c \<Rightarrow> bytes \<Rightarrow> 'd list" where
  "sent handler gone m = snd (handler gone m [])"

definition answer :: "('c \<Rightarrow> bytes \<Rightarrow> ('d list, 'e, unit) proc) \<Rightarrow> 'c \<Rightarrow> bytes \<Rightarrow> ('e, unit) outcome" where
  "answer handler gone m = fst (handler gone m [])"

interpretation consensus_handler: message_handler "dispatch E" "answer (dispatch E)" "sent (dispatch E)" for E
  by unfold_locales
    (auto simp: answer_def sent_def dispatch_def deserialize_def bnd_def sq_def modify_def fail_def ret_def panic_def channel_send_def
      split: outcome.split consensus_message.split)

interpretation peer_handler: message_handler "mempool_dispatch ME" "answer (mempool_dispatch ME)" "sent (mempool_dispatch ME)" for ME
  by unfold_locales
    (auto simp: answer_def sent_def mempool_dispatch_def bnd_def sq_def modify_def ret_def panic_def channel_send_def
      split: outcome.split mempool_message.split)

interpretation client_handler: message_handler tx_dispatch "answer tx_dispatch" "sent tx_dispatch"
  by unfold_locales (simp add: answer_def sent_def tx_dispatch_def channel_send_def modify_def panic_def)

section \<open>Property\<close>

text \<open>
  C33. Connections disturb each other through the tasks behind the handler only. However the frames, errors and ends of the connections of a receiver
  interleave with each other and with the ends of the tasks that the handler sends to, what the handler has sent is an interleaving of what a
  runner alone would send for each connection, and each connection has ended, or not, as that runner would, which finds the same
  channels closed at the same frames. So a frame that is malformed, or whose parts make the handler panic, ends at most the connection on which it came; what
  may end others is a task that has ended. This holds for the receivers of the consensus, of the peers' mempools and of the clients.
\<close>

theorem connections_served_apart:
  "(\<exists>tagged. served_apart (dispatch E) evs tagged (listen (dispatch E) evs (listener_new addr [])))
   \<and> (\<exists>tagged. served_apart (mempool_dispatch ME) evs' tagged (listen (mempool_dispatch ME) evs' (listener_new addr [])))
   \<and> (\<exists>tagged. served_apart tx_dispatch evs' tagged (listen tx_dispatch evs' (listener_new addr [])))"
  by (intro conjI consensus_handler.listen_apart peer_handler.listen_apart client_handler.listen_apart)
    (simp_all add: listener_new_def)

text \<open>
  How a connection can end another. A sync request for a digest under which the shared store has no block, but a batch of the mempool, ends the helper;
  after that turn, a sync request ends the connection on which it comes, whatever it asks for.
\<close>

theorem foreign_request_ends_connections:
  assumes "rx_helper n = (d, origin) # requests" and "Helper_task \<notin> cn_stopped n" and "Helper_task \<notin> cn_looping n"
    and "address (my_committee E) origin = Some a"
    and "store_read (rocksdb E) (digest_bytes d) (cn_store n) = Inr (Some v)" and "de_block E v = Err ()"
    and "de_msg E f = Ok (SyncRequest d' origin')"
  shows "runner (dispatch E (cn_closed (consensus_turn E P Cn_help n))) peer (Inr f # frames) ds
    = (Runner_panicked ''Failed to send consensus message'', ds)"
proof -
  have "helper_handle E (d, origin) \<lparr>my_store = cn_store n, out = []\<rparr>
      = (Panic ''Failed to deserialize our own block'', \<lparr>my_store = cn_store n, out = []\<rparr>)"
    using assms(4-6) by (simp add: helper_handle_def proc_simps)
  then have "Helper_channel \<in> cn_closed (consensus_turn E P Cn_help n)"
    using assms(1-3) by (auto simp: consensus_turn_def turn_task_def helper_turn_def stop_task_def cn_closed_def)
  then show ?thesis
    using assms(7) by (simp add: dispatch_def deserialize_def map_err_def channel_send_def proc_simps)
qed

end
