(* ===== verification/Reliable_Sender.thy ===== *)
theory Reliable_Sender
  imports Tasks "HOL-Library.Sublist"
begin

text \<open>
  \<open>network/src/reliable_sender.rs\<close>: the sender that transmits a message again until it is acknowledged or
  cancelled. A cancel handler is a number; \<open>conn_closed\<close> is the set of the handlers that their owners have
  dropped. The outcomes of the calls on sockets, the expiry of the timer and the choice of \<open>select!\<close> are events;
  an event that cannot happen in the phase the connection is in changes nothing.
\<close>

section \<open>One connection\<close>

type_synonym handler = nat
type_synonym inner_message = "bytes \<times> handler"

text \<open>
  Where the task \<open>Connection::run\<close> is: at \<open>TcpStream::connect\<close>, in the loop \<open>'waiter\<close>, and in \<open>keep_alive\<close> in
  the loop that empties the buffer or at the \<open>select!\<close>.
\<close>

datatype conn_phase = Connecting | Waiting | Flushing | Selecting

text \<open>\<open>conn_wire\<close> and \<open>conn_answers\<close> are what was written to and read from the current TCP connection.\<close>

record connection =
  conn_phase :: conn_phase
  conn_delay :: u64
  conn_retry :: u16
  conn_buffer :: "inner_message list"
  conn_pending :: "inner_message list"
  conn_channel :: "inner_message list"
  conn_closed :: "handler set"
  conn_acked :: "(handler \<times> bytes) list"
  conn_wire :: "inner_message list"
  conn_answers :: "bytes list"

definition retry_delay_initial :: u64 where
  "retry_delay_initial = 200"

definition connection_new :: connection where
  "connection_new = \<lparr>conn_phase = Connecting, conn_delay = retry_delay_initial, conn_retry = 0, conn_buffer = [],
     conn_pending = [], conn_channel = [], conn_closed = {}, conn_acked = [], conn_wire = [], conn_answers = []\<rparr>"

text \<open>What follows \<open>break 'connection\<close>: the messages without an ACK go back to the front of the buffer.\<close>

definition conn_lost :: "connection \<Rightarrow> connection" where
  "conn_lost s = s\<lparr>conn_phase := Connecting, conn_buffer := conn_pending s @ conn_buffer s, conn_pending := []\<rparr>"

definition conn_connected :: "bool \<Rightarrow> connection \<Rightarrow> connection" where
  "conn_connected ok s =
     (if ok
      then s\<lparr>conn_phase := Flushing, conn_delay := retry_delay_initial, conn_retry := 0, conn_wire := [], conn_answers := []\<rparr>
      else s\<lparr>conn_phase := Waiting\<rparr>)"

definition conn_timer :: "connection \<Rightarrow> connection" where
  "conn_timer s = s\<lparr>conn_phase := Connecting, conn_delay := min (2 * conn_delay s) 60000, conn_retry := conn_retry s + 1\<rparr>"

text \<open>The other branch of \<open>'waiter\<close>: the channel is drained into the buffer, which is purged of what was cancelled.\<close>

definition conn_drain :: "connection \<Rightarrow> connection" where
  "conn_drain s = (case conn_channel s of
       [] \<Rightarrow> s
     | m # ms \<Rightarrow> s\<lparr>conn_channel := ms, conn_buffer := filter (\<lambda>(_, h). h \<notin> conn_closed s) (conn_buffer s @ [m])\<rparr>)"

text \<open>One turn of \<open>while let Some((data, handler)) = self.buffer.pop_front()\<close>; \<open>ok\<close> is the result of \<open>writer.send\<close>.\<close>

definition conn_flush :: "bool \<Rightarrow> connection \<Rightarrow> connection" where
  "conn_flush ok s = (case conn_buffer s of
       [] \<Rightarrow> s\<lparr>conn_phase := Selecting\<rparr>
     | (data, h) # ms \<Rightarrow>
         if h \<in> conn_closed s then s\<lparr>conn_buffer := ms\<rparr>
         else if ok then s\<lparr>conn_buffer := ms, conn_pending := conn_pending s @ [(data, h)], conn_wire := conn_wire s @ [(data, h)]\<rparr>
         else conn_lost s)"

definition conn_recv :: "connection \<Rightarrow> connection" where
  "conn_recv s = (case conn_channel s of
       [] \<Rightarrow> s
     | m # ms \<Rightarrow> s\<lparr>conn_channel := ms, conn_buffer := conn_buffer s @ [m], conn_phase := Flushing\<rparr>)"

text \<open>The branch \<open>response = reader.next()\<close>; \<open>None\<close> is the end of the stream or an error.\<close>

definition conn_answer :: "bytes option \<Rightarrow> connection \<Rightarrow> connection" where
  "conn_answer response s = (case conn_pending s of
       [] \<Rightarrow> conn_lost s
     | (data, h) # ms \<Rightarrow>
         (case response of
            Some bs \<Rightarrow> s\<lparr>conn_pending := ms, conn_acked := conn_acked s @ [(h, bs)], conn_answers := conn_answers s @ [bs],
              conn_phase := Flushing\<rparr>
          | None \<Rightarrow> conn_lost s))"

datatype conn_event =
    Conn_submit bytes handler
  | Conn_cancel handler
  | Conn_connect bool
  | Conn_timer
  | Conn_drain
  | Conn_flush bool
  | Conn_recv
  | Conn_answer "bytes option"

definition conn_step :: "conn_event \<Rightarrow> connection \<Rightarrow> connection" where
  "conn_step ev s = (case ev of
       Conn_submit data h \<Rightarrow> s\<lparr>conn_channel := conn_channel s @ [(data, h)]\<rparr>
     | Conn_cancel h \<Rightarrow> s\<lparr>conn_closed := insert h (conn_closed s)\<rparr>
     | Conn_connect ok \<Rightarrow> if conn_phase s = Connecting then conn_connected ok s else s
     | Conn_timer \<Rightarrow> if conn_phase s = Waiting then conn_timer s else s
     | Conn_drain \<Rightarrow> if conn_phase s = Waiting then conn_drain s else s
     | Conn_flush ok \<Rightarrow> if conn_phase s = Flushing then conn_flush ok s else s
     | Conn_recv \<Rightarrow> if conn_phase s = Selecting then conn_recv s else s
     | Conn_answer response \<Rightarrow> if conn_phase s = Selecting then conn_answer response s else s)"

definition conn_run :: "conn_event list \<Rightarrow> connection \<Rightarrow> connection" where
  "conn_run evs s = fold conn_step evs s"

lemma conn_run_simps [simp]:
  "conn_run [] s = s" "conn_run (ev # evs) s = conn_run evs (conn_step ev s)"
  "conn_run (evs @ evs') s = conn_run evs' (conn_run evs s)"
  by (simp_all add: conn_run_def)

lemmas conn_defs = conn_step_def conn_connected_def conn_timer_def conn_drain_def conn_flush_def conn_recv_def
  conn_answer_def conn_lost_def

section \<open>The queue it implements\<close>

text \<open>
  The abstraction of a connection: the messages it still has to get acknowledged, oldest first. Of this queue,
  messages are acknowledged at the front only, new messages join at the end, and nothing leaves but what was
  cancelled.
\<close>

definition queue :: "connection \<Rightarrow> inner_message list" where
  "queue s = conn_pending s @ conn_buffer s @ conn_channel s"

definition submitted :: "conn_event list \<Rightarrow> inner_message list" where
  "submitted evs = concat (map (\<lambda>ev. case ev of Conn_submit data h \<Rightarrow> [(data, h)] | _ \<Rightarrow> []) evs)"

definition history :: "connection \<Rightarrow> handler list" where
  "history s = map fst (conn_acked s) @ map snd (queue s)"

inductive queue_step :: "handler set \<Rightarrow> inner_message list \<Rightarrow> inner_message list \<times> (handler \<times> bytes) list \<Rightarrow>
    inner_message list \<times> (handler \<times> bytes) list \<Rightarrow> bool" for cl where
  submit: "queue_step cl [m] (q, acks) (q @ [m], acks)"
| ack: "queue_step cl [] ((data, h) # q, acks) (q, acks @ [(h, bs)])"
| purge: "subseq q' q \<Longrightarrow> filter (\<lambda>(_, h). h \<notin> cl) q' = filter (\<lambda>(_, h). h \<notin> cl) q \<Longrightarrow>
    queue_step cl [] (q, acks) (q', acks)"

lemma queue_stay: "queue_step cl [] (q, acks) (q, acks)"
  by (rule purge) simp_all

lemma queue_tail: "h \<in> cl \<Longrightarrow> queue_step cl [] (p @ (data, h) # q, acks) (p @ q, acks)"
  by (rule purge) (simp_all add: subseq_append' list_emb_Cons)

lemma queue_filter: "queue_step cl [] (p @ q @ r, acks) (p @ filter (\<lambda>(_, h). h \<notin> cl) q @ r, acks)"
  by (rule purge) (simp_all add: subseq_append')

lemma queue_step_order:
  assumes "queue_step cl ms (q, acks) (q', acks')" and "subseq (map fst acks @ map snd q) hs"
    and "filter (\<lambda>h. h \<notin> cl) (map fst acks @ map snd q) = filter (\<lambda>h. h \<notin> cl) hs"
  shows "subseq (map fst acks' @ map snd q') (hs @ map snd ms)
    \<and> filter (\<lambda>h. h \<notin> cl) (map fst acks' @ map snd q') = filter (\<lambda>h. h \<notin> cl) (hs @ map snd ms)"
  using assms(1)
proof (cases rule: queue_step.cases)
  case submit
  then show ?thesis using assms(2,3) by (auto simp: append_assoc [symmetric] simp del: append_assoc)
next
  case ack
  then show ?thesis using assms(2,3) by simp
next
  case purge
  have "filter (\<lambda>h. h \<notin> cl) (map snd q) = map snd (filter (\<lambda>(_, h). h \<notin> cl) q)" for q :: "inner_message list"
    by (simp add: filter_map comp_def case_prod_unfold)
  then have "filter (\<lambda>h. h \<notin> cl) (map snd q') = filter (\<lambda>h. h \<notin> cl) (map snd q)" using purge by simp
  moreover have "subseq (map fst acks @ map snd q') (map fst acks @ map snd q)"
    using purge by (simp add: subseq_append' subseq_map)
  ultimately show ?thesis using assms(2,3) purge by (auto intro: subseq_order.trans)
qed

lemma filter_shrink:
  "filter P xs = filter P ys \<Longrightarrow> (\<And>x. Q x \<Longrightarrow> P x) \<Longrightarrow> filter Q xs = filter Q ys"
  by (metis (mono_tags, lifting) filter_filter filter_cong)

lemma conn_step_refines:
  "queue_step (conn_closed s) (submitted [ev]) (queue s, conn_acked s) (queue (conn_step ev s), conn_acked (conn_step ev s))"
proof (cases ev)
  case (Conn_submit data h)
  then show ?thesis using queue_step.submit [of _ "(data, h)" "queue s"] by (simp add: conn_step_def queue_def submitted_def)
next
  case Conn_drain
  show ?thesis
  proof (cases "conn_phase s = Waiting \<and> conn_channel s \<noteq> []")
    case True
    then obtain m ms where "conn_channel s = m # ms" by (cases "conn_channel s") auto
    then show ?thesis
      using True queue_filter [of "conn_closed s" "conn_pending s" "conn_buffer s @ [m]" ms]
      by (simp add: Conn_drain conn_defs queue_def submitted_def)
  qed (auto simp: Conn_drain conn_defs queue_def submitted_def queue_stay split: list.split)
next
  case (Conn_flush ok)
  show ?thesis
  proof (cases "conn_buffer s")
    case (Cons m ms)
    then show ?thesis
      using queue_tail [of "snd m" "conn_closed s" "conn_pending s" "fst m" "ms @ conn_channel s"]
      by (cases m) (auto simp: Conn_flush conn_defs queue_def submitted_def queue_stay)
  qed (simp add: Conn_flush conn_defs queue_def submitted_def queue_stay)
next
  case (Conn_answer response)
  show ?thesis
  proof (cases "conn_pending s")
    case (Cons m ms)
    then show ?thesis
      using queue_step.ack [of _ "fst m" "snd m" "ms @ conn_buffer s @ conn_channel s"]
      by (cases m; cases response) (auto simp: Conn_answer conn_defs queue_def submitted_def queue_stay)
  qed (simp add: Conn_answer conn_defs queue_def submitted_def queue_stay)
qed (auto simp: conn_defs queue_def submitted_def queue_stay split: list.split)

lemma conn_closed_mono: "conn_closed s \<subseteq> conn_closed (conn_step ev s)"
  by (cases ev) (auto simp: conn_defs split: list.split option.split)

lemma submitted_append: "submitted (evs @ evs') = submitted evs @ submitted evs'"
  by (simp add: submitted_def)

lemma history_run:
  "subseq (history (conn_run evs connection_new)) (map snd (submitted evs))
   \<and> filter (\<lambda>h. h \<notin> conn_closed (conn_run evs connection_new)) (history (conn_run evs connection_new))
       = filter (\<lambda>h. h \<notin> conn_closed (conn_run evs connection_new)) (map snd (submitted evs))"
proof (induction evs rule: rev_induct)
  case Nil
  show ?case by (simp add: history_def queue_def connection_new_def submitted_def)
next
  case (snoc ev evs)
  let ?s = "conn_run evs connection_new"
  note order = queue_step_order [OF conn_step_refines [of ?s ev], of "map snd (submitted evs)", folded history_def]
  have o: "subseq (history (conn_step ev ?s)) (map snd (submitted (evs @ [ev])))"
    and f: "filter (\<lambda>h. h \<notin> conn_closed ?s) (history (conn_step ev ?s))
        = filter (\<lambda>h. h \<notin> conn_closed ?s) (map snd (submitted (evs @ [ev])))"
    using order snoc.IH by (simp_all add: submitted_append)
  have "filter (\<lambda>h. h \<notin> conn_closed (conn_step ev ?s)) (history (conn_step ev ?s))
      = filter (\<lambda>h. h \<notin> conn_closed (conn_step ev ?s)) (map snd (submitted (evs @ [ev])))"
    by (rule filter_shrink [OF f]) (use conn_closed_mono [of ?s ev] in auto)
  with o show ?case by simp
qed

section \<open>Acknowledgements\<close>

text \<open>The answers of a connection belong, in order, to what was written on it; the rest of that is pending.\<close>

definition wire_inv :: "connection \<Rightarrow> bool" where
  "wire_inv s \<longleftrightarrow> (conn_phase s \<in> {Flushing, Selecting} \<longrightarrow> (\<exists>earlier. length (conn_answers s) \<le> length (conn_wire s)
       \<and> conn_pending s = drop (length (conn_answers s)) (conn_wire s)
       \<and> conn_acked s = earlier @ zip (map snd (conn_wire s)) (conn_answers s)))
     \<and> (conn_phase s \<in> {Connecting, Waiting} \<longrightarrow> conn_pending s = [])"

lemma zip_answer:
  assumes "length bs \<le> length ws" and "drop (length bs) ws = w # rest"
  shows "zip ws (bs @ [b]) = zip ws bs @ [(w, b)]" and "Suc (length bs) \<le> length ws"
    and "drop (Suc (length bs)) ws = rest"
proof -
  define us where "us = take (length bs) ws"
  have ws: "ws = us @ w # rest" using append_take_drop_id [of "length bs" ws] assms(2) by (simp add: us_def)
  have "length us = length bs" using assms(1) by (simp add: us_def)
  then show "zip ws (bs @ [b]) = zip ws bs @ [(w, b)]"
    by (simp add: ws zip_append1)
  show "Suc (length bs) \<le> length ws" using arg_cong [OF assms(2), of length] by simp
  show "drop (Suc (length bs)) ws = rest" using assms(2) by (metis drop_Suc tl_drop list.sel(3))
qed

lemma wire_inv_lost: "wire_inv (conn_lost s)"
  by (simp add: wire_inv_def conn_lost_def)

lemma wire_inv_step:
  assumes "wire_inv s"
  shows "wire_inv (conn_step ev s)"
proof (cases ev)
  case (Conn_flush ok)
  consider "conn_step ev s = conn_lost s"
    | "conn_phase s \<noteq> Flushing"
    | "conn_phase s = Flushing" "conn_buffer s = []"
    | m ms where "conn_phase s = Flushing" "conn_buffer s = m # ms" "snd m \<in> conn_closed s"
    | m ms where "conn_phase s = Flushing" "conn_buffer s = m # ms" "snd m \<notin> conn_closed s" ok
    using Conn_flush
    by (cases "conn_buffer s"; cases "conn_phase s = Flushing"; cases "snd (hd (conn_buffer s)) \<in> conn_closed s"; cases ok)
      (auto simp: conn_step_def conn_flush_def)
  then show ?thesis
  proof cases
    case 1
    then show ?thesis by (simp add: wire_inv_lost)
  qed (use assms in \<open>auto simp: Conn_flush conn_step_def conn_flush_def wire_inv_def zip_append1\<close>)
next
  case (Conn_answer response)
  show ?thesis
  proof (cases "conn_phase s = Selecting \<and> conn_pending s \<noteq> [] \<and> response \<noteq> None")
    case True
    then obtain data h ms bs where p: "conn_pending s = (data, h) # ms" "response = Some bs"
      by (cases "conn_pending s") auto
    from assms True obtain earlier where e: "length (conn_answers s) \<le> length (conn_wire s)"
        "drop (length (conn_answers s)) (conn_wire s) = (data, h) # ms"
        "conn_acked s = earlier @ zip (map snd (conn_wire s)) (conn_answers s)"
      using p by (auto simp: wire_inv_def)
    have "zip (map snd (conn_wire s)) (conn_answers s @ [bs]) = zip (map snd (conn_wire s)) (conn_answers s) @ [(h, bs)]"
      by (rule zip_answer(1)) (use e in \<open>simp_all add: drop_map\<close>)
    then show ?thesis
      using True p zip_answer(2,3) [OF e(1,2)] e(3) by (auto simp: Conn_answer conn_step_def conn_answer_def wire_inv_def)
  next
    case False
    then have "conn_step ev s = s \<or> conn_step ev s = conn_lost s"
      by (auto simp: Conn_answer conn_step_def conn_answer_def split: list.split option.split)
    then show ?thesis using assms wire_inv_lost by metis
  qed
qed (use assms in \<open>auto simp: wire_inv_def conn_step_def conn_connected_def conn_timer_def conn_drain_def conn_recv_def
    split: list.split\<close>)

lemma wire_inv_run: "wire_inv s \<Longrightarrow> wire_inv (conn_run evs s)"
  by (induction evs arbitrary: s) (simp_all add: wire_inv_step)

lemma wire_inv_new: "wire_inv connection_new"
  by (simp add: wire_inv_def connection_new_def)

section \<open>A network that helps\<close>

text \<open>
  What the connection waits for, when the network lets it succeed: the peer is reached, the timer expires, a write succeeds, a frame on
  the wire is answered, a message is taken from the channel. Callers neither submit nor cancel anything here.
\<close>

definition helpful :: "connection \<Rightarrow> conn_event \<Rightarrow> bool" where
  "helpful s ev \<longleftrightarrow> (case ev of
       Conn_submit _ _ \<Rightarrow> False
     | Conn_cancel _ \<Rightarrow> False
     | Conn_connect ok \<Rightarrow> ok \<and> conn_phase s = Connecting
     | Conn_timer \<Rightarrow> conn_phase s = Waiting
     | Conn_drain \<Rightarrow> conn_phase s = Waiting \<and> conn_channel s \<noteq> []
     | Conn_flush ok \<Rightarrow> ok \<and> conn_phase s = Flushing
     | Conn_recv \<Rightarrow> conn_phase s = Selecting \<and> conn_channel s \<noteq> []
     | Conn_answer response \<Rightarrow> response \<noteq> None \<and> conn_phase s = Selecting \<and> conn_pending s \<noteq> [])"

primrec goes_well :: "connection \<Rightarrow> conn_event list \<Rightarrow> bool" where
  "goes_well s [] \<longleftrightarrow> True"
| "goes_well s (ev # evs) \<longleftrightarrow> helpful s ev \<and> goes_well (conn_step ev s) evs"

lemma goes_well_append: "goes_well s (evs @ evs') \<longleftrightarrow> goes_well s evs \<and> goes_well (conn_run evs s) evs'"
  by (induction evs arbitrary: s) simp_all

text \<open>What is left to do: a bound on the events that may still help.\<close>

definition work_left :: "connection \<Rightarrow> nat" where
  "work_left s = 6 * length (conn_channel s) + 4 * length (conn_buffer s) + 2 * length (conn_pending s)
     + (case conn_phase s of Selecting \<Rightarrow> 0 | Flushing \<Rightarrow> 1 | Connecting \<Rightarrow> 2 | Waiting \<Rightarrow> 3)"

lemma helpful_step:
  assumes "helpful s ev"
  shows "work_left (conn_step ev s) < work_left s" and "conn_closed (conn_step ev s) = conn_closed s" and "submitted [ev] = []"
proof -
  have filt: "length (filter P (xs @ [x])) \<le> Suc (length xs)" for P :: "inner_message \<Rightarrow> bool" and xs x
    using length_filter_le [of P "xs @ [x]"] by simp
  show "work_left (conn_step ev s) < work_left s"
  proof (cases ev)
    case Conn_drain
    then obtain m ms where "conn_channel s = m # ms" "conn_phase s = Waiting" using assms by (auto simp: helpful_def neq_Nil_conv)
    then show ?thesis
      using filt [of "\<lambda>(_, h). h \<notin> conn_closed s" "conn_buffer s" m] by (simp add: Conn_drain conn_defs work_left_def)
  qed (use assms in \<open>auto simp: helpful_def conn_defs work_left_def neq_Nil_conv split: list.split\<close>)
  show "conn_closed (conn_step ev s) = conn_closed s"
    using assms by (cases ev) (auto simp: helpful_def conn_defs split: list.split)
  show "submitted [ev] = []" using assms by (cases ev) (auto simp: helpful_def submitted_def)
qed

lemma goes_well_run:
  "goes_well s net \<Longrightarrow> length net + work_left (conn_run net s) \<le> work_left s \<and> conn_closed (conn_run net s) = conn_closed s \<and> submitted net = []"
proof (induction net arbitrary: s)
  case (Cons ev net)
  have "submitted (ev # net) = submitted [ev] @ submitted net" by (simp add: submitted_def)
  with Cons helpful_step [of s ev] show ?case by fastforce
qed (simp add: submitted_def)

lemma selecting_flushed: "conn_phase (conn_run evs connection_new) = Selecting \<Longrightarrow> conn_buffer (conn_run evs connection_new) = []"
proof (induction evs rule: rev_induct)
  case (snoc ev evs)
  then show ?case
    by (cases ev) (auto simp: conn_defs split: if_splits list.splits option.splits)
qed (simp add: connection_new_def)

text \<open>When nothing is left to help with, nothing is queued.\<close>

lemma no_help_left:
  assumes "conn_phase s = Selecting \<Longrightarrow> conn_buffer s = []" and "\<forall>ev. \<not> helpful s ev"
  shows "queue s = []"
proof -
  have "\<not> helpful s (Conn_connect True)" "\<not> helpful s Conn_timer" "\<not> helpful s (Conn_flush True)" "\<not> helpful s Conn_recv"
    "\<not> helpful s (Conn_answer (Some []))"
    using assms(2) by blast+
  then show ?thesis using assms(1) by (cases "conn_phase s") (simp_all add: helpful_def queue_def)
qed

lemma goes_well_to_end: "\<exists>net. goes_well s net \<and> (\<forall>ev. \<not> helpful (conn_run net s) ev)"
proof (induction "work_left s" arbitrary: s rule: less_induct)
  case less
  show ?case
  proof (cases "\<exists>ev. helpful s ev")
    case True
    then obtain ev where ev: "helpful s ev" by blast
    from less [OF helpful_step(1) [OF ev]] obtain net where "goes_well (conn_step ev s) net"
      "\<forall>ev'. \<not> helpful (conn_run net (conn_step ev s)) ev'" by blast
    with ev show ?thesis by (intro exI [of _ "ev # net"]) simp
  next
    case False
    then show ?thesis by (intro exI [of _ "[]"]) simp
  qed
qed

section \<open>Properties\<close>

text \<open>
  C22. A connection refines a queue: whatever happens to it - a submission, a cancellation, a failure to connect,
  to write or to read, a reconnection - the messages it has still to get acknowledged change only by a new
  message joining at the end, by an acknowledgement of the one at the front, or by the removal of messages that
  were cancelled.
\<close>

theorem connection_refines_queue:
  "queue_step (conn_closed s) (submitted [ev]) (queue s, conn_acked s) (queue (conn_step ev s), conn_acked (conn_step ev s))"
  by (rule conn_step_refines)

text \<open>
  C23. The reliable sender loses nothing and repeats no acknowledgement. After any events, the handlers
  acknowledged, followed by those of the messages still queued, are those of the messages submitted, in the order
  of their submission, except that some of the cancelled ones may be missing.
\<close>

theorem reliable_sender_exactly_once:
  fixes evs :: "conn_event list"
  defines "s \<equiv> conn_run evs connection_new"
  shows "subseq (map fst (conn_acked s) @ map snd (queue s)) (map snd (submitted evs))
    \<and> filter (\<lambda>h. h \<notin> conn_closed s) (map fst (conn_acked s) @ map snd (queue s))
        = filter (\<lambda>h. h \<notin> conn_closed s) (map snd (submitted evs))"
  using history_run [of evs] by (simp add: s_def history_def)

text \<open>
  An acknowledgement belongs to its message. While a connection is up, the answers read from it have gone, one
  each and in order, to the handlers of the frames written on it, and the frames that follow those are the ones
  pending. So with a peer that answers each frame, a handler completes only when its own message was received.
\<close>

theorem answers_match_frames:
  assumes "conn_run evs connection_new = s" and "conn_phase s \<in> {Flushing, Selecting}"
  shows "\<exists>earlier. length (conn_answers s) \<le> length (conn_wire s)
    \<and> conn_acked s = earlier @ zip (map snd (conn_wire s)) (conn_answers s)
    \<and> conn_pending s = drop (length (conn_answers s)) (conn_wire s)"
  using wire_inv_run [OF wire_inv_new, of evs] assms unfolding wire_inv_def by blast

theorem answers_match_frames_witness:
  "\<exists>earlier. conn_acked (conn_run [Conn_submit [1] 7, Conn_submit [2] 8, Conn_connect True, Conn_flush True, Conn_recv,
      Conn_flush True, Conn_flush True, Conn_answer (Some [65])] connection_new) = earlier @ [(7, [65])]"
  using answers_match_frames [OF refl, of "[Conn_submit [1] 7, Conn_submit [2] 8, Conn_connect True, Conn_flush True, Conn_recv,
      Conn_flush True, Conn_flush True, Conn_answer (Some [65])]"]
  by (simp add: conn_defs connection_new_def)

text \<open>
  C24. Every message that is not cancelled gets through once the network lets it. From any state, whatever happened before, let only
  events follow that help, in any order - the peer is reached, the timer expires, writes succeed, frames are answered, the channel is read - while
  no caller submits or cancels. There are at most as many of them as the connection has work for; they can always go on until none is
  left; and then nothing is queued and every handler that has not been dropped has its acknowledgement, in the order of submission.
\<close>

theorem reliable_sender_finishes:
  assumes "s = conn_run evs connection_new" and "goes_well s net"
  shows "length net \<le> 6 * length (conn_channel s) + 4 * length (conn_buffer s) + 2 * length (conn_pending s) + 3
    \<and> (\<exists>more. goes_well s (net @ more) \<and> (\<forall>ev. \<not> helpful (conn_run (net @ more) s) ev))
    \<and> ((\<forall>ev. \<not> helpful (conn_run net s) ev) \<longrightarrow> queue (conn_run net s) = [] \<and>
         filter (\<lambda>h. h \<notin> conn_closed s) (map fst (conn_acked (conn_run net s))) = filter (\<lambda>h. h \<notin> conn_closed s) (map snd (submitted evs)))"
proof (intro conjI impI)
  note run = goes_well_run [OF assms(2)]
  have "work_left s \<le> 6 * length (conn_channel s) + 4 * length (conn_buffer s) + 2 * length (conn_pending s) + 3"
    by (simp add: work_left_def split: conn_phase.split)
  then show "length net \<le> 6 * length (conn_channel s) + 4 * length (conn_buffer s) + 2 * length (conn_pending s) + 3"
    using run by linarith
  show "\<exists>more. goes_well s (net @ more) \<and> (\<forall>ev. \<not> helpful (conn_run (net @ more) s) ev)"
    using goes_well_to_end [of "conn_run net s"] assms(2) by (auto simp: goes_well_append)
  assume "\<forall>ev. \<not> helpful (conn_run net s) ev"
  then show q: "queue (conn_run net s) = []"
    using no_help_left selecting_flushed [of "evs @ net"] assms(1) by simp
  show "filter (\<lambda>h. h \<notin> conn_closed s) (map fst (conn_acked (conn_run net s))) = filter (\<lambda>h. h \<notin> conn_closed s) (map snd (submitted evs))"
    using history_run [of "evs @ net"] run q assms(1) by (simp add: history_def submitted_append)
qed

text \<open>Two messages, of which the first is cancelled in the buffer while the peer is out of reach.\<close>

definition sender_events :: "conn_event list" where
  "sender_events = [Conn_submit [1] 7, Conn_connect False, Conn_drain, Conn_cancel 7, Conn_submit [2] 8]"

definition sender_help :: "conn_event list" where
  "sender_help = [Conn_drain, Conn_timer, Conn_connect True, Conn_flush True, Conn_flush True, Conn_answer (Some [65]), Conn_flush True]"

theorem reliable_sender_finishes_witness:
  "filter (\<lambda>h. h \<noteq> 7) (map fst (conn_acked (conn_run (sender_events @ sender_help) connection_new))) = [8]"
proof -
  obtain s where s: "s = conn_run sender_events connection_new" by blast
  then have s': "s = connection_new\<lparr>conn_phase := Waiting, conn_buffer := [([1], 7)], conn_channel := [([2], 8)], conn_closed := {7}\<rparr>"
    by (simp add: sender_events_def conn_defs connection_new_def)
  have net: "goes_well s sender_help"
    unfolding s' by (simp add: sender_help_def helpful_def conn_defs connection_new_def)
  have "conn_phase (conn_run sender_help s) = Selecting" "conn_pending (conn_run sender_help s) = []"
    "conn_channel (conn_run sender_help s) = []"
    unfolding s' by (simp_all add: sender_help_def conn_defs connection_new_def)
  then have "\<not> helpful (conn_run sender_help s) ev" for ev by (cases ev) (simp_all add: helpful_def)
  then have "filter (\<lambda>h. h \<notin> conn_closed s) (map fst (conn_acked (conn_run sender_help s)))
      = filter (\<lambda>h. h \<notin> conn_closed s) (map snd (submitted sender_events))"
    using reliable_sender_finishes [OF s net] by blast
  moreover have "conn_closed s = {7}" by (simp add: s' connection_new_def)
  ultimately show ?thesis by (simp add: s sender_events_def submitted_def)
qed

text \<open>
  The delay between attempts to connect doubles up to a minute: after \<open>n\<close> failures in a row it is
  200 times 2^n milliseconds or 60,000, whichever is less, without overflow; it never leaves these bounds.
\<close>

theorem reconnect_backoff:
  "unat (conn_delay (conn_run (concat (replicate n [Conn_connect False, Conn_timer])) connection_new)) = min (200 * 2 ^ n) 60000"
proof -
  have *: "conn_phase t = Connecting \<and> unat (conn_delay t) = min (200 * 2 ^ n) 60000"
    if "t = conn_run (concat (replicate n [Conn_connect False, Conn_timer])) connection_new" for t
    using that
  proof (induction n arbitrary: t)
    case 0
    then show ?case by (simp add: connection_new_def retry_delay_initial_def)
  next
    case (Suc n)
    let ?s = "conn_run (concat (replicate n [Conn_connect False, Conn_timer])) connection_new"
    have t: "t = conn_run [Conn_connect False, Conn_timer] ?s"
      using Suc.prems by (simp add: replicate_append_same [symmetric] del: replicate_append_same)
    have IH: "conn_phase ?s = Connecting" "unat (conn_delay ?s) = min (200 * 2 ^ n) 60000" using Suc.IH by simp_all
    have "unat (2 * conn_delay ?s) = 2 * unat (conn_delay ?s)"
      using IH(2) by (simp add: unat_word_ariths)
    then have "unat (min (2 * conn_delay ?s) 60000) = min (200 * 2 ^ Suc n) 60000"
      using IH(2) by (simp add: min_def word_le_nat_alt)
    then show ?case using IH(1) by (simp add: t conn_defs)
  qed
  then show ?thesis by blast
qed

end
