(* ===== verification/Simple_Sender.thy ===== *)
theory Simple_Sender
  imports Reliable_Sender "HOL-Library.Multiset"
begin

text \<open>
  \<open>network/src/simple_sender.rs\<close> with its copies that differ in the longest delay before a message (\<open>_global\<close>,
  \<open>_local\<close>, \<open>_regional\<close>), and the methods of \<open>ReliableSender\<close> that pick a connection. The \<open>rand\<close> crate is a
  parameter with its state; what happens on the sockets are events.
\<close>

section \<open>The rand crate\<close>

record 'g rand =
  gen_range :: "u64 \<Rightarrow> u64 \<Rightarrow> 'g \<Rightarrow> u64 \<times> 'g"
  shuffle :: "socket_addr list \<Rightarrow> 'g \<Rightarrow> socket_addr list \<times> 'g"

text \<open>\<open>gen_range\<close> yields a number of the half-open range, \<open>shuffle\<close> permutes.\<close>

definition rand_ok :: "'g rand \<Rightarrow> bool" where
  "rand_ok R \<longleftrightarrow> (\<forall>l h g. l < h \<longrightarrow> l \<le> fst (gen_range R l h g) \<and> fst (gen_range R l h g) < h)
     \<and> (\<forall>xs g. mset (fst (shuffle R xs g)) = mset xs)"

section \<open>A best-effort connection\<close>

datatype simple_phase = Sc_connecting | Sc_open | Sc_closed

record simple_connection =
  sc_phase :: simple_phase
  sc_channel :: "bytes list"

definition simple_connection_new :: simple_connection where
  "simple_connection_new = \<lparr>sc_phase = Sc_connecting, sc_channel = []\<rparr>"

datatype simple_event =
    Sc_connect bool
  | Sc_write bool
  | Sc_answer bool

text \<open>One step of \<open>Connection::run\<close> and the frame it writes; when the task returns, its channel is gone.\<close>

definition simple_step :: "simple_event \<Rightarrow> simple_connection \<Rightarrow> simple_connection \<times> bytes list" where
  "simple_step ev c = (case ev of
       Sc_connect ok \<Rightarrow>
         if sc_phase c = Sc_connecting then (if ok then c\<lparr>sc_phase := Sc_open\<rparr> else \<lparr>sc_phase = Sc_closed, sc_channel = []\<rparr>, [])
         else (c, [])
     | Sc_write ok \<Rightarrow>
         (if sc_phase c = Sc_open then (case sc_channel c of
              [] \<Rightarrow> (c, [])
            | data # rest \<Rightarrow> if ok then (c\<lparr>sc_channel := rest\<rparr>, [data]) else (\<lparr>sc_phase = Sc_closed, sc_channel = []\<rparr>, []))
          else (c, []))
     | Sc_answer ok \<Rightarrow>
         if sc_phase c = Sc_open \<and> \<not> ok then (\<lparr>sc_phase = Sc_closed, sc_channel = []\<rparr>, []) else (c, []))"

section \<open>The sender\<close>

text \<open>\<open>ss_slept\<close> is the time spent in \<open>sleep\<close>, in milliseconds; \<open>ss_written\<close> all frames written, on all connections.\<close>

record 'g simple_sender =
  ss_connections :: "socket_addr \<rightharpoonup> simple_connection"
  ss_rng :: 'g
  ss_slept :: nat
  ss_written :: "(socket_addr \<times> bytes) list"

type_synonym 'g simple_proc = "('g simple_sender, unit, unit) proc"

definition simple_sender_new :: "'g \<Rightarrow> 'g simple_sender" where
  "simple_sender_new g = \<lparr>ss_connections = Map.empty, ss_rng = g, ss_slept = 0, ss_written = []\<rparr>"

text \<open>\<open>send\<close>: the delay, then an existing connection if its task is still there, else a new one.\<close>

definition enqueue :: "socket_addr \<Rightarrow> bytes \<Rightarrow> simple_connection option \<Rightarrow> simple_connection" where
  "enqueue a data c = (case c of
       Some c \<Rightarrow> if sc_phase c \<noteq> Sc_closed then c\<lparr>sc_channel := sc_channel c @ [data]\<rparr>
         else simple_connection_new\<lparr>sc_channel := [data]\<rparr>
     | None \<Rightarrow> simple_connection_new\<lparr>sc_channel := [data]\<rparr>)"

definition send_within :: "u64 \<Rightarrow> 'g rand \<Rightarrow> socket_addr \<Rightarrow> bytes \<Rightarrow> 'g simple_proc" where
  "send_within high R a data =
     bnd (gets (\<lambda>s. gen_range R 0 high (ss_rng s))) (\<lambda>(delay_ms, g).
     modify (\<lambda>s. s\<lparr>ss_rng := g, ss_slept := ss_slept s + unat delay_ms,
       ss_connections := (ss_connections s)(a \<mapsto> enqueue a data (ss_connections s a))\<rparr>))"

definition simple_send :: "'g rand \<Rightarrow> socket_addr \<Rightarrow> bytes \<Rightarrow> 'g simple_proc" where
  "simple_send = send_within 200"

definition simple_send_global :: "'g rand \<Rightarrow> socket_addr \<Rightarrow> bytes \<Rightarrow> 'g simple_proc" where
  "simple_send_global = send_within 500"

definition simple_send_local :: "'g rand \<Rightarrow> socket_addr \<Rightarrow> bytes \<Rightarrow> 'g simple_proc" where
  "simple_send_local = send_within 50"

definition simple_send_regional :: "'g rand \<Rightarrow> socket_addr \<Rightarrow> bytes \<Rightarrow> 'g simple_proc" where
  "simple_send_regional = send_within 200"

text \<open>\<open>broadcast\<close> and \<open>lucky_broadcast\<close>, over the \<open>send\<close> of one of the four files.\<close>

primrec simple_broadcast ::
    "(socket_addr \<Rightarrow> bytes \<Rightarrow> 'g simple_proc) \<Rightarrow> socket_addr list \<Rightarrow> bytes \<Rightarrow> 'g simple_proc" where
  "simple_broadcast send [] data = ret ()"
| "simple_broadcast send (a # as) data = sq (send a data) (simple_broadcast send as data)"

definition simple_lucky_broadcast ::
    "'g rand \<Rightarrow> (socket_addr \<Rightarrow> bytes \<Rightarrow> 'g simple_proc) \<Rightarrow> socket_addr list \<Rightarrow> bytes \<Rightarrow> nat \<Rightarrow> 'g simple_proc" where
  "simple_lucky_broadcast R send addresses data nodes =
     bnd (gets (\<lambda>s. shuffle R addresses (ss_rng s))) (\<lambda>(shuffled, g).
     sq (modify (\<lambda>s. s\<lparr>ss_rng := g\<rparr>))
       (simple_broadcast send (take nodes shuffled) data))"

text \<open>A run: calls of \<open>send\<close>, and the connections' own steps.\<close>

datatype sender_event =
    Simple_send socket_addr bytes
  | Simple_network socket_addr simple_event

definition simple_handle ::
    "(socket_addr \<Rightarrow> bytes \<Rightarrow> 'g simple_proc) \<Rightarrow> sender_event \<Rightarrow> 'g simple_proc" where
  "simple_handle send ev = (case ev of
       Simple_send a data \<Rightarrow> send a data
     | Simple_network a nev \<Rightarrow> modify (\<lambda>s. (case ss_connections s a of
           None \<Rightarrow> s
         | Some c \<Rightarrow> (case simple_step nev c of (c', frames) \<Rightarrow>
             s\<lparr>ss_connections := (ss_connections s)(a \<mapsto> c'), ss_written := ss_written s @ map (Pair a) frames\<rparr>))))"

definition simple_run ::
    "(socket_addr \<Rightarrow> bytes \<Rightarrow> 'g simple_proc) \<Rightarrow> sender_event list \<Rightarrow> 'g simple_proc" where
  "simple_run send evs = run_all (simple_handle send) evs"

section \<open>Order\<close>

definition sent_to :: "socket_addr \<Rightarrow> sender_event list \<Rightarrow> bytes list" where
  "sent_to a evs = concat (map (\<lambda>ev. case ev of Simple_send a' data \<Rightarrow> if a' = a then [data] else [] | _ \<Rightarrow> []) evs)"

definition written_to :: "socket_addr \<Rightarrow> (socket_addr \<times> bytes) list \<Rightarrow> bytes list" where
  "written_to a ws = map snd (filter (\<lambda>(a', _). a' = a) ws)"

definition in_channel :: "socket_addr \<Rightarrow> 'g simple_sender \<Rightarrow> bytes list" where
  "in_channel a s = (case ss_connections s a of None \<Rightarrow> [] | Some c \<Rightarrow> sc_channel c)"

definition simple_inv :: "sender_event list \<Rightarrow> 'g simple_sender \<Rightarrow> bool" where
  "simple_inv evs s \<longleftrightarrow> (\<forall>a. subseq (written_to a (ss_written s) @ in_channel a s) (sent_to a evs))
     \<and> (\<forall>a c. ss_connections s a = Some c \<longrightarrow> sc_phase c = Sc_closed \<longrightarrow> sc_channel c = [])"

lemma simple_step_frames:
  assumes "simple_step ev c = (c', frames)"
  shows "subseq (frames @ sc_channel c') (sc_channel c)"
    and "sc_phase c = Sc_closed \<Longrightarrow> c' = c" and "sc_phase c' = Sc_closed \<Longrightarrow> sc_phase c \<noteq> Sc_closed \<Longrightarrow> sc_channel c' = []"
  using assms by (auto simp: simple_step_def split: simple_event.splits if_splits list.splits)

lemma enqueue_channel:
  "\<exists>front. sc_channel (enqueue a data c) = front @ [data]
    \<and> (front = [] \<or> front = (case c of None \<Rightarrow> [] | Some c \<Rightarrow> sc_channel c)) \<and> sc_phase (enqueue a data c) \<noteq> Sc_closed"
  by (auto simp: enqueue_def simple_connection_new_def split: option.split)

lemma written_to_append [simp]: "written_to a (ws @ ws') = written_to a ws @ written_to a ws'"
  by (simp add: written_to_def)

lemma written_to_map [simp]: "written_to a (map (Pair a') fs) = (if a' = a then fs else [])"
  by (simp add: written_to_def filter_map comp_def)

lemma send_within_run:
  "send_within high R a data s = (Ok (), s\<lparr>ss_rng := snd (gen_range R 0 high (ss_rng s)),
     ss_slept := ss_slept s + unat (fst (gen_range R 0 high (ss_rng s))),
     ss_connections := (ss_connections s)(a \<mapsto> enqueue a data (ss_connections s a))\<rparr>)"
  by (simp add: send_within_def proc_simps split_beta)

lemma simple_handle_inv:
  assumes I: "simple_inv evs s" and run: "simple_handle (send_within high R) ev s = (r, t)"
  shows "simple_inv (evs @ [ev]) t"
proof (cases ev)
  case (Simple_send a data)
  obtain front where f: "sc_channel (enqueue a data (ss_connections s a)) = front @ [data]"
    "front = [] \<or> front = in_channel a s" "sc_phase (enqueue a data (ss_connections s a)) \<noteq> Sc_closed"
    using enqueue_channel [of a data "ss_connections s a"] unfolding in_channel_def by blast
  have t: "ss_connections t = (ss_connections s)(a \<mapsto> enqueue a data (ss_connections s a))" "ss_written t = ss_written s"
    using run by (auto simp: Simple_send simple_handle_def send_within_run)
  have "subseq (written_to a' (ss_written t) @ in_channel a' t) (sent_to a' (evs @ [ev]))" for a'
  proof (cases "a' = a")
    case True
    have "subseq (written_to a (ss_written s) @ front) (written_to a (ss_written s) @ in_channel a s)"
      using f(2) by (auto simp: subseq_append')
    then have "subseq (written_to a (ss_written s) @ front) (sent_to a evs)"
      using I unfolding simple_inv_def by (blast intro: subseq_order.trans)
    then have "subseq ((written_to a (ss_written s) @ front) @ [data]) (sent_to a evs @ [data])"
      by (simp del: append_assoc)
    moreover have "in_channel a t = front @ [data]" using t f(1) by (simp add: in_channel_def)
    ultimately show ?thesis by (simp add: True t Simple_send sent_to_def)
  next
    case False
    then have "in_channel a' t = in_channel a' s" and "sent_to a' (evs @ [ev]) = sent_to a' evs"
      using t by (simp_all add: in_channel_def sent_to_def Simple_send)
    then show ?thesis using I t(2) unfolding simple_inv_def by metis
  qed
  then show ?thesis using I t f(3) by (auto simp: simple_inv_def)
next
  case (Simple_network a nev)
  have sent: "sent_to a' (evs @ [ev]) = sent_to a' evs" for a' by (simp add: Simple_network sent_to_def)
  show ?thesis
  proof (cases "ss_connections s a")
    case None
    then have "t = s" using run by (simp add: Simple_network simple_handle_def proc_simps)
    with I show ?thesis unfolding simple_inv_def sent by simp
  next
    case (Some c)
    obtain c' frames where st: "simple_step nev c = (c', frames)" by (cases "simple_step nev c")
    have t: "ss_connections t = (ss_connections s)(a \<mapsto> c')" "ss_written t = ss_written s @ map (Pair a) frames"
      using run by (auto simp: Simple_network simple_handle_def proc_simps Some st)
    note fr = simple_step_frames [OF st]
    have "subseq (written_to a' (ss_written t) @ in_channel a' t) (written_to a' (ss_written s) @ in_channel a' s)" for a'
      using fr(1) Some by (cases "a' = a") (auto simp: t in_channel_def subseq_append')
    then have "\<forall>a'. subseq (written_to a' (ss_written t) @ in_channel a' t) (sent_to a' evs)"
      using I unfolding simple_inv_def by (blast intro: subseq_order.trans)
    moreover have "sc_channel c' = []" if "sc_phase c' = Sc_closed"
    proof (cases "sc_phase c = Sc_closed")
      case True
      then have "sc_channel c = []" using I Some unfolding simple_inv_def by blast
      then show ?thesis using fr(2) [OF True] by simp
    qed (use fr(3) that in simp)
    ultimately show ?thesis using I t by (auto simp: simple_inv_def sent)
  qed
qed

lemma simple_run_total: "fst (simple_handle (send_within high R) ev s) = Ok ()"
  by (cases ev) (simp_all add: simple_handle_def send_within_run modify_def)

section \<open>The methods of the reliable sender\<close>

record 'g reliable_sender =
  rs_connections :: "socket_addr \<rightharpoonup> connection"
  rs_rng :: 'g
  rs_handler :: handler

definition reliable_sender_new :: "'g \<Rightarrow> 'g reliable_sender" where
  "reliable_sender_new g = \<lparr>rs_connections = Map.empty, rs_rng = g, rs_handler = 0\<rparr>"

definition reliable_send :: "socket_addr \<Rightarrow> bytes \<Rightarrow> ('g reliable_sender, unit, handler) proc" where
  "reliable_send a data =
     bnd (gets rs_handler) (\<lambda>h.
     sq (modify (\<lambda>s. s\<lparr>rs_handler := h + 1, rs_connections := (rs_connections s)(a \<mapsto>
          conn_step (Conn_submit data h) (case rs_connections s a of None \<Rightarrow> connection_new | Some c \<Rightarrow> c))\<rparr>))
       (ret h))"

primrec reliable_broadcast ::
    "socket_addr list \<Rightarrow> bytes \<Rightarrow> handler list \<Rightarrow> ('g reliable_sender, unit, handler list) proc" where
  "reliable_broadcast [] data handlers = ret handlers"
| "reliable_broadcast (a # as) data handlers =
     bnd (reliable_send a data) (\<lambda>h. reliable_broadcast as data (handlers @ [h]))"

definition reliable_lucky_broadcast ::
    "'g rand \<Rightarrow> socket_addr list \<Rightarrow> bytes \<Rightarrow> nat \<Rightarrow> ('g reliable_sender, unit, handler list) proc" where
  "reliable_lucky_broadcast R addresses data nodes =
     bnd (gets (\<lambda>s. shuffle R addresses (rs_rng s))) (\<lambda>(shuffled, g).
     sq (modify (\<lambda>s. s\<lparr>rs_rng := g\<rparr>))
       (reliable_broadcast (take nodes shuffled) data []))"

definition queue_at :: "'g reliable_sender \<Rightarrow> socket_addr \<Rightarrow> inner_message list" where
  "queue_at s a = (case rs_connections s a of None \<Rightarrow> [] | Some c \<Rightarrow> queue c)"

definition allocated :: "handler \<Rightarrow> socket_addr list \<Rightarrow> bytes \<Rightarrow> socket_addr \<Rightarrow> inner_message list" where
  "allocated h as data a = map (\<lambda>(_, h). (data, h)) (filter (\<lambda>(a', _). a' = a) (zip as [h ..< h + length as]))"

lemma upt_Suc_Cons: "[h ..< Suc (h + n)] = h # [Suc h ..< Suc (h + n)]"
  by (simp add: upt_conv_Cons)

lemma reliable_broadcast_run:
  "\<exists>t. reliable_broadcast as data hs s = (Ok (hs @ [rs_handler s ..< rs_handler s + length as]), t)
    \<and> rs_handler t = rs_handler s + length as
    \<and> (\<forall>a. queue_at t a = queue_at s a @ allocated (rs_handler s) as data a)"
proof (induction as arbitrary: hs s)
  case Nil
  then show ?case by (simp add: ret_def allocated_def)
next
  case (Cons x as)
  let ?c = "case rs_connections s x of None \<Rightarrow> connection_new | Some c \<Rightarrow> c"
  let ?s = "s\<lparr>rs_handler := rs_handler s + 1, rs_connections := (rs_connections s)(x \<mapsto>
      conn_step (Conn_submit data (rs_handler s)) ?c)\<rparr>"
  have send: "reliable_send x data s = (Ok (rs_handler s), ?s)"
    by (simp add: reliable_send_def proc_simps)
  have q: "queue_at ?s a = queue_at s a @ (if a = x then [(data, rs_handler s)] else [])" for a
    by (simp add: queue_at_def queue_def conn_step_def connection_new_def split: option.split)
  obtain t where t: "reliable_broadcast as data (hs @ [rs_handler s]) ?s
      = (Ok ((hs @ [rs_handler s]) @ [rs_handler ?s ..< rs_handler ?s + length as]), t)"
    "rs_handler t = rs_handler ?s + length as"
    "\<forall>a. queue_at t a = queue_at ?s a @ allocated (rs_handler ?s) as data a"
    using Cons.IH [of "hs @ [rs_handler s]" ?s] by blast
  have "allocated (rs_handler s) (x # as) data a
      = (if a = x then [(data, rs_handler s)] else []) @ allocated (Suc (rs_handler s)) as data a" for a
    by (simp add: allocated_def upt_Suc_Cons del: upt_Suc)
  then show ?case
    using t send q by (simp add: run_bnd upt_Suc_Cons del: upt_Suc)
qed

section \<open>Properties\<close>

text \<open>
  The best-effort sender may lose messages but neither reorders nor repeats them. Whatever the network does,
  what has been written to an address, on all the connections there have been, followed by what waits in the
  channel of the current one, is a subsequence of what was sent to the address; and a message is never given to a
  connection whose task has ended.
\<close>

theorem simple_sender_order:
  fixes evs :: "sender_event list" and R :: "'g rand"
  shows "\<exists>s. simple_run (send_within high R) evs (simple_sender_new g) = (Ok (), s)
    \<and> (\<forall>a. subseq (written_to a (ss_written s) @ in_channel a s) (sent_to a evs))
    \<and> (\<forall>a c. ss_connections s a = Some c \<longrightarrow> sc_phase c = Sc_closed \<longrightarrow> sc_channel c = [])"
proof -
  have new: "simple_inv [] (simple_sender_new g)"
    by (simp add: simple_inv_def simple_sender_new_def written_to_def in_channel_def sent_to_def)
  note run = run_all_total_inv [of "simple_handle (send_within high R)" simple_inv, OF simple_run_total]
  have "fst (simple_run (send_within high R) evs (simple_sender_new g)) = Ok ()"
    unfolding simple_run_def by (rule run(1)) (rule simple_handle_inv, assumption+, rule new)
  moreover have "simple_inv evs (snd (simple_run (send_within high R) evs (simple_sender_new g)))"
    unfolding simple_run_def by (rule run(2)) (rule simple_handle_inv, assumption+, rule new)
  ultimately show ?thesis unfolding simple_inv_def by (metis prod.collapse)
qed

text \<open>
  What a broadcast waits for. The delays of the messages of one broadcast add up: a broadcast to \<open>n\<close> addresses
  keeps its task asleep for less than \<open>200 n\<close> milliseconds, \<open>500 n\<close> in the copy for a global network and \<open>50 n\<close> in
  the one for a local network.
\<close>

theorem broadcast_delay:
  assumes "rand_ok R" and "(send, high) \<in> {(simple_send R, 200), (simple_send_global R, 500), (simple_send_local R, 50),
      (simple_send_regional R, 200)}" and "simple_broadcast send as data s = (r, t)" and "as \<noteq> []"
  shows "r = Ok () \<and> ss_slept t < ss_slept s + high * length as"
proof -
  have "\<exists>t. simple_broadcast (send_within h R) as data s = (Ok (), t) \<and> ss_slept t + length as \<le> ss_slept s + unat h * length as"
    if "0 < h" for h
  proof (induction as arbitrary: s)
    case Nil
    then show ?case by (simp add: ret_def)
  next
    case (Cons a as)
    obtain u where u: "send_within h R a data s = (Ok (), u)"
      "ss_slept u = ss_slept s + unat (fst (gen_range R 0 h (ss_rng s)))"
      by (simp add: send_within_run)
    have "fst (gen_range R 0 h (ss_rng s)) < h" using assms(1) that by (simp add: rand_ok_def)
    then have "ss_slept u + 1 \<le> ss_slept s + unat h" using u(2) by (simp add: word_less_nat_alt)
    with Cons.IH [of u] u(1) show ?case by (auto simp: run_sq algebra_simps)
  qed
  note slept = this
  have *: "r = Ok () \<and> ss_slept t < ss_slept s + unat h * length as" if "0 < h" "send = send_within h R" for h
    using slept [OF that(1)] that(2) assms(3,4) by (cases as) auto
  from assms(2) consider "send = send_within 200 R" "high = 200" | "send = send_within 500 R" "high = 500"
    | "send = send_within 50 R" "high = 50"
    by (auto simp: simple_send_def simple_send_global_def simple_send_local_def simple_send_regional_def)
  then show ?thesis
    by cases (use * [of 200] * [of 500] * [of 50] in simp_all)
qed

text \<open>
  The handlers of a broadcast are in the order of its addresses. A broadcast of the reliable sender returns one
  new handler for each address, in order, and the message with this handler has joined the queue of the connection
  to that address, behind everything that was in it; no other queue has changed.
\<close>

theorem broadcast_handlers_in_order:
  "\<exists>t. reliable_broadcast as data [] s = (Ok [rs_handler s ..< rs_handler s + length as], t)
    \<and> (\<forall>a. queue_at t a = queue_at s a @ allocated (rs_handler s) as data a)"
  using reliable_broadcast_run [of as data "[]" s] by auto

end
