(* ===== verification/Task_Scenarios.thy ===== *)
theory Task_Scenarios
  imports Scenario Payload_Waiter Proposer Helper Receiver Node Simple_Sender
begin

text \<open>
  Concrete runs of the background tasks, for which the hypotheses of their theorems hold: a synchronizer with two
  blocks whose parents arrive, a payload waiter, a proposer and a helper in the system of \<open>Scenario\<close>; a mempool on
  the committee of four; a generator of keys and the files of a testbed.
\<close>

section \<open>The synchronizer of the consensus\<close>

definition sync_scenario_events :: "(u128 \<times> sync_event) list" where
  "sync_scenario_events = [(0, Sync_block (scenario_block 2)), (0, Sync_block (scenario_block 3)), (1, Sync_ready 0),
     (4, Sync_write (digest_bytes (scenario_digest 2)) [2]), (5, Sync_write (digest_bytes (scenario_digest 1)) [1])]"

definition sync_scenario :: "(bytes \<rightharpoonup> bytes) sync_task" where
  "sync_scenario = snd (sync_run (scenario_env 1) 10000 (store_new Map.empty) sync_scenario_events)"

lemma scenario_digest_inj: "scenario_digest i = scenario_digest j \<longleftrightarrow> i = j"
  by (simp add: scenario_digest_def)

lemma sync_scenario_state:
  "sync_waiting sync_scenario = [scenario_block 2, scenario_block 3]"
  "sync_requests sync_scenario = [(scenario_digest 1, 0), (scenario_digest 2, 0)]"
  "in_store (scenario_env 1) (my_store sync_scenario) (scenario_digest 1)"
  "in_store (scenario_env 1) (my_store sync_scenario) (scenario_digest 2)"
  by (simp_all add: sync_scenario_def sync_run_def sync_scenario_events_def sync_handle_def sync_request_def sync_ready_def
      sync_new_def proc_simps run_defs scenario_digests scenario_chain scenario_addresses scenario_store net_send_def
      write_store_def in_store_def address_def test_committee_authorities scenario_digest_inj)

theorem synchronizer_keeps_requests_witness:
  "scenario_digest 2 \<in> sync_pending sync_scenario \<and> distinct (map (block_digest scenario_dalek) (sync_waiting sync_scenario))"
  using synchronizer_keeps_requests [of "scenario_env 1" sync_scenario 10000 "store_new Map.empty" sync_scenario_events]
  by (simp add: map_rocksdb_ok sync_scenario_def [symmetric] sync_scenario_state scenario_digests)

text \<open>The second future is polled first, and the timer ticks in between.\<close>

theorem synchronizer_delivers_all_witness:
  "\<exists>t bs. run_all (sync_handle (scenario_env 1) 10000) [(6, Sync_ready 1), (6, Sync_timer), (7, Sync_ready 0)] sync_scenario = (Ok (), t)
    \<and> loopbacks (out t) = loopbacks (out sync_scenario) @ bs \<and> mset bs = {#scenario_block 3, scenario_block 2#}"
proof -
  have "\<forall>b\<in>set (sync_waiting sync_scenario). in_store (scenario_env 1) (my_store sync_scenario) (parent b)"
    by (simp add: sync_scenario_state scenario_chain)
  moreover have "polls (length (sync_waiting sync_scenario)) [(6, Sync_ready 1), (6, Sync_timer), (7, Sync_ready 0)]"
    by (simp add: sync_scenario_state)
  moreover have "rocksdb_ok (rocksdb (scenario_env 1))" by (simp add: map_rocksdb_ok)
  moreover have "sync_scenario = snd (sync_run (scenario_env 1) 10000 (store_new Map.empty) sync_scenario_events)"
    by (rule sync_scenario_def)
  moreover have "\<forall>d. ser_msg (scenario_env 1) (SyncRequest d (my_name (scenario_env 1))) \<noteq> None" by simp
  ultimately obtain t bs where "run_all (sync_handle (scenario_env 1) 10000) [(6, Sync_ready 1), (6, Sync_timer), (7, Sync_ready 0)] sync_scenario
      = (Ok (), t)" "loopbacks (out t) = loopbacks (out sync_scenario) @ bs" "mset bs = mset (sync_waiting sync_scenario)"
    using synchronizer_delivers_all by blast
  then show ?thesis by (intro exI [of _ t] exI [of _ bs]) (simp add: sync_scenario_state add_mset_commute)
qed

theorem synchronizer_retries_witness:
  "out (snd (sync_timer (scenario_env 1) 10000 10001 sync_scenario)) =
     out sync_scenario @ map (\<lambda>i. Net_send ([127, 0, 0, 1], i) []) [2, 3, 4, 2, 3, 4]"
  using synchronizer_retries [of "scenario_env 1" "\<lambda>_. []" 10000 10001 sync_scenario]
  by (simp add: sync_scenario_state broadcast_addresses_def test_committee_authorities)

section \<open>The payload waiter\<close>

definition payload_scenario_events :: "payload_event list" where
  "payload_scenario_events = [Payload_message (Wait [scenario_digest 9] (scenario_block 2)), Payload_ready True 0,
     Payload_write (digest_bytes (scenario_digest 9)) [7], Payload_ready True 0]"

theorem payload_waiter_correct_witness:
  "fst (payload_run (scenario_env 1) (store_new Map.empty) payload_scenario_events) = Ok ()
    \<and> in_store (scenario_env 1) (my_store (snd (payload_run (scenario_env 1) (store_new Map.empty) payload_scenario_events)))
        (scenario_digest 9)"
proof -
  let ?run = "payload_run (scenario_env 1) (store_new Map.empty) payload_scenario_events"
  have l: "To_loopback (scenario_block 2) \<in> set (out (snd ?run))"
    by (simp add: payload_run_def payload_scenario_events_def payload_handle_def payload_wait_def payload_ready_def
        payload_new_def waiter_result_def cancelled_def Let_def proc_simps run_defs write_store_def scenario_store
        scenario_digests remove_at_def)
  have "?run = (fst ?run, snd ?run)" by simp
  from payload_waiter_correct [OF _ this] l show ?thesis
    by (fastforce simp: map_rocksdb_ok payload_scenario_events_def)
qed

section \<open>The proposer\<close>

definition proposer_scenario_events :: "proposer_event list" where
  "proposer_scenario_events = [From_mempool (scenario_digest 9), From_mempool (scenario_digest 8),
     From_core (Proposer_cleanup [scenario_digest 8]) [], From_core (Make 1 qc_genesis None) [test_key 3, test_key 2],
     From_mempool (scenario_digest 7)]"

lemma proposer_scenario_block:
  "\<exists>b. block_new scenario_dalek q t k r p sk = Some b \<and> block_payload b = p"
  by (simp add: block_new_def request_signature_def scenario_sign Let_def)

theorem proposer_waits_for_quorum_witness:
  "fst (make_block (scenario_env 1) 1 qc_genesis None [test_key 3, test_key 2] proposer_new) = Ok ()
    \<and> fst (make_block (scenario_env 1) 1 qc_genesis None [test_key 3] proposer_new) = Diverge"
proof -
  obtain b where b: "block_new scenario_dalek qc_genesis None (test_key 1) 1 (prop_buffer proposer_new)
      (my_secret (scenario_env 1)) = Some b"
    using proposer_scenario_block by blast
  have p: "fst ` set (broadcast_addresses test_committee (test_key 1)) = test_key ` {2, 3, 4}"
    "length (broadcast_addresses test_committee (test_key 1)) = 3"
    by (auto simp: broadcast_addresses_def test_committee_authorities)
  note w = proposer_waits_for_quorum [of "scenario_env 1" _ qc_genesis None 1 proposer_new b "[]", simplified, OF test_committee_ok]
  show ?thesis
    using w [of "[test_key 3, test_key 2]"] w [of "[test_key 3]"] b
    by (simp add: p test_stake scenario_threshold) blast
qed

theorem proposer_keeps_digests_witness:
  "\<exists>s. proposer_run (scenario_env 1) proposer_scenario_events = (Ok (), s)
    \<and> (scenario_digest 9 \<in> set (prop_buffer s) \<or> (\<exists>b. Proposed b \<in> set (prop_out s) \<and> scenario_digest 9 \<in> set (block_payload b)))"
proof -
  have "fst (proposer_run (scenario_env 1) proposer_scenario_events) = Ok ()"
    using proposer_scenario_block
    by (simp add: proposer_run_def proposer_scenario_events_def proposer_handle_def make_block_def proposer_new_def Let_def
        run_defs prop_emit_def block_new_def request_signature_def scenario_sign scenario_threshold
        test_stake scenario_digest_def)
  then obtain s where s: "proposer_run (scenario_env 1) proposer_scenario_events = (Ok (), s)"
    by (cases "proposer_run (scenario_env 1) proposer_scenario_events") auto
  from proposer_keeps_digests [OF s] s show ?thesis
    by (auto simp: proposer_scenario_events_def scenario_digest_def)
qed

section \<open>The helper of the consensus\<close>

definition helper_scenario :: "(bytes \<rightharpoonup> bytes) world" where
  "helper_scenario = \<lparr>my_store = store_write map_rocksdb (digest_bytes (scenario_digest 1)) [1] (store_new Map.empty), out = []\<rparr>"

theorem helper_answers_witness:
  "out (snd (helper_run (scenario_env 1) [(scenario_digest 1, test_key 3), (scenario_digest 2, test_key 3),
      (scenario_digest 1, test_key 9)] helper_scenario)) = [Net_send ([127, 0, 0, 1], 3) []]"
proof -
  have "\<forall>k v. store_read map_rocksdb k (my_store helper_scenario) = Inr (Some v) \<longrightarrow>
      (\<exists>b. de_block (scenario_env 1) v = Ok b \<and> ser_msg (scenario_env 1) (Propose b) = Some ((\<lambda>_. []) v))"
    by (auto simp: helper_scenario_def scenario_store split: if_splits)
  from helper_answers [of "scenario_env 1" helper_scenario "\<lambda>_. []", simplified, OF map_rocksdb_ok this [simplified]]
  show ?thesis
    by (simp add: scenario_addresses helper_scenario_def scenario_store scenario_digest_eq)
      (simp add: address_def test_committee_authorities)
qed

theorem helper_panics_on_foreign_value_witness:
  "helper_run (scenario_env 1) [(scenario_digest 9, test_key 3), (scenario_digest 1, test_key 3)]
      \<lparr>my_store = store_write map_rocksdb (digest_bytes (scenario_digest 9)) [66] (store_new Map.empty), out = []\<rparr>
    = (Panic ''Failed to deserialize our own block'',
       \<lparr>my_store = store_write map_rocksdb (digest_bytes (scenario_digest 9)) [66] (store_new Map.empty), out = []\<rparr>)"
  by (rule helper_panics_on_foreign_value [where v = "[66]" and a = "([127, 0, 0, 1], 3)"])
    (simp_all add: scenario_addresses scenario_store, simp add: scenario_env_def)

section \<open>The mempool\<close>

text \<open>A serialization of messages that can be read back.\<close>

definition scenario_ser_mempool :: "mempool_message \<Rightarrow> bytes option" where
  "scenario_ser_mempool m = (case m of
       Batch b \<Rightarrow> Some (0 # concat (map (\<lambda>tx. concat (map (\<lambda>x. [1, x]) tx) @ [0]) b))
     | BatchRequest ds k \<Rightarrow> Some (1 # concat (map (\<lambda>tx. concat (map (\<lambda>x. [1, x]) tx) @ [0])
         (public_key_bytes k # map digest_bytes ds))))"

fun scenario_split :: "bytes \<Rightarrow> bytes \<Rightarrow> bytes list" where
  "scenario_split cur [] = []"
| "scenario_split cur [x] = [cur]"
| "scenario_split cur (t # x # rest) = (if t = 1 then scenario_split (cur @ [x]) rest else cur # scenario_split [] (x # rest))"

definition scenario_de_mempool :: "bytes \<Rightarrow> (unit, mempool_message) outcome" where
  "scenario_de_mempool bs = (case bs of
       [] \<Rightarrow> Err ()
     | t # rest \<Rightarrow>
         if t = 0 then Ok (Batch (scenario_split [] rest))
         else if t = 1 then (case scenario_split [] rest of
             [] \<Rightarrow> Err () | k # ds \<Rightarrow> Ok (BatchRequest (map Digest ds) (PublicKey k)))
         else Err ())"

lemma scenario_split_tx:
  "scenario_split cur (concat (map (\<lambda>x. [1, x]) tx) @ 0 # rest) = (cur @ tx) # scenario_split [] rest"
  by (induction tx arbitrary: cur; cases rest) simp_all

lemma scenario_split_txs:
  "scenario_split [] (concat (map (\<lambda>tx. concat (map (\<lambda>x. [1, x]) tx) @ [0]) b)) = b"
  by (induction b) (simp_all add: scenario_split_tx)

definition scenario_mempool :: "u8 \<Rightarrow> (bytes, bytes \<rightharpoonup> bytes) mempool_env" where
  "scenario_mempool i = \<lparr>mp_dalek = lax_dalek, mp_rocksdb = map_rocksdb, ser_mempool = scenario_ser_mempool,
     de_mempool = scenario_de_mempool, mp_name = test_key i, mp_committee = test_mempool_committee,
     mp_parameters = mempool_parameters_default\<lparr>batch_size := 2\<rparr>\<rparr>"

lemma scenario_mempool_simps [simp]:
  "mp_dalek (scenario_mempool i) = lax_dalek" "mp_rocksdb (scenario_mempool i) = map_rocksdb"
  "ser_mempool (scenario_mempool i) = scenario_ser_mempool" "de_mempool (scenario_mempool i) = scenario_de_mempool"
  "mp_name (scenario_mempool i) = test_key i" "mp_committee (scenario_mempool i) = test_mempool_committee"
  "mp_parameters (scenario_mempool i) = mempool_parameters_default\<lparr>batch_size := 2\<rparr>"
  by (simp_all add: scenario_mempool_def)

lemma scenario_bincode_ok: "mempool_bincode_ok (scenario_mempool i)"
  unfolding mempool_bincode_ok_def
proof
  fix m
  show "\<exists>b. ser_mempool (scenario_mempool i) m = Some b \<and> de_mempool (scenario_mempool i) b = Ok m"
  proof (cases m)
    case (Batch b)
    then show ?thesis by (simp add: scenario_ser_mempool_def scenario_de_mempool_def scenario_split_txs)
  next
    case (BatchRequest ds k)
    have "scenario_split [] (concat (map (\<lambda>tx. concat (map (\<lambda>x. [1, x]) tx) @ [0])
        (public_key_bytes k # map digest_bytes ds))) = public_key_bytes k # map digest_bytes ds"
      by (rule scenario_split_txs)
    then show ?thesis
      by (simp add: BatchRequest scenario_ser_mempool_def scenario_de_mempool_def comp_def del: list.map concat.simps)
  qed
qed

lemma scenario_committee_live: "mempool_committee_live (scenario_mempool 1)"
  by (simp add: mempool_committee_live_def test_mempool_committee_ok test_me)

text \<open>Two batches: one cut by the size, one by the timer; a write of another task comes in between.\<close>

definition scenario_transactions :: "batch_event list" where
  "scenario_transactions = [Transaction [1], Transaction [2], Batch_timer, Transaction [3], Batch_timer, Transaction [4]]"

definition scenario_frames :: "bytes list" where
  "scenario_frames = [[0, 1, 1, 0, 1, 2, 0], [0, 1, 3, 0]]"

definition scenario_acks :: "quorum_event list" where
  "scenario_acks = [Quorum_message (scenario_frames ! 0) (map test_key [2, 3, 4]) [test_key 3, test_key 2], Disseminated 0,
     Quorum_message (scenario_frames ! 1) (map test_key [2, 3, 4]) [test_key 4, test_key 2, test_key 3]]"

definition scenario_processed :: "processor_event list" where
  "scenario_processed = [Processor_batch (scenario_frames ! 0), Processor_write [99] [1], Processor_batch (scenario_frames ! 1)]"

lemma scenario_sealed:
  "sealed (bm_out (snd (batch_run (mempool_batch_config (scenario_mempool 1) True) scenario_transactions))) = scenario_frames"
  by (simp add: batch_run_def scenario_transactions_def batch_handle_def batch_maker_new_def seal_def reset_timer_def bm_emit_def
      mempool_batch_config_def run_defs scenario_ser_mempool_def scenario_frames_def sealed_def word_le_nat_alt)

lemma scenario_delivered:
  "delivered (snd (mempool_quorum_run (scenario_mempool 1) scenario_acks)) = scenario_frames"
  by (simp add: mempool_quorum_run_def quorum_run_def scenario_acks_def quorum_handle_def quorum_message_def
      quorum_disseminated_def quorum_waiter_new_def test_mempool_stake test_mempool_threshold dissemination_queue_max_def
      run_defs scenario_frames_def)

theorem transactions_reach_consensus_witness:
  "\<exists>bs. concat bs @ current_batch (snd (batch_run (mempool_batch_config (scenario_mempool 1) True) scenario_transactions))
      = [[1], [2], [3], [4]]
    \<and> announced (mp_out (snd (processor_run (scenario_mempool 1) scenario_processed
        \<lparr>mp_store = store_new Map.empty, mp_out = []\<rparr>))) = map (hash32 lax_dalek \<circ> frame_of (scenario_mempool 1)) bs"
proof -
  let ?C = "mempool_batch_config (scenario_mempool 1) True"
  have env: "batch_env_ok ?C scenario_transactions"
    by (auto simp: batch_env_ok_def mempool_batch_config_def scenario_ser_mempool_def scenario_transactions_def transactions_Cons)
  have acks: "concat (map batch_of scenario_acks) = scenario_frames"
    by (simp add: scenario_acks_def batch_of_def scenario_frames_def)
  have ok: "\<forall>ev\<in>set scenario_acks. quorum_event_ok test_mempool_committee (test_key 1) ev \<and> acked test_mempool_committee (test_key 1) ev"
    by (simp add: scenario_acks_def quorum_event_ok_def acked_def test_mempool_broadcast test_mempool_stake test_mempool_threshold)
  have batches: "batches scenario_processed = scenario_frames"
    by (simp add: scenario_processed_def scenario_frames_def)
  have writes: "writes_ok (scenario_mempool 1) (batches scenario_processed) scenario_processed"
    by (auto simp: writes_ok_def batches scenario_processed_def scenario_frames_def hash32_def lax_dalek_def)
  obtain r1 s1 where 1: "batch_run ?C scenario_transactions = (r1, s1)" by (cases "batch_run ?C scenario_transactions")
  obtain r2 s2 where 2: "mempool_quorum_run (scenario_mempool 1) scenario_acks = (r2, s2)"
    by (cases "mempool_quorum_run (scenario_mempool 1) scenario_acks")
  obtain r3 s3 where 3: "processor_run (scenario_mempool 1) scenario_processed \<lparr>mp_store = store_new Map.empty, mp_out = []\<rparr> = (r3, s3)"
    by (cases "processor_run (scenario_mempool 1) scenario_processed \<lparr>mp_store = store_new Map.empty, mp_out = []\<rparr>")
  have "concat (map batch_of scenario_acks) = sealed (bm_out s1)" "batches scenario_processed = delivered s2"
    using scenario_sealed scenario_delivered acks batches by (simp_all add: 1 2)
  note reach = transactions_reach_consensus [OF scenario_committee_live scenario_bincode_ok _ env 1 this(1) _ 2 this(2) writes 3]
  have "transactions scenario_transactions = [[1], [2], [3], [4]]"
    by (simp add: scenario_transactions_def transactions_Cons)
  then show ?thesis using reach map_rocksdb_ok ok by (auto simp: 1 3)
qed

theorem peers_announce_same_digests_witness:
  "\<exists>ds. run_all (mempool_dispatch (scenario_mempool 2) {}) scenario_frames [] = (Ok (), ds) \<and> count_list ds Mp_ack = 2"
proof -
  have frames: "map (frame_of (scenario_mempool 1)) [[[1], [2]], [[3]]] = scenario_frames"
    by (simp add: frame_of_def scenario_ser_mempool_def scenario_frames_def)
  obtain r ds where run: "run_all (mempool_dispatch (scenario_mempool 2) {}) (map (frame_of (scenario_mempool 1)) [[[1], [2]], [[3]]]) []
      = (r, ds)"
    by (cases "run_all (mempool_dispatch (scenario_mempool 2) {}) (map (frame_of (scenario_mempool 1)) [[[1], [2]], [[3]]]) []")
  from peers_announce_same_digests [OF scenario_bincode_ok _ _ _ run] run show ?thesis
    by (simp add: map_rocksdb_ok frames del: list.map)
qed

theorem announced_digests_are_stored_witness:
  "\<exists>s. processor_run (scenario_mempool 1) scenario_processed \<lparr>mp_store = store_new Map.empty, mp_out = []\<rparr> = (Ok (), s)
    \<and> length (announced (mp_out s)) = 2"
proof -
  have "writes_ok (scenario_mempool 1) (batches scenario_processed) scenario_processed"
    by (auto simp: writes_ok_def scenario_processed_def scenario_frames_def hash32_def lax_dalek_def)
  from announced_digests_are_stored [OF _ this, of "store_new Map.empty"] show ?thesis
    by (fastforce simp: map_rocksdb_ok scenario_processed_def)
qed

theorem mempool_synchronizer_keeps_witness:
  "\<exists>c. (scenario_digest 1, c) \<in> set (ms_waiting (snd (mempool_sync_run (scenario_mempool 1) (store_new Map.empty)
      [Ms_message 3 (Synchronize_batches [scenario_digest 1] (test_key 2)), Ms_timer rev 4000, Ms_ready True 0])))"
proof -
  let ?evs = "[Ms_message 3 (Synchronize_batches [scenario_digest 1] (test_key 2)), Ms_timer rev 4000, Ms_ready True 0]"
  let ?run = "mempool_sync_run (scenario_mempool 1) (store_new Map.empty) ?evs"
  have st: "stored (scenario_mempool 1) (mp_store (snd ?run)) (scenario_digest 1) = None"
    by (simp add: mempool_sync_run_def mempool_sync_handle_def mempool_synchronize_def mempool_sync_timer_def
        mempool_sync_ready_def mempool_sync_new_def batch_waiter_def batch_cancelled_def overdue_def run_defs
        scenario_ser_mempool_def mempool_address_def test_mempool_authorities mempool_parameters_default_def
        mp_emit_def stored_def scenario_store)
  have "?run = (fst ?run, snd ?run)" by simp
  from mempool_synchronizer_keeps [OF _ scenario_bincode_ok this, THEN conjunct2, rule_format, of "[]" 3
      "[scenario_digest 1]" "test_key 2" "[Ms_timer rev 4000, Ms_ready True 0]" "scenario_digest 1"] st
  show ?thesis by (auto simp: map_rocksdb_ok expires_def)
qed

theorem mempool_retry_targets_witness:
  "\<exists>targets. length targets = 3 \<and> mempool_sync_timer (scenario_mempool 1) rev 9000
      ((mempool_sync_new (store_new Map.empty))\<lparr>ms_pending := [(scenario_digest 1, 1, 0, 7)]\<rparr>)
    = (Ok (), (mempool_sync_new (store_new Map.empty))\<lparr>ms_pending := [(scenario_digest 1, 1, 0, 7)],
        mp_out := map (\<lambda>a. Mp_send a (the (scenario_ser_mempool (BatchRequest [scenario_digest 1] (test_key 1))))) targets\<rparr>)"
proof -
  let ?s = "(mempool_sync_new (store_new Map.empty))\<lparr>ms_pending := [(scenario_digest 1, 1, 0, 7)]\<rparr>"
  have od: "overdue (scenario_mempool 1) 9000 (ms_pending ?s) = [scenario_digest 1]"
    by (simp add: overdue_def mempool_parameters_default_def)
  show ?thesis
    using mempool_retry_targets [of rev "scenario_mempool 1" 9000 ?s
        "the (scenario_ser_mempool (BatchRequest [scenario_digest 1] (test_key 1)))"]
    unfolding od
    by (simp add: test_mempool_broadcast scenario_ser_mempool_def mempool_parameters_default_def mempool_sync_new_def)
      (elim exE conjE, intro exI conjI, simp_all)
qed

section \<open>Receivers and senders\<close>

theorem malformed_frames_witness:
  "runner (dispatch (scenario_env 1) {}) ([127, 0, 0, 1], 5) (map Inr ([] @ [66] # [[67]]) :: (unit + bytes) list) []
     = (Handler_failed SerializationError, [])
   \<and> runner (mempool_dispatch (scenario_mempool 1) {}) ([127, 0, 0, 1], 5) (map Inr ([] @ [66] # [scenario_frames ! 1]) :: (unit + bytes) list) []
     = runner (mempool_dispatch (scenario_mempool 1) {}) ([127, 0, 0, 1], 5) (map Inr [scenario_frames ! 1]) ([] @ [Mp_ack])"
  by (rule malformed_frames) (simp_all add: ret_def scenario_env_def scenario_de_mempool_def)

definition scenario_rand :: "unit rand" where
  "scenario_rand = \<lparr>gen_range = \<lambda>l h g. (l, g), shuffle = \<lambda>xs g. (rev xs, g)\<rparr>"

lemma scenario_rand_ok: "rand_ok scenario_rand"
  by (simp add: rand_ok_def scenario_rand_def)

theorem broadcast_delay_witness:
  "ss_slept (snd (simple_broadcast (simple_send scenario_rand) [([127, 0, 0, 1], 1), ([127, 0, 0, 1], 2)] [7]
      (simple_sender_new ()))) < 0 + 200 * 2"
  using broadcast_delay [OF scenario_rand_ok, of "simple_send scenario_rand" 200
      "[([127, 0, 0, 1], 1), ([127, 0, 0, 1], 2)]" "[7]" "simple_sender_new ()"]
  by (cases "simple_broadcast (simple_send scenario_rand) [([127, 0, 0, 1], 1), ([127, 0, 0, 1], 2)] [7] (simple_sender_new ())")
    (simp add: simple_sender_new_def)

text \<open>A peer that cannot be reached: its connection ends, and with it the message that waited.\<close>

theorem simple_sender_order_witness:
  "\<exists>s c. simple_run (send_within 200 scenario_rand)
      [Simple_send ([127, 0, 0, 1], 1) [7], Simple_network ([127, 0, 0, 1], 1) (Sc_connect False)] (simple_sender_new ()) = (Ok (), s)
    \<and> ss_connections s ([127, 0, 0, 1], 1) = Some c \<and> sc_phase c = Sc_closed \<and> sc_channel c = []"
proof -
  let ?evs = "[Simple_send ([127, 0, 0, 1], 1) [7], Simple_network ([127, 0, 0, 1], 1) (Sc_connect False)]"
  obtain s where s: "simple_run (send_within 200 scenario_rand) ?evs (simple_sender_new ()) = (Ok (), s)"
    "\<forall>a c. ss_connections s a = Some c \<longrightarrow> sc_phase c = Sc_closed \<longrightarrow> sc_channel c = []"
    using simple_sender_order [of 200 scenario_rand ?evs "()"] by blast
  have "\<exists>c. ss_connections s ([127, 0, 0, 1], 1) = Some c \<and> sc_phase c = Sc_closed"
    using s(1) by (auto simp: simple_run_def simple_handle_def send_within_def enqueue_def simple_step_def
        simple_connection_new_def simple_sender_new_def scenario_rand_def proc_simps run_sq)
  then show ?thesis using s by blast
qed

section \<open>Keys and files\<close>

text \<open>A text form of two characters for each byte.\<close>

fun scenario_decode :: "string \<Rightarrow> bytes" where
  "scenario_decode (c # _ # cs) = of_nat (of_char c) # scenario_decode cs"
| "scenario_decode _ = []"

definition scenario_base64 :: base64 where
  "scenario_base64 = \<lparr>b64_encode = \<lambda>bs. concat (map (\<lambda>b. [char_of (unat b), CHR ''='']) bs),
     b64_decode = \<lambda>s. Inr (scenario_decode s)\<rparr>"

lemma scenario_decode: "scenario_decode (concat (map (\<lambda>b. [char_of (unat b), CHR ''='']) bs)) = bs"
proof (induction bs)
  case (Cons b bs)
  have "unat b < 256" using unsigned_less [of b] by simp
  with Cons show ?case by simp
qed simp

lemma scenario_base64_ok: "base64_ok scenario_base64"
proof -
  have "length (concat (map (\<lambda>b. [char_of (unat b), CHR ''='']) bs)) = 2 * length bs" for bs :: bytes
    by (induction bs) simp_all
  then show ?thesis by (simp add: base64_ok_def scenario_base64_def scenario_decode)
qed

text \<open>A generator that makes the key pairs \<open>g\<close>, \<open>g + 1\<close>, ... for \<open>lax_dalek\<close>.\<close>

definition scenario_keygen :: "(bytes, u8) keygen" where
  "scenario_keygen = \<lparr>keypair_generate = \<lambda>g. (g # replicate 63 0, g + 1), keypair_public = take 32, keypair_to_bytes = id\<rparr>"

definition scenario_secret :: "u8 \<Rightarrow> secret" where
  "scenario_secret g = fst (secret_new scenario_keygen g)"

lemma scenario_keygen_ok: "keygen_ok lax_dalek scenario_keygen"
  by (auto simp: keygen_ok_def scenario_keygen_def lax_dalek_def Let_def)

theorem keys_roundtrip_witness:
  "public_key_deserialize scenario_base64 (Some (public_key_serialize scenario_base64 (test_key 1))) = Ok (test_key 1)"
  using keys_roundtrip [OF scenario_base64_ok, of "test_key 1" "SecretKey (replicate 64 0)" digest_default]
  by (simp add: public_key_wf_def secret_key_wf_def digest_wf_def test_key_def digest_default_def)

theorem decode_base64_lengths_witness:
  "public_key_decode_base64 scenario_base64 (b64_encode scenario_base64 [1, 2, 3]) = Panic ''range end index out of range''"
  using decode_base64_lengths [OF scenario_base64_ok, of "[1, 2, 3]"] by simp

theorem generated_keys_sign_witness:
  "\<exists>s. request_signature lax_dalek (secret_secret (scenario_secret 5)) (scenario_digest 1) = Some s
    \<and> signature_verify lax_dalek s (scenario_digest 1) (secret_name (scenario_secret 5)) = Inr ()"
proof -
  have "generate_keypair scenario_keygen 5 = ((secret_name (scenario_secret 5), secret_secret (scenario_secret 5)), 6)"
    by (simp add: generate_keypair_def scenario_secret_def secret_new_def scenario_keygen_def)
  from generated_keys_sign [OF scenario_keygen_ok scenario_base64_ok this, of "scenario_digest 1"] show ?thesis by blast
qed

text \<open>Readers and writers for the committee of a testbed and for the secrets of the generator.\<close>

definition scenario_keys :: "secret list" where
  "scenario_keys = map scenario_secret [1, 2, 3, 4]"

definition scenario_json :: "('a \<Rightarrow> u8) \<Rightarrow> (u8 \<Rightarrow> 'a) \<Rightarrow> 'a json" where
  "scenario_json tag get = \<lparr>to_json = \<lambda>x. Some [tag x], from_json = \<lambda>bs. (case bs of
     [] \<Rightarrow> Err ''EOF while parsing a value''
   | t # rest \<Rightarrow> if list_all blank rest then Ok (get t) else Err ''trailing characters'')\<rparr>"

definition scenario_secret_json :: "secret json" where
  "scenario_secret_json = scenario_json (\<lambda>x. hd (public_key_bytes (secret_name x))) scenario_secret"

lemma scenario_json_ok: "(\<And>x. x \<in> X \<Longrightarrow> get (tag x) = x) \<Longrightarrow> json_ok (scenario_json tag get) X"
  by (simp add: json_ok_def scenario_json_def)

lemma scenario_secret_name: "public_key_bytes (secret_name (scenario_secret g)) = g # replicate 31 0"
  by (simp add: scenario_secret_def secret_new_def generate_keypair_def scenario_keygen_def)

lemma scenario_secret_json_ok: "json_ok scenario_secret_json (range scenario_secret)"
  unfolding scenario_secret_json_def by (rule scenario_json_ok) (auto simp: scenario_secret_name)

lemma scenario_keys_distinct: "distinct (map secret_name scenario_keys)"
proof -
  have "secret_name (scenario_secret g) \<noteq> secret_name (scenario_secret h)" if "g \<noteq> h" for g h
    using that arg_cong [of _ _ public_key_bytes] by (metis list.inject scenario_secret_name)
  then show ?thesis by (simp add: scenario_keys_def)
qed

text \<open>A key file that is written over a longer one is read back as garbage.\<close>

theorem export_roundtrip_witness:
  "\<exists>fs' e. export_write scenario_secret_json (scenario_secret 1) ''k''
      \<lparr>files = [''k'' \<mapsto> [123, 34, 97, 125]], can_write = \<lambda>_. True\<rparr> = (Ok (), fs')
    \<and> export_read scenario_secret_json ''k'' fs' = Err (ReadError ''k'' e)"
proof -
  have "json_ok scenario_secret_json {scenario_secret 1}"
    using scenario_secret_json_ok by (simp add: json_ok_def)
  from export_roundtrip [OF this, of "\<lparr>files = [''k'' \<mapsto> [123, 34, 97, 125]], can_write = \<lambda>_. True\<rparr>" "''k''"] show ?thesis
    by (auto simp: scenario_secret_json_def scenario_json_def stale_def blank_def)
qed

theorem testbed_committees_agree_witness:
  "\<exists>c. testbed_committee scenario_keys = Ok c \<and> committee_ok (consensus_committee c)
    \<and> mempool_committee_ok (mempool_committee c) \<and> unat (quorum_threshold (consensus_committee c)) = 3"
  using testbed_committees_agree [OF scenario_keys_distinct] by (auto simp: scenario_keys_def)

theorem testbed_ports_witness:
  "\<exists>c. testbed_committee scenario_keys = Ok c \<and> distinct (testbed_addresses c)"
proof -
  obtain c where c: "testbed_committee scenario_keys = Ok c"
    using testbed_committee_run(1) [OF scenario_keys_distinct] by (auto simp: scenario_keys_def)
  from testbed_ports [OF scenario_keys_distinct c] c show ?thesis by (simp add: scenario_keys_def)
qed

theorem deployed_nodes_start_witness:
  "\<exists>c fs'. snd (deploy_testbed (scenario_json (\<lambda>_. 123) (\<lambda>_. c)) scenario_secret_json scenario_keys
      \<lparr>files = Map.empty, can_write = \<lambda>_. True\<rparr>) = fs'
    \<and> fst (node_new (scenario_json (\<lambda>_. 123) (\<lambda>_. c)) scenario_secret_json (scenario_json (\<lambda>_. 0) (\<lambda>_. node_parameters_default))
        committee_path (node_file 2) None fs')
      = Ok \<lparr>node_name = secret_name (scenario_secret 3), node_secret = secret_secret (scenario_secret 3),
          node_committees = c, node_params = node_parameters_default\<rparr>"
proof -
  obtain c where c: "testbed_committee scenario_keys = Ok c"
    using testbed_committee_run(1) [OF scenario_keys_distinct] by (auto simp: scenario_keys_def)
  have "json_ok (scenario_json (\<lambda>_. 123) (\<lambda>_. c)) {c}" by (rule scenario_json_ok) simp
  moreover have "json_ok scenario_secret_json (set scenario_keys)"
    using scenario_secret_json_ok by (auto simp: json_ok_def scenario_keys_def)
  ultimately obtain fs' where
    "deploy_testbed (scenario_json (\<lambda>_. 123) (\<lambda>_. c)) scenario_secret_json scenario_keys
      \<lparr>files = Map.empty, can_write = \<lambda>_. True\<rparr> = (Ok (map (\<lambda>j. (committee_path, node_file j)) [0 ..< length scenario_keys]), fs')"
    "\<forall>j < length scenario_keys. node_new (scenario_json (\<lambda>_. 123) (\<lambda>_. c)) scenario_secret_json
        (scenario_json (\<lambda>_. 0) (\<lambda>_. node_parameters_default)) committee_path (node_file j) None fs'
      = (Ok \<lparr>node_name = secret_name (scenario_keys ! j), node_secret = secret_secret (scenario_keys ! j), node_committees = c,
            node_params = node_parameters_default\<rparr>, fs')"
    using deployed_nodes_start [OF _ _ _ c, of _ scenario_secret_json "\<lparr>files = Map.empty, can_write = \<lambda>_. True\<rparr>"
        "scenario_json (\<lambda>_. 0) (\<lambda>_. node_parameters_default)"] by auto
  then show ?thesis
    by (intro exI [of _ c] exI [of _ fs']) (auto simp: scenario_keys_def dest: spec [of _ 2])
qed

end
