(* ===== verification/Mempool_Node.thy ===== *)
theory Mempool_Node
  imports Mempool
begin

text \<open>
  \<open>Mempool::spawn\<close> of \<open>mempool/src/mempool.rs\<close> as one state: the tasks of the mempool, the channels between them and the
  store they share, which takes a step whenever one of the tasks does, in any order. The property at the end
  follows a transaction through all of them, whatever the interleaving.
\<close>

section \<open>State\<close>

text \<open>
  There are two processors, one for the batches of this node and one for those of other nodes. \<open>rx_commands\<close> is the
  channel from the consensus, \<open>tx_digests\<close> the one to it.
\<close>

datatype mempool_task =
    Batch_maker_task | Quorum_waiter_task | Own_processor | Other_processor | Batch_helper | Batch_synchronizer

record 'db mempool_node =
  mn_store :: "'db store"
  mn_batch_maker :: batch_maker
  mn_quorum_waiter :: quorum_waiter
  mn_synchronizer :: "'db mempool_sync"
  mn_stopped :: "mempool_task set"
  rx_batch_maker :: "transaction list"
  rx_quorum_waiter :: "(bytes \<times> public_key list) list"
  rx_processor :: "bytes list"
  rx_received :: "bytes list"
  rx_requests :: "(digest list \<times> public_key) list"
  rx_commands :: "sync_message list"
  tx_digests :: "digest list"
  mn_sent :: "(socket_addr \<times> bytes) list"
  mn_listen :: "socket_addr \<times> socket_addr"

definition stop_mempool_task :: "mempool_task \<Rightarrow> ('e, unit) outcome \<Rightarrow> 'db mempool_node \<Rightarrow> 'db mempool_node" where
  "stop_mempool_task k r n = (case r of Ok _ \<Rightarrow> n | _ \<Rightarrow> n\<lparr>mn_stopped := insert k (mn_stopped n)\<rparr>)"

text \<open>
  The channels of the receivers' handlers that are closed: those of the tasks that have ended; none of the three loops for ever.
\<close>

definition mn_closed :: "'db mempool_node \<Rightarrow> mempool_channel set" where
  "mn_closed n = (if Batch_maker_task \<in> mn_stopped n then {Batch_maker_channel} else {})
     \<union> (if Other_processor \<in> mn_stopped n then {Processor_channel} else {})
     \<union> (if Batch_helper \<in> mn_stopped n then {Batch_helper_channel} else {})"

lemma mn_closed_none: "mn_stopped n = {} \<Longrightarrow> mn_closed n = {}"
  by (simp add: mn_closed_def)

text \<open>Where the effects of the tasks and of the receivers' handlers go.\<close>

fun batch_effect_to :: "batch_effect \<Rightarrow> 'db mempool_node \<Rightarrow> 'db mempool_node" where
  "batch_effect_to (Batch_broadcast addresses m) n = n\<lparr>mn_sent := mn_sent n @ map (\<lambda>a. (a, m)) addresses\<rparr>"
| "batch_effect_to (To_quorum_waiter m handlers) n = n\<lparr>rx_quorum_waiter := rx_quorum_waiter n @ [(m, handlers)]\<rparr>"
| "batch_effect_to (Timer_reset _) n = n"

fun mempool_effect_to :: "mempool_effect \<Rightarrow> 'db mempool_node \<Rightarrow> 'db mempool_node" where
  "mempool_effect_to (Mp_send a m) n = n\<lparr>mn_sent := mn_sent n @ [(a, m)]\<rparr>"
| "mempool_effect_to (Mp_digest d) n = n\<lparr>tx_digests := tx_digests n @ [d]\<rparr>"
| "mempool_effect_to (Mp_notify _) n = n"

fun mempool_dispatched_to :: "mempool_dispatched \<Rightarrow> 'db mempool_node \<Rightarrow> 'db mempool_node" where
  "mempool_dispatched_to Mp_ack n = n"
| "mempool_dispatched_to (To_batch_maker tx) n = n\<lparr>rx_batch_maker := rx_batch_maker n @ [tx]\<rparr>"
| "mempool_dispatched_to (To_processor b) n = n\<lparr>rx_received := rx_received n @ [b]\<rparr>"
| "mempool_dispatched_to (To_mempool_helper ds k) n = n\<lparr>rx_requests := rx_requests n @ [(ds, k)]\<rparr>"

section \<open>The turns of the tasks\<close>

definition batch_maker_turn ::
    "('k, 'db) mempool_env \<Rightarrow> bool \<Rightarrow> batch_event \<Rightarrow> 'db mempool_node \<Rightarrow> 'db mempool_node" where
  "batch_maker_turn ME bench ev n =
     (case batch_handle (mempool_batch_config ME bench) ev (mn_batch_maker n) of (r, t) \<Rightarrow>
        fold batch_effect_to (gained (bm_out (mn_batch_maker n)) (bm_out t))
          (stop_mempool_task Batch_maker_task r (n\<lparr>mn_batch_maker := t\<rparr>)))"

definition quorum_turn :: "('k, 'db) mempool_env \<Rightarrow> quorum_event \<Rightarrow> 'db mempool_node \<Rightarrow> 'db mempool_node" where
  "quorum_turn ME ev n =
     (case quorum_handle (mp_committee ME) (mempool_stake (mp_committee ME) (mp_name ME)) ev (mn_quorum_waiter n) of (r, t) \<Rightarrow>
        stop_mempool_task Quorum_waiter_task r
          (n\<lparr>mn_quorum_waiter := t, rx_processor := rx_processor n @ gained (delivered (mn_quorum_waiter n)) (delivered t)\<rparr>))"

definition processor_turn :: "('k, 'db) mempool_env \<Rightarrow> mempool_task \<Rightarrow> bytes \<Rightarrow> 'db mempool_node \<Rightarrow> 'db mempool_node" where
  "processor_turn ME k batch n =
     (case processor_handle ME batch \<lparr>mp_store = mn_store n, mp_out = []\<rparr> of (r, w) \<Rightarrow>
        fold mempool_effect_to (mp_out w) (stop_mempool_task k r (n\<lparr>mn_store := mp_store w\<rparr>)))"

definition request_turn :: "('k, 'db) mempool_env \<Rightarrow> digest list \<times> public_key \<Rightarrow> 'db mempool_node \<Rightarrow> 'db mempool_node" where
  "request_turn ME request n =
     (case mempool_helper_handle ME request \<lparr>mp_store = mn_store n, mp_out = []\<rparr> of (r, w) \<Rightarrow>
        fold mempool_effect_to (mp_out w) (stop_mempool_task Batch_helper r n))"

definition fetch_turn :: "('k, 'db) mempool_env \<Rightarrow> mempool_sync_event \<Rightarrow> 'db mempool_node \<Rightarrow> 'db mempool_node" where
  "fetch_turn ME ev n =
     (case mempool_sync_handle ME ev ((mn_synchronizer n)\<lparr>mp_store := mn_store n\<rparr>) of (r, t) \<Rightarrow>
        fold mempool_effect_to (gained (mp_out (mn_synchronizer n)) (mp_out t))
          (stop_mempool_task Batch_synchronizer r (n\<lparr>mn_synchronizer := t\<rparr>)))"

section \<open>The mempool\<close>

text \<open>
  What may happen next: a frame on the port for transactions or on the one for other mempools, a command of the
  consensus or a write of it to the store, or the turn of a task. The answers of \<open>Mn_quorum\<close> are the peers that
  acknowledge the batch, in their order.
\<close>

datatype mempool_event =
    Mn_transaction bytes
  | Mn_frame bytes
  | Mn_command sync_message
  | Mn_write bytes bytes
  | Mn_collect
  | Mn_batch_timer
  | Mn_quorum "public_key list"
  | Mn_disseminated nat
  | Mn_process
  | Mn_process_received
  | Mn_answer
  | Mn_fetch u128
  | Mn_fetch_ready bool nat
  | Mn_fetch_timer "socket_addr list \<Rightarrow> socket_addr list" u128

definition mempool_turn_task :: "mempool_event \<Rightarrow> mempool_task option" where
  "mempool_turn_task ev = (case ev of
       Mn_transaction _ \<Rightarrow> None | Mn_frame _ \<Rightarrow> None | Mn_command _ \<Rightarrow> None | Mn_write _ _ \<Rightarrow> None
     | Mn_collect \<Rightarrow> Some Batch_maker_task | Mn_batch_timer \<Rightarrow> Some Batch_maker_task
     | Mn_quorum _ \<Rightarrow> Some Quorum_waiter_task | Mn_disseminated _ \<Rightarrow> Some Quorum_waiter_task
     | Mn_process \<Rightarrow> Some Own_processor | Mn_process_received \<Rightarrow> Some Other_processor
     | Mn_answer \<Rightarrow> Some Batch_helper
     | Mn_fetch _ \<Rightarrow> Some Batch_synchronizer | Mn_fetch_ready _ _ \<Rightarrow> Some Batch_synchronizer
     | Mn_fetch_timer _ _ \<Rightarrow> Some Batch_synchronizer)"

definition mempool_turn ::
    "('k, 'db) mempool_env \<Rightarrow> bool \<Rightarrow> mempool_event \<Rightarrow> 'db mempool_node \<Rightarrow> 'db mempool_node" where
  "mempool_turn ME bench ev n = (if mempool_turn_task ev \<in> Some ` mn_stopped n then n else case ev of
       Mn_transaction tx \<Rightarrow> fold mempool_dispatched_to (snd (tx_dispatch (mn_closed n) tx [])) n
     | Mn_frame frame \<Rightarrow> fold mempool_dispatched_to (snd (mempool_dispatch ME (mn_closed n) frame [])) n
     | Mn_command m \<Rightarrow> n\<lparr>rx_commands := rx_commands n @ [m]\<rparr>
     | Mn_write k v \<Rightarrow> n\<lparr>mn_store := store_write (mp_rocksdb ME) k v (mn_store n)\<rparr>
     | Mn_collect \<Rightarrow> (case rx_batch_maker n of [] \<Rightarrow> n
         | tx # txs \<Rightarrow> batch_maker_turn ME bench (Transaction tx) (n\<lparr>rx_batch_maker := txs\<rparr>))
     | Mn_batch_timer \<Rightarrow> batch_maker_turn ME bench Batch_timer n
     | Mn_quorum answers \<Rightarrow> (case rx_quorum_waiter n of [] \<Rightarrow> n
         | (m, handlers) # ms \<Rightarrow> quorum_turn ME (Quorum_message m handlers answers) (n\<lparr>rx_quorum_waiter := ms\<rparr>))
     | Mn_disseminated i \<Rightarrow> quorum_turn ME (Disseminated i) n
     | Mn_process \<Rightarrow> (case rx_processor n of [] \<Rightarrow> n
         | b # bs \<Rightarrow> processor_turn ME Own_processor b (n\<lparr>rx_processor := bs\<rparr>))
     | Mn_process_received \<Rightarrow> (case rx_received n of [] \<Rightarrow> n
         | b # bs \<Rightarrow> processor_turn ME Other_processor b (n\<lparr>rx_received := bs\<rparr>))
     | Mn_answer \<Rightarrow> (case rx_requests n of [] \<Rightarrow> n
         | x # xs \<Rightarrow> request_turn ME x (n\<lparr>rx_requests := xs\<rparr>))
     | Mn_fetch now \<Rightarrow> (case rx_commands n of [] \<Rightarrow> n
         | m # ms \<Rightarrow> fetch_turn ME (Ms_message now m) (n\<lparr>rx_commands := ms\<rparr>))
     | Mn_fetch_ready pick i \<Rightarrow> fetch_turn ME (Ms_ready pick i) n
     | Mn_fetch_timer shuffle now \<Rightarrow> fetch_turn ME (Ms_timer shuffle now) n)"

definition mempool_spawn :: "('k, 'db) mempool_env \<Rightarrow> 'db store \<Rightarrow> (unit, 'db mempool_node) outcome" where
  "mempool_spawn ME st =
     (case mempool_listen ME of
        Ok listen \<Rightarrow> Ok \<lparr>mn_store = st, mn_batch_maker = batch_maker_new, mn_quorum_waiter = quorum_waiter_new,
          mn_synchronizer = mempool_sync_new st, mn_stopped = {}, rx_batch_maker = [], rx_quorum_waiter = [],
          rx_processor = [], rx_received = [], rx_requests = [], rx_commands = [], tx_digests = [], mn_sent = [],
          mn_listen = listen\<rparr>
      | Err e \<Rightarrow> Err e | Panic p \<Rightarrow> Panic p | Diverge \<Rightarrow> Diverge)"

definition mempool_node_run ::
    "('k, 'db) mempool_env \<Rightarrow> bool \<Rightarrow> mempool_event list \<Rightarrow> 'db mempool_node \<Rightarrow> 'db mempool_node" where
  "mempool_node_run ME bench evs n = fold (mempool_turn ME bench) evs n"

text \<open>What has arrived: transactions, and batches of other nodes.\<close>

definition received_transactions :: "mempool_event list \<Rightarrow> transaction list" where
  "received_transactions evs = concat (map (\<lambda>ev. case ev of Mn_transaction tx \<Rightarrow> [tx] | _ \<Rightarrow> []) evs)"

definition received_frames :: "('k, 'db) mempool_env \<Rightarrow> mempool_event list \<Rightarrow> bytes list" where
  "received_frames ME evs = concat (map (\<lambda>ev. case ev of
     Mn_frame f \<Rightarrow> received_batches (snd (mempool_dispatch ME {} f [])) | _ \<Rightarrow> []) evs)"

lemma received_snoc [simp]:
  "received_transactions [] = []" "received_frames ME [] = []"
  "received_transactions (evs @ [ev]) = received_transactions evs @ (case ev of Mn_transaction tx \<Rightarrow> [tx] | _ \<Rightarrow> [])"
  "received_frames ME (evs @ [ev]) = received_frames ME evs
     @ (case ev of Mn_frame f \<Rightarrow> received_batches (snd (mempool_dispatch ME {} f [])) | _ \<Rightarrow> [])"
  by (simp_all add: received_transactions_def received_frames_def)

section \<open>What a turn does to the channels\<close>

lemma stop_mempool_task_fields [simp]:
  "mn_store (stop_mempool_task k r n) = mn_store n" "mn_batch_maker (stop_mempool_task k r n) = mn_batch_maker n"
  "mn_quorum_waiter (stop_mempool_task k r n) = mn_quorum_waiter n"
  "rx_batch_maker (stop_mempool_task k r n) = rx_batch_maker n"
  "rx_quorum_waiter (stop_mempool_task k r n) = rx_quorum_waiter n" "rx_processor (stop_mempool_task k r n) = rx_processor n"
  "rx_received (stop_mempool_task k r n) = rx_received n" "tx_digests (stop_mempool_task k r n) = tx_digests n"
  "mn_stopped (stop_mempool_task k r n) = (case r of Ok _ \<Rightarrow> mn_stopped n | _ \<Rightarrow> insert k (mn_stopped n))"
  by (simp_all add: stop_mempool_task_def split: outcome.split)

lemma batch_effect_to_fields [simp]:
  "mn_store (batch_effect_to e n) = mn_store n" "mn_batch_maker (batch_effect_to e n) = mn_batch_maker n"
  "mn_quorum_waiter (batch_effect_to e n) = mn_quorum_waiter n" "mn_stopped (batch_effect_to e n) = mn_stopped n"
  "rx_batch_maker (batch_effect_to e n) = rx_batch_maker n" "rx_processor (batch_effect_to e n) = rx_processor n"
  "rx_received (batch_effect_to e n) = rx_received n" "tx_digests (batch_effect_to e n) = tx_digests n"
  by (cases e; simp)+

lemma mempool_effect_to_fields [simp]:
  "mn_store (mempool_effect_to e n) = mn_store n" "mn_batch_maker (mempool_effect_to e n) = mn_batch_maker n"
  "mn_quorum_waiter (mempool_effect_to e n) = mn_quorum_waiter n" "mn_stopped (mempool_effect_to e n) = mn_stopped n"
  "rx_batch_maker (mempool_effect_to e n) = rx_batch_maker n" "rx_quorum_waiter (mempool_effect_to e n) = rx_quorum_waiter n"
  "rx_processor (mempool_effect_to e n) = rx_processor n" "rx_received (mempool_effect_to e n) = rx_received n"
  by (cases e; simp)+

lemma mempool_dispatched_to_fields [simp]:
  "mn_store (mempool_dispatched_to e n) = mn_store n" "mn_batch_maker (mempool_dispatched_to e n) = mn_batch_maker n"
  "mn_quorum_waiter (mempool_dispatched_to e n) = mn_quorum_waiter n" "mn_stopped (mempool_dispatched_to e n) = mn_stopped n"
  "rx_quorum_waiter (mempool_dispatched_to e n) = rx_quorum_waiter n" "rx_processor (mempool_dispatched_to e n) = rx_processor n"
  "tx_digests (mempool_dispatched_to e n) = tx_digests n"
  by (cases e; simp)+

lemma mempool_effects_fields [simp]:
  "mn_store (fold batch_effect_to es n) = mn_store n" "mn_batch_maker (fold batch_effect_to es n) = mn_batch_maker n"
  "mn_quorum_waiter (fold batch_effect_to es n) = mn_quorum_waiter n" "mn_stopped (fold batch_effect_to es n) = mn_stopped n"
  "rx_batch_maker (fold batch_effect_to es n) = rx_batch_maker n" "rx_processor (fold batch_effect_to es n) = rx_processor n"
  "rx_received (fold batch_effect_to es n) = rx_received n" "tx_digests (fold batch_effect_to es n) = tx_digests n"
  "mn_store (fold mempool_effect_to ms n) = mn_store n" "mn_batch_maker (fold mempool_effect_to ms n) = mn_batch_maker n"
  "mn_quorum_waiter (fold mempool_effect_to ms n) = mn_quorum_waiter n" "mn_stopped (fold mempool_effect_to ms n) = mn_stopped n"
  "rx_batch_maker (fold mempool_effect_to ms n) = rx_batch_maker n" "rx_quorum_waiter (fold mempool_effect_to ms n) = rx_quorum_waiter n"
  "rx_processor (fold mempool_effect_to ms n) = rx_processor n" "rx_received (fold mempool_effect_to ms n) = rx_received n"
  "mn_store (fold mempool_dispatched_to ds n) = mn_store n" "mn_batch_maker (fold mempool_dispatched_to ds n) = mn_batch_maker n"
  "mn_quorum_waiter (fold mempool_dispatched_to ds n) = mn_quorum_waiter n" "mn_stopped (fold mempool_dispatched_to ds n) = mn_stopped n"
  "rx_quorum_waiter (fold mempool_dispatched_to ds n) = rx_quorum_waiter n" "rx_processor (fold mempool_dispatched_to ds n) = rx_processor n"
  "tx_digests (fold mempool_dispatched_to ds n) = tx_digests n"
  by (rule fold_field, simp)+

text \<open>The messages to the quorum waiter, and the channels that the effects extend.\<close>

definition to_quorum_waiter :: "batch_effect list \<Rightarrow> (bytes \<times> public_key list) list" where
  "to_quorum_waiter es = concat (map (\<lambda>e. case e of To_quorum_waiter m handlers \<Rightarrow> [(m, handlers)] | _ \<Rightarrow> []) es)"

lemma sealed_to_quorum_waiter: "map fst (to_quorum_waiter es) = sealed es"
  by (induction es) (auto simp: to_quorum_waiter_def sealed_def split: batch_effect.split)

lemma batch_effects_channel: "rx_quorum_waiter (fold batch_effect_to es n) = rx_quorum_waiter n @ to_quorum_waiter es"
proof (induction es arbitrary: n)
  case (Cons e es)
  then show ?case by (cases e) (simp_all add: to_quorum_waiter_def)
qed (simp add: to_quorum_waiter_def)

lemma mempool_effects_channel: "tx_digests (fold mempool_effect_to ms n) = tx_digests n @ announced ms"
proof (induction ms arbitrary: n)
  case (Cons e ms)
  then show ?case by (cases e) (simp_all add: announced_def)
qed simp

lemma mempool_dispatched_channels:
  "rx_received (fold mempool_dispatched_to ds n) = rx_received n @ received_batches ds"
  "rx_batch_maker (fold mempool_dispatched_to ds n) = rx_batch_maker n
     @ concat (map (\<lambda>x. case x of To_batch_maker tx \<Rightarrow> [tx] | _ \<Rightarrow> []) ds)"
proof (induction ds arbitrary: n)
  case (Cons e ds)
  { case 1 show ?case using Cons(1) [of "mempool_dispatched_to e n"] by (cases e) (simp_all add: received_batches_def) next
    case 2 show ?case using Cons(2) [of "mempool_dispatched_to e n"] by (cases e) simp_all }
qed (simp_all add: received_batches_def)

lemma mempool_dispatch_no_transaction:
  "concat (map (\<lambda>x. case x of To_batch_maker tx \<Rightarrow> [tx] | _ \<Rightarrow> []) (snd (mempool_dispatch ME gone f []))) = []"
  by (simp add: mempool_dispatch_def channel_send_def proc_simps split: outcome.split mempool_message.split)

text \<open>The logs of the tasks only grow.\<close>

lemma batch_handle_grows:
  assumes "batch_handle C ev s = (r, t)"
  shows "\<exists>es. bm_out t = bm_out s @ es \<and> (\<forall>x\<in>set (to_quorum_waiter es). snd x = map fst (bm_addresses C))"
proof -
  have seal: "\<exists>es. bm_out t = bm_out s @ es \<and> (\<forall>x\<in>set (to_quorum_waiter es). snd x = map fst (bm_addresses C))"
    if "seal C s = (r, t)" for s r t
    using that
    by (auto simp: seal_def bm_emit_def proc_simps to_quorum_waiter_def split: if_splits option.splits
        intro: exI [of _ "[]"])
  have reset: "\<exists>es. bm_out t = bm_out s @ es \<and> (\<forall>x\<in>set (to_quorum_waiter es). snd x = map fst (bm_addresses C))"
    if "sq (seal C) (reset_timer C) s = (r, t)" for s r t
  proof -
    obtain r' s' where s': "seal C s = (r', s')" by (cases "seal C s")
    obtain es where "bm_out s' = bm_out s @ es" "\<forall>x\<in>set (to_quorum_waiter es). snd x = map fst (bm_addresses C)"
      using seal [OF s'] by blast
    then show ?thesis
      using that s' by (cases r') (auto simp: run_sq reset_timer_def bm_emit_def modify_def to_quorum_waiter_def
        intro: exI [of _ es])
  qed
  show ?thesis
    using assms reset
    by (cases ev) (force simp: batch_handle_def proc_simps reset_timer_def bm_emit_def to_quorum_waiter_def split: if_splits)+
qed

lemma quorum_handle_grows: "quorum_handle c w ev s = (r, t) \<Longrightarrow> \<exists>es. delivered t = delivered s @ es"
  by (cases ev)
    (auto simp: quorum_handle_def quorum_message_def quorum_disseminated_def sq_def bnd_def modify_def ret_def gets_def
      split: if_splits prod.splits)

section \<open>The invariant\<close>

lemma run_all_snoc: "run_all h xs s = (Ok (), c) \<Longrightarrow> run_all h (xs @ [x]) s = h x c"
  by (cases "h x c"; cases "fst (h x c)") (auto simp: run_all_append run_sq ret_def)

text \<open>
  What each stage has done is a run of its task, and its input channel holds what the stage before it has sent and it
  has not taken yet. A stage that has stopped did so on its last event;
  what clients send after the batch maker has stopped is lost.
\<close>

definition collects :: "('k, 'db) mempool_env \<Rightarrow> bool \<Rightarrow> mempool_event list \<Rightarrow> 'db mempool_node \<Rightarrow> bool" where
  "collects ME bench evs n \<longleftrightarrow> (\<exists>bevs r lost. batch_run (mempool_batch_config ME bench) bevs = (r, mn_batch_maker n)
     \<and> (r = Ok () \<longleftrightarrow> Batch_maker_task \<notin> mn_stopped n)
     \<and> transactions bevs @ rx_batch_maker n @ lost = received_transactions evs
     \<and> (Batch_maker_task \<notin> mn_stopped n \<longrightarrow> lost = []))"

definition awaits_quorums :: "('k, 'db) mempool_env \<Rightarrow> 'db mempool_node \<Rightarrow> bool" where
  "awaits_quorums ME n \<longleftrightarrow> (\<exists>qevs r. mempool_quorum_run ME qevs = (r, mn_quorum_waiter n)
     \<and> (r = Ok () \<longleftrightarrow> Quorum_waiter_task \<notin> mn_stopped n)
     \<and> (r \<noteq> Ok () \<longrightarrow> (\<exists>q ev. qevs = q @ [ev] \<and> fst (mempool_quorum_run ME q) = Ok ()))
     \<and> concat (map batch_of qevs) @ map fst (rx_quorum_waiter n) = sealed (bm_out (mn_batch_maker n))
     \<and> (\<forall>x\<in>set (rx_quorum_waiter n). snd x = map fst (mempool_broadcast_addresses (mp_committee ME) (mp_name ME)))
     \<and> (\<forall>ev\<in>set qevs. quorum_event_ok (mp_committee ME) (mp_name ME) ev))"

definition processes :: "('k, 'db) mempool_env \<Rightarrow> 'db store \<Rightarrow> mempool_event list \<Rightarrow> 'db mempool_node \<Rightarrow> bool" where
  "processes ME st evs n \<longleftrightarrow> (\<exists>pevs own others w. processor_run ME pevs \<lparr>mp_store = st, mp_out = []\<rparr> = (Ok (), w)
     \<and> mp_store w = mn_store n \<and> announced (mp_out w) = tx_digests n \<and> batches pevs \<in> shuffles own others
     \<and> own @ rx_processor n = delivered (mn_quorum_waiter n) \<and> others @ rx_received n = received_frames ME evs
     \<and> (\<forall>k v. Processor_write k v \<in> set pevs \<longrightarrow> Mn_write k v \<in> set evs) \<and> Other_processor \<notin> mn_stopped n)"

definition flows ::
    "('k, 'db) mempool_env \<Rightarrow> bool \<Rightarrow> 'db store \<Rightarrow> mempool_event list \<Rightarrow> 'db mempool_node \<Rightarrow> bool" where
  "flows ME bench st evs n \<longleftrightarrow> collects ME bench evs n \<and> awaits_quorums ME n \<and> processes ME st evs n"

text \<open>Each peer answers a batch at most once.\<close>

fun answers_ok :: "('k, 'db) mempool_env \<Rightarrow> mempool_event \<Rightarrow> bool" where
  "answers_ok ME (Mn_quorum answers) \<longleftrightarrow> distinct answers
     \<and> set answers \<subseteq> fst ` set (mempool_broadcast_addresses (mp_committee ME) (mp_name ME))"
| "answers_ok ME _ \<longleftrightarrow> True"

lemma processes_same:
  assumes "processes ME st evs n" and "mn_store m = mn_store n" and "tx_digests m = tx_digests n"
    and "rx_processor m = rx_processor n" and "delivered (mn_quorum_waiter m) = delivered (mn_quorum_waiter n)"
    and "rx_received m = rx_received n @ fs" and "received_frames ME (evs @ [ev]) = received_frames ME evs @ fs"
    and "Other_processor \<in> mn_stopped m \<longrightarrow> Other_processor \<in> mn_stopped n"
  shows "processes ME st (evs @ [ev]) m"
proof -
  obtain pevs own others w where p: "processor_run ME pevs \<lparr>mp_store = st, mp_out = []\<rparr> = (Ok (), w)"
    "mp_store w = mn_store n" "announced (mp_out w) = tx_digests n" "batches pevs \<in> shuffles own others"
    "own @ rx_processor n = delivered (mn_quorum_waiter n)" "others @ rx_received n = received_frames ME evs"
    "\<forall>k v. Processor_write k v \<in> set pevs \<longrightarrow> Mn_write k v \<in> set evs" "Other_processor \<notin> mn_stopped n"
    using assms(1) unfolding processes_def by blast
  have "others @ rx_received m = received_frames ME (evs @ [ev])" using p(6) assms(6,7) by simp
  then show ?thesis
    unfolding processes_def using p assms(2-5,8)
    by (intro exI [of _ pevs] exI [of _ own] exI [of _ others] exI [of _ w]) simp
qed

lemma flows_same:
  assumes F: "flows ME bench st evs n" and "mn_store m = mn_store n" and "mn_batch_maker m = mn_batch_maker n"
    and "mn_quorum_waiter m = mn_quorum_waiter n"
    and "mn_stopped n \<subseteq> mn_stopped m" and "mn_stopped m - mn_stopped n \<subseteq> {Batch_helper, Batch_synchronizer}"
    and "rx_quorum_waiter m = rx_quorum_waiter n" and "tx_digests m = tx_digests n" and "rx_processor m = rx_processor n"
    and "rx_received m = rx_received n @ fs" and "received_frames ME (evs @ [ev]) = received_frames ME evs @ fs"
    and "rx_batch_maker m = rx_batch_maker n @ (if Batch_maker_task \<in> mn_stopped n then [] else ts)" and "received_transactions (evs @ [ev]) = received_transactions evs @ ts"
  shows "flows ME bench st (evs @ [ev]) m"
proof -
  have "Batch_maker_task \<in> mn_stopped m \<longleftrightarrow> Batch_maker_task \<in> mn_stopped n"
    "Quorum_waiter_task \<in> mn_stopped m \<longleftrightarrow> Quorum_waiter_task \<in> mn_stopped n"
    using assms(5,6) by auto
  then have "awaits_quorums ME m"
    using F by (simp only: flows_def awaits_quorums_def assms(3,4,7))
  moreover have "collects ME bench (evs @ [ev]) m"
  proof -
    obtain bevs r lost where c: "batch_run (mempool_batch_config ME bench) bevs = (r, mn_batch_maker n)"
      "r = Ok () \<longleftrightarrow> Batch_maker_task \<notin> mn_stopped n" "transactions bevs @ rx_batch_maker n @ lost = received_transactions evs"
      "Batch_maker_task \<notin> mn_stopped n \<longrightarrow> lost = []"
      using F unfolding flows_def collects_def by blast
    then show ?thesis
      unfolding collects_def using \<open>Batch_maker_task \<in> mn_stopped m \<longleftrightarrow> Batch_maker_task \<in> mn_stopped n\<close> assms(3,12,13)
      by (intro exI [of _ bevs] exI [of _ r] exI [of _ "if Batch_maker_task \<in> mn_stopped n then lost @ ts else []"]) (simp flip: c(3))
  qed
  moreover have "processes ME st (evs @ [ev]) m"
    by (rule processes_same [of ME st evs n]) (use F assms(2-11) in \<open>auto simp: flows_def\<close>)
  ultimately show ?thesis by (simp add: flows_def)
qed

lemma batch_maker_turn_flows:
  assumes F: "flows ME bench st evs n" and live: "Batch_maker_task \<notin> mn_stopped n"
    and m: "m = n\<lparr>rx_batch_maker := txs\<rparr>" and txs: "transactions [b] @ txs = rx_batch_maker n"
    and ev: "received_transactions (evs @ [ev]) = received_transactions evs" "received_frames ME (evs @ [ev]) = received_frames ME evs"
  shows "flows ME bench st (evs @ [ev]) (batch_maker_turn ME bench b m)"
proof -
  let ?C = "mempool_batch_config ME bench"
  obtain bevs where run: "batch_run ?C bevs = (Ok (), mn_batch_maker n)"
    and tr: "transactions bevs @ rx_batch_maker n = received_transactions evs"
    using F live by (auto simp: flows_def collects_def)
  obtain r t where h: "batch_handle ?C b (mn_batch_maker n) = (r, t)" by (cases "batch_handle ?C b (mn_batch_maker n)")
  obtain es where es: "bm_out t = bm_out (mn_batch_maker n) @ es"
    "\<forall>x\<in>set (to_quorum_waiter es). snd x = map fst (mempool_broadcast_addresses (mp_committee ME) (mp_name ME))"
    using batch_handle_grows [OF h] by (auto simp: mempool_batch_config_def)
  have t: "batch_maker_turn ME bench b m = fold batch_effect_to es (stop_mempool_task Batch_maker_task r (m\<lparr>mn_batch_maker := t\<rparr>))"
    using h es by (simp add: batch_maker_turn_def m)
  have "batch_run ?C (bevs @ [b]) = (r, t)"
    using run_all_snoc [of "batch_handle ?C" bevs batch_maker_new] run h by (simp add: batch_run_def)
  moreover have "transactions (bevs @ [b]) @ txs = received_transactions (evs @ [ev])"
    using tr txs ev(1) by (simp add: transactions_def)
  ultimately have "collects ME bench (evs @ [ev]) (batch_maker_turn ME bench b m)"
    unfolding collects_def t using live
    by (intro exI [of _ "bevs @ [b]"] exI [of _ r] exI [of _ "[]"]) (auto simp: m split: outcome.splits)
  moreover have "awaits_quorums ME (batch_maker_turn ME bench b m)"
  proof -
    obtain qevs r' where q: "mempool_quorum_run ME qevs = (r', mn_quorum_waiter n)"
      "r' = Ok () \<longleftrightarrow> Quorum_waiter_task \<notin> mn_stopped n"
      "r' \<noteq> Ok () \<longrightarrow> (\<exists>q ev. qevs = q @ [ev] \<and> fst (mempool_quorum_run ME q) = Ok ())"
      "concat (map batch_of qevs) @ map fst (rx_quorum_waiter n) = sealed (bm_out (mn_batch_maker n))"
      "\<forall>x\<in>set (rx_quorum_waiter n). snd x = map fst (mempool_broadcast_addresses (mp_committee ME) (mp_name ME))"
      "\<forall>ev\<in>set qevs. quorum_event_ok (mp_committee ME) (mp_name ME) ev"
      using F unfolding flows_def awaits_quorums_def by blast
    have "Quorum_waiter_task \<in> mn_stopped (batch_maker_turn ME bench b m) \<longleftrightarrow> Quorum_waiter_task \<in> mn_stopped n"
      unfolding t unfolding m by (auto split: outcome.splits)
    moreover have "rx_quorum_waiter (batch_maker_turn ME bench b m) = rx_quorum_waiter n @ to_quorum_waiter es"
      "mn_quorum_waiter (batch_maker_turn ME bench b m) = mn_quorum_waiter n"
      "bm_out (mn_batch_maker (batch_maker_turn ME bench b m)) = bm_out (mn_batch_maker n) @ es"
      unfolding t unfolding m by (simp_all add: batch_effects_channel es(1))
    ultimately show ?thesis
      unfolding awaits_quorums_def using q es(2)
      by (intro exI [of _ qevs] exI [of _ r']) (auto simp: sealed_to_quorum_waiter simp flip: q(4))
  qed
  moreover have "processes ME st (evs @ [ev]) (batch_maker_turn ME bench b m)"
    unfolding t unfolding m
    by (rule processes_same [where n = n and fs = "[]"]) (use F ev in \<open>auto simp: flows_def split: outcome.splits\<close>)
  ultimately show ?thesis by (simp add: flows_def)
qed

lemma quorum_turn_flows:
  assumes F: "flows ME bench st evs n" and live: "Quorum_waiter_task \<notin> mn_stopped n"
    and ms: "batch_of q @ map fst ms = map fst (rx_quorum_waiter n)" "set ms \<subseteq> set (rx_quorum_waiter n)"
    and q: "quorum_event_ok (mp_committee ME) (mp_name ME) q"
    and ev: "received_transactions (evs @ [ev]) = received_transactions evs" "received_frames ME (evs @ [ev]) = received_frames ME evs"
  shows "flows ME bench st (evs @ [ev]) (quorum_turn ME q (n\<lparr>rx_quorum_waiter := ms\<rparr>))"
proof -
  let ?c = "mp_committee ME" and ?me = "mp_name ME"
  obtain qevs where run: "mempool_quorum_run ME qevs = (Ok (), mn_quorum_waiter n)"
    and passed: "concat (map batch_of qevs) @ map fst (rx_quorum_waiter n) = sealed (bm_out (mn_batch_maker n))"
    and peers: "\<forall>x\<in>set (rx_quorum_waiter n). snd x = map fst (mempool_broadcast_addresses ?c ?me)"
    and oks: "\<forall>ev\<in>set qevs. quorum_event_ok ?c ?me ev"
    using F live by (auto simp: flows_def awaits_quorums_def)
  obtain r t where h: "quorum_handle ?c (mempool_stake ?c ?me) q (mn_quorum_waiter n) = (r, t)"
    by (cases "quorum_handle ?c (mempool_stake ?c ?me) q (mn_quorum_waiter n)")
  obtain es where es: "delivered t = delivered (mn_quorum_waiter n) @ es" using quorum_handle_grows [OF h] by blast
  have t: "quorum_turn ME q (n\<lparr>rx_quorum_waiter := ms\<rparr>) = stop_mempool_task Quorum_waiter_task r
      (n\<lparr>rx_quorum_waiter := ms, mn_quorum_waiter := t, rx_processor := rx_processor n @ es\<rparr>)"
    using h es by (simp add: quorum_turn_def)
  have "mempool_quorum_run ME (qevs @ [q]) = (r, t)"
    using run_all_snoc [of "quorum_handle ?c (mempool_stake ?c ?me)" qevs quorum_waiter_new] run h
    by (simp add: mempool_quorum_run_def quorum_run_def)
  moreover have "concat (map batch_of (qevs @ [q])) @ map fst ms = sealed (bm_out (mn_batch_maker n))"
    using passed ms(1) by simp
  ultimately have "awaits_quorums ME (quorum_turn ME q (n\<lparr>rx_quorum_waiter := ms\<rparr>))"
    unfolding awaits_quorums_def t using live run peers oks q ms(2)
    by (intro exI [of _ "qevs @ [q]"] exI [of _ r]) (auto split: outcome.splits)
  moreover have "collects ME bench (evs @ [ev]) (quorum_turn ME q (n\<lparr>rx_quorum_waiter := ms\<rparr>))"
    using F unfolding flows_def collects_def ev(1) t by (auto split: outcome.splits)
  moreover have "processes ME st (evs @ [ev]) (quorum_turn ME q (n\<lparr>rx_quorum_waiter := ms\<rparr>))"
  proof -
    obtain pevs own others w where p: "processor_run ME pevs \<lparr>mp_store = st, mp_out = []\<rparr> = (Ok (), w)"
      "mp_store w = mn_store n" "announced (mp_out w) = tx_digests n" "batches pevs \<in> shuffles own others"
      "own @ rx_processor n = delivered (mn_quorum_waiter n)" "others @ rx_received n = received_frames ME evs"
      "\<forall>k v. Processor_write k v \<in> set pevs \<longrightarrow> Mn_write k v \<in> set evs" "Other_processor \<notin> mn_stopped n"
      using F unfolding flows_def processes_def by blast
    then show ?thesis
      unfolding processes_def t ev(2)
      by (intro exI [of _ pevs] exI [of _ own] exI [of _ others] exI [of _ w]) (auto simp: es simp flip: p(5) split: outcome.splits)
  qed
  ultimately show ?thesis by (simp add: flows_def)
qed

lemma processor_handle_run:
  "processor_handle ME b s = (Ok (), s\<lparr>mp_store := store_write (mp_rocksdb ME) (digest_bytes (hash32 (mp_dalek ME) b)) b (mp_store s),
     mp_out := mp_out s @ map Mp_notify (store_write_replies (mp_rocksdb ME) (digest_bytes (hash32 (mp_dalek ME) b)) b (mp_store s))
       @ [Mp_digest (hash32 (mp_dalek ME) b)]\<rparr>)"
  by (simp add: processor_handle_def Let_def mp_write_def mp_emit_def proc_simps)

lemma processor_turn_fields:
  "mn_store (processor_turn ME k b n) = store_write (mp_rocksdb ME) (digest_bytes (hash32 (mp_dalek ME) b)) b (mn_store n)"
  "tx_digests (processor_turn ME k b n) = tx_digests n @ [hash32 (mp_dalek ME) b]" "mn_stopped (processor_turn ME k b n) = mn_stopped n"
  "mn_batch_maker (processor_turn ME k b n) = mn_batch_maker n" "mn_quorum_waiter (processor_turn ME k b n) = mn_quorum_waiter n"
  "rx_batch_maker (processor_turn ME k b n) = rx_batch_maker n" "rx_quorum_waiter (processor_turn ME k b n) = rx_quorum_waiter n"
  "rx_processor (processor_turn ME k b n) = rx_processor n" "rx_received (processor_turn ME k b n) = rx_received n"
  by (simp_all add: processor_turn_def processor_handle_run mempool_effects_channel)

text \<open>One more batch of a processor: of this node's when \<open>own'\<close> grows, of another's when \<open>others'\<close> does.\<close>

lemma processes_step:
  assumes run: "processor_run ME pevs \<lparr>mp_store = st, mp_out = []\<rparr> = (Ok (), w)"
  shows "\<exists>w'. processor_run ME (pevs @ [Processor_batch b]) \<lparr>mp_store = st, mp_out = []\<rparr> = (Ok (), w')
      \<and> mp_store w' = store_write (mp_rocksdb ME) (digest_bytes (hash32 (mp_dalek ME) b)) b (mp_store w)
      \<and> announced (mp_out w') = announced (mp_out w) @ [hash32 (mp_dalek ME) b]"
    and "\<exists>w'. processor_run ME (pevs @ [Processor_write k v]) \<lparr>mp_store = st, mp_out = []\<rparr> = (Ok (), w')
      \<and> mp_store w' = store_write (mp_rocksdb ME) k v (mp_store w) \<and> announced (mp_out w') = announced (mp_out w)"
  using run_all_snoc [of "processor_step ME" pevs "\<lparr>mp_store = st, mp_out = []\<rparr>" w] run
  by (simp_all add: processor_run_def processor_step_def processor_handle_run mp_write_def modify_def)

lemma batches_snoc [simp]: "batches (pevs @ [Processor_batch b]) = batches pevs @ [b]"
  "batches (pevs @ [Processor_write k v]) = batches pevs"
  by (simp_all add: batches_def)

lemma processor_turn_flows:
  assumes F: "flows ME bench st evs n"
    and ev: "received_transactions (evs @ [ev]) = received_transactions evs" "received_frames ME (evs @ [ev]) = received_frames ME evs"
    and m: "rx_processor n = b # bs \<and> m = n\<lparr>rx_processor := bs\<rparr> \<or> rx_received n = b # bs \<and> m = n\<lparr>rx_received := bs\<rparr>"
  shows "flows ME bench st (evs @ [ev]) (processor_turn ME k b m)"
proof -
  obtain pevs own others w where p: "processor_run ME pevs \<lparr>mp_store = st, mp_out = []\<rparr> = (Ok (), w)"
    "mp_store w = mn_store n" "announced (mp_out w) = tx_digests n" "batches pevs \<in> shuffles own others"
    "own @ rx_processor n = delivered (mn_quorum_waiter n)" "others @ rx_received n = received_frames ME evs"
    "\<forall>k v. Processor_write k v \<in> set pevs \<longrightarrow> Mn_write k v \<in> set evs" "Other_processor \<notin> mn_stopped n"
    using F unfolding flows_def processes_def by blast
  obtain w' where w': "processor_run ME (pevs @ [Processor_batch b]) \<lparr>mp_store = st, mp_out = []\<rparr> = (Ok (), w')"
      "mp_store w' = store_write (mp_rocksdb ME) (digest_bytes (hash32 (mp_dalek ME) b)) b (mp_store w)"
      "announced (mp_out w') = announced (mp_out w) @ [hash32 (mp_dalek ME) b]"
    using processes_step(1) [OF p(1)] by blast
  have same: "mn_stopped m = mn_stopped n" "mn_batch_maker m = mn_batch_maker n" "mn_quorum_waiter m = mn_quorum_waiter n"
    "rx_batch_maker m = rx_batch_maker n" "rx_quorum_waiter m = rx_quorum_waiter n" "mn_store m = mn_store n"
    "tx_digests m = tx_digests n"
    using m by auto
  have "collects ME bench (evs @ [ev]) (processor_turn ME k b m)" "awaits_quorums ME (processor_turn ME k b m)"
    using F by (simp_all only: flows_def collects_def awaits_quorums_def ev(1) processor_turn_fields same)
  moreover have "processes ME st (evs @ [ev]) (processor_turn ME k b m)"
    using m
  proof (elim disjE conjE)
    assume "rx_processor n = b # bs" "m = n\<lparr>rx_processor := bs\<rparr>"
    then show ?thesis
      unfolding processes_def processor_turn_fields ev(2) same using p w' shuffles_snoc_left [OF p(4), of b]
      by (intro exI [of _ "pevs @ [Processor_batch b]"] exI [of _ "own @ [b]"] exI [of _ others] exI [of _ w']) simp
  next
    assume "rx_received n = b # bs" "m = n\<lparr>rx_received := bs\<rparr>"
    then show ?thesis
      unfolding processes_def processor_turn_fields ev(2) same using p w' shuffles_snoc_right [OF p(4), of b]
      by (intro exI [of _ "pevs @ [Processor_batch b]"] exI [of _ own] exI [of _ "others @ [b]"] exI [of _ w']) simp
  qed
  ultimately show ?thesis by (simp add: flows_def)
qed

lemma write_flows:
  assumes F: "flows ME bench st evs n"
  shows "flows ME bench st (evs @ [Mn_write k v]) (n\<lparr>mn_store := store_write (mp_rocksdb ME) k v (mn_store n)\<rparr>)"
proof -
  obtain pevs own others w where p: "processor_run ME pevs \<lparr>mp_store = st, mp_out = []\<rparr> = (Ok (), w)"
    "mp_store w = mn_store n" "announced (mp_out w) = tx_digests n" "batches pevs \<in> shuffles own others"
    "own @ rx_processor n = delivered (mn_quorum_waiter n)" "others @ rx_received n = received_frames ME evs"
    "\<forall>k v. Processor_write k v \<in> set pevs \<longrightarrow> Mn_write k v \<in> set evs" "Other_processor \<notin> mn_stopped n"
    using F unfolding flows_def processes_def by blast
  obtain w' where w': "processor_run ME (pevs @ [Processor_write k v]) \<lparr>mp_store = st, mp_out = []\<rparr> = (Ok (), w')"
      "mp_store w' = store_write (mp_rocksdb ME) k v (mp_store w)" "announced (mp_out w') = announced (mp_out w)"
    using processes_step(2) [OF p(1)] by blast
  have "processes ME st (evs @ [Mn_write k v]) (n\<lparr>mn_store := store_write (mp_rocksdb ME) k v (mn_store n)\<rparr>)"
    unfolding processes_def using p w'
    by (intro exI [of _ "pevs @ [Processor_write k v]"] exI [of _ own] exI [of _ others] exI [of _ w']) simp
  then show ?thesis using F by (simp add: flows_def collects_def awaits_quorums_def)
qed

lemma flows_idle:
  assumes "flows ME bench st evs n" and "mn_store m = mn_store n" "mn_batch_maker m = mn_batch_maker n"
    "mn_quorum_waiter m = mn_quorum_waiter n" "rx_quorum_waiter m = rx_quorum_waiter n" "tx_digests m = tx_digests n"
    "rx_processor m = rx_processor n" "rx_received m = rx_received n" "rx_batch_maker m = rx_batch_maker n"
    "mn_stopped n \<subseteq> mn_stopped m" "mn_stopped m \<subseteq> mn_stopped n \<union> {Batch_helper, Batch_synchronizer}"
    "received_transactions (evs @ [ev]) = received_transactions evs" "received_frames ME (evs @ [ev]) = received_frames ME evs"
  shows "flows ME bench st (evs @ [ev]) m"
  by (rule flows_same [where n = n and fs = "[]" and ts = "[]"]) (use assms in auto)

text \<open>The helper and the synchronizer announce nothing.\<close>

lemma request_turn_fields:
  "mn_store (request_turn ME x n) = mn_store n" "tx_digests (request_turn ME x n) = tx_digests n"
  "mn_batch_maker (request_turn ME x n) = mn_batch_maker n" "mn_quorum_waiter (request_turn ME x n) = mn_quorum_waiter n"
  "rx_batch_maker (request_turn ME x n) = rx_batch_maker n" "rx_quorum_waiter (request_turn ME x n) = rx_quorum_waiter n"
  "rx_processor (request_turn ME x n) = rx_processor n" "rx_received (request_turn ME x n) = rx_received n"
  "mn_stopped (request_turn ME x n) = mn_stopped n"
proof -
  have "announced (map (Mp_send a) ds) = []" for a ds by (induction ds) (simp_all add: announced_def)
  then have a: "announced (answer_to ME st x) = []" for st by (simp add: answer_to_def split: option.split)
  have h: "mempool_helper_handle ME x s = (Ok (), s\<lparr>mp_out := mp_out s @ answer_to ME (mp_store s) x\<rparr>)" for s :: "'a mempool_world"
    by (cases x) (simp add: mempool_helper_handle_def answer_to_def send_batches_run ret_def split: option.split)
  show "mn_store (request_turn ME x n) = mn_store n" "tx_digests (request_turn ME x n) = tx_digests n"
    "mn_batch_maker (request_turn ME x n) = mn_batch_maker n" "mn_quorum_waiter (request_turn ME x n) = mn_quorum_waiter n"
    "rx_batch_maker (request_turn ME x n) = rx_batch_maker n" "rx_quorum_waiter (request_turn ME x n) = rx_quorum_waiter n"
    "rx_processor (request_turn ME x n) = rx_processor n" "rx_received (request_turn ME x n) = rx_received n"
    "mn_stopped (request_turn ME x n) = mn_stopped n"
    by (simp_all add: request_turn_def h mempool_effects_channel a)
qed

lemma register_digests_out: "register_digests now ds missing s = (r, t) \<Longrightarrow> mp_out t = mp_out s"
  by (induction ds arbitrary: missing s) (auto simp: proc_simps split: if_splits)

lemma announced_sends [simp]: "announced (map (\<lambda>a. Mp_send a m) as) = []"
  by (induction as) (simp_all add: announced_def)

lemma mempool_sync_quiet:
  assumes "mempool_sync_handle ME ev s = (r, t)" and "\<And>k v. ev \<noteq> Ms_write k v"
  shows "\<exists>es. mp_out t = mp_out s @ es \<and> announced es = []"
proof (cases ev)
  case (Ms_message now m)
  show ?thesis
  proof (cases m)
    case (Synchronize_batches ds target)
    obtain m' s' where reg: "register_digests now ds [] s = (Ok m', s') \<or> (\<exists>r. register_digests now ds [] s = (r, s') \<and> (\<forall>x. r \<noteq> Ok x))"
      by (cases "register_digests now ds [] s"; cases "fst (register_digests now ds [] s)") auto
    then have "mp_out s' = mp_out s" using register_digests_out by blast
    with reg assms(1) show ?thesis
      by (auto simp: Ms_message Synchronize_batches mempool_sync_handle_def mempool_synchronize_def bnd_def ret_def
          panic_def mp_emit_def modify_def announced_def split: option.splits outcome.splits)
  next
    case (Cleanup_batches k)
    then show ?thesis
      using assms(1) by (auto simp: Ms_message mempool_sync_handle_def mempool_sync_cleanup_def proc_simps Let_def split: if_splits)
  qed
next
  case (Ms_ready pick i)
  then show ?thesis
    using assms(1) by (auto simp: mempool_sync_handle_def mempool_sync_ready_def proc_simps
        split: if_splits option.splits sum.splits)
next
  case (Ms_timer shuffle now)
  then show ?thesis
    using assms(1) by (auto simp: mempool_sync_handle_def mempool_sync_timer_def proc_simps Let_def mp_emit_def
        split: if_splits option.splits)
qed (use assms(2) in simp)

lemma fetch_turn_fields:
  assumes "\<And>k v. ev \<noteq> Ms_write k v"
  shows "mn_store (fetch_turn ME ev n) = mn_store n" "tx_digests (fetch_turn ME ev n) = tx_digests n"
    "mn_batch_maker (fetch_turn ME ev n) = mn_batch_maker n" "mn_quorum_waiter (fetch_turn ME ev n) = mn_quorum_waiter n"
    "rx_batch_maker (fetch_turn ME ev n) = rx_batch_maker n" "rx_quorum_waiter (fetch_turn ME ev n) = rx_quorum_waiter n"
    "rx_processor (fetch_turn ME ev n) = rx_processor n" "rx_received (fetch_turn ME ev n) = rx_received n"
    "mn_stopped n \<subseteq> mn_stopped (fetch_turn ME ev n)"
    "mn_stopped (fetch_turn ME ev n) \<subseteq> mn_stopped n \<union> {Batch_helper, Batch_synchronizer}"
proof -
  obtain r t where h: "mempool_sync_handle ME ev ((mn_synchronizer n)\<lparr>mp_store := mn_store n\<rparr>) = (r, t)"
    by (cases "mempool_sync_handle ME ev ((mn_synchronizer n)\<lparr>mp_store := mn_store n\<rparr>)")
  obtain es where es: "mp_out t = mp_out (mn_synchronizer n) @ es" "announced es = []"
    using mempool_sync_quiet [OF h assms] by auto
  have t: "fetch_turn ME ev n = fold mempool_effect_to es (stop_mempool_task Batch_synchronizer r (n\<lparr>mn_synchronizer := t\<rparr>))"
    using h es(1) by (simp add: fetch_turn_def)
  show "mn_store (fetch_turn ME ev n) = mn_store n" "tx_digests (fetch_turn ME ev n) = tx_digests n"
    "mn_batch_maker (fetch_turn ME ev n) = mn_batch_maker n" "mn_quorum_waiter (fetch_turn ME ev n) = mn_quorum_waiter n"
    "rx_batch_maker (fetch_turn ME ev n) = rx_batch_maker n" "rx_quorum_waiter (fetch_turn ME ev n) = rx_quorum_waiter n"
    "rx_processor (fetch_turn ME ev n) = rx_processor n" "rx_received (fetch_turn ME ev n) = rx_received n"
    "mn_stopped n \<subseteq> mn_stopped (fetch_turn ME ev n)"
    "mn_stopped (fetch_turn ME ev n) \<subseteq> mn_stopped n \<union> {Batch_helper, Batch_synchronizer}"
    unfolding t by (auto simp: mempool_effects_channel es(2) split: outcome.splits)
qed

lemma tx_dispatch_run: "snd (tx_dispatch (mn_closed n) tx []) = (if Batch_maker_task \<in> mn_stopped n then [] else [To_batch_maker tx])"
  by (simp add: tx_dispatch_def mn_closed_def modify_def panic_def)

lemma mempool_dispatch_open:
  assumes "Other_processor \<notin> mn_stopped n"
  shows "received_batches (snd (mempool_dispatch ME (mn_closed n) f [])) = received_batches (snd (mempool_dispatch ME {} f []))"
  using assms
  by (simp add: mempool_dispatch_def mn_closed_def channel_send_def proc_simps received_batches_def
      split: outcome.split mempool_message.split)

text \<open>The turns that move a batch from one task to the next.\<close>

lemma collect_flows:
  assumes F: "flows ME bench st evs n" and live: "mempool_turn_task (Mn_collect) \<notin> Some ` mn_stopped n"
  shows "flows ME bench st (evs @ [Mn_collect]) (mempool_turn ME bench (Mn_collect) n)"
proof (cases "rx_batch_maker n")
  case Nil
  then show ?thesis using live by (intro flows_idle [OF F]) (auto simp: mempool_turn_def)
next
  case (Cons tx txs)
  have "flows ME bench st (evs @ [Mn_collect]) (batch_maker_turn ME bench (Transaction tx) (n\<lparr>rx_batch_maker := txs\<rparr>))"
    using live by (intro batch_maker_turn_flows [OF F _ refl])
      (auto simp: Cons mempool_turn_task_def transactions_def)
  then show ?thesis using live by (simp add: mempool_turn_def Cons)
qed

lemma quorum_flows:
  assumes F: "flows ME bench st evs n" and live: "mempool_turn_task (Mn_quorum answers) \<notin> Some ` mn_stopped n" and ok: "answers_ok ME (Mn_quorum answers)"
  shows "flows ME bench st (evs @ [Mn_quorum answers]) (mempool_turn ME bench (Mn_quorum answers) n)"
proof (cases "rx_quorum_waiter n")
  case Nil
  then show ?thesis using live by (intro flows_idle [OF F]) (auto simp: mempool_turn_def)
next
  case (Cons x ms)
  obtain m handlers where x: "x = (m, handlers)" by (cases x)
  have "handlers = map fst (mempool_broadcast_addresses (mp_committee ME) (mp_name ME))"
    using F Cons by (auto simp: flows_def awaits_quorums_def x)
  then have "flows ME bench st (evs @ [Mn_quorum answers]) (quorum_turn ME (Quorum_message m handlers answers) (n\<lparr>rx_quorum_waiter := ms\<rparr>))"
    using live ok by (intro quorum_turn_flows [OF F])
      (auto simp: Cons x mempool_turn_task_def batch_of_def quorum_event_ok_def)
  then show ?thesis using live by (simp add: mempool_turn_def Cons x)
qed

lemma process_flows:
  assumes F: "flows ME bench st evs n" and live: "mempool_turn_task (Mn_process) \<notin> Some ` mn_stopped n"
  shows "flows ME bench st (evs @ [Mn_process]) (mempool_turn ME bench (Mn_process) n)"
proof (cases "rx_processor n")
  case Nil
  then show ?thesis using live by (intro flows_idle [OF F]) (auto simp: mempool_turn_def)
next
  case (Cons b bs)
  have "flows ME bench st (evs @ [Mn_process]) (processor_turn ME Own_processor b (n\<lparr>rx_processor := bs\<rparr>))"
    by (rule processor_turn_flows [OF F, where bs = bs]) (simp_all add: Cons)
  then show ?thesis using live by (simp add: mempool_turn_def Cons)
qed

lemma process_received_flows:
  assumes F: "flows ME bench st evs n" and live: "mempool_turn_task (Mn_process_received) \<notin> Some ` mn_stopped n"
  shows "flows ME bench st (evs @ [Mn_process_received]) (mempool_turn ME bench (Mn_process_received) n)"
proof (cases "rx_received n")
  case Nil
  then show ?thesis using live by (intro flows_idle [OF F]) (auto simp: mempool_turn_def)
next
  case (Cons b bs)
  have "flows ME bench st (evs @ [Mn_process_received]) (processor_turn ME Other_processor b (n\<lparr>rx_received := bs\<rparr>))"
    by (rule processor_turn_flows [OF F, where bs = bs]) (simp_all add: Cons)
  then show ?thesis using live by (simp add: mempool_turn_def Cons)
qed

lemma turn_flows:
  assumes F: "flows ME bench st evs n" and ok: "answers_ok ME ev"
  shows "flows ME bench st (evs @ [ev]) (mempool_turn ME bench ev n)"
proof (cases "mempool_turn_task ev \<in> Some ` mn_stopped n")
  case True
  then have "\<not> (\<exists>x. ev = Mn_transaction x \<or> ev = Mn_frame x)" by (auto simp: mempool_turn_task_def)
  then show ?thesis
    using True by (intro flows_idle [OF F]) (auto simp: mempool_turn_def split: mempool_event.split)
next
  case live: False
  show ?thesis
  proof (cases ev)
    case (Mn_transaction tx)
    then show ?thesis
      using live by (intro flows_same [OF F, where fs = "[]" and ts = "[tx]"])
        (simp_all add: mempool_turn_def tx_dispatch_run)
  next
    case (Mn_frame f)
    then show ?thesis
      using live mempool_dispatch_no_transaction [of ME _ f] mempool_dispatch_open [of n ME f] F
      by (intro flows_same [OF F, where fs = "received_batches (snd (mempool_dispatch ME {} f []))" and ts = "[]"])
        (auto simp: mempool_turn_def mempool_dispatched_channels flows_def processes_def)
  next
    case (Mn_command m)
    then show ?thesis using live by (intro flows_idle [OF F]) (auto simp: mempool_turn_def)
  next
    case (Mn_write k v)
    then show ?thesis using live write_flows [OF F] by (simp add: mempool_turn_def)
  next
    case Mn_collect
    then show ?thesis using live collect_flows [OF F] by simp
  next
    case Mn_batch_timer
    have "flows ME bench st (evs @ [ev]) (batch_maker_turn ME bench Batch_timer (n\<lparr>rx_batch_maker := rx_batch_maker n\<rparr>))"
      using live by (intro batch_maker_turn_flows [OF F _ refl])
        (auto simp: Mn_batch_timer mempool_turn_task_def transactions_def)
    then show ?thesis using live by (simp add: mempool_turn_def Mn_batch_timer)
  next
    case (Mn_quorum answers)
    then show ?thesis using live ok quorum_flows [OF F, of answers] by simp
  next
    case (Mn_disseminated i)
    have "flows ME bench st (evs @ [ev]) (quorum_turn ME (Disseminated i) (n\<lparr>rx_quorum_waiter := rx_quorum_waiter n\<rparr>))"
      using live by (intro quorum_turn_flows [OF F])
        (auto simp: Mn_disseminated mempool_turn_task_def batch_of_def quorum_event_ok_def)
    then show ?thesis using live by (simp add: mempool_turn_def Mn_disseminated)
  next
    case Mn_process
    then show ?thesis using live process_flows [OF F] by simp
  next
    case Mn_process_received
    then show ?thesis using live process_received_flows [OF F] by simp
  next
    case Mn_answer
    then show ?thesis
      using live by (intro flows_idle [OF F]) (auto simp: mempool_turn_def request_turn_fields split: list.split)
  next
    case (Mn_fetch now)
    then show ?thesis
      using live fetch_turn_fields(9,10) [where ev = "Ms_message now m" and n = "n\<lparr>rx_commands := ms\<rparr>" and ME = ME for m ms]
      by (intro flows_idle [OF F]) (auto simp: mempool_turn_def fetch_turn_fields split: list.split)
  next
    case (Mn_fetch_ready pick i)
    then show ?thesis
      using live fetch_turn_fields(9,10) [where ev = "Ms_ready pick i" and n = n and ME = ME]
      by (intro flows_idle [OF F]) (auto simp: mempool_turn_def fetch_turn_fields)
  next
    case (Mn_fetch_timer shuffle now)
    then show ?thesis
      using live fetch_turn_fields(9,10) [where ev = "Ms_timer shuffle now" and n = n and ME = ME]
      by (intro flows_idle [OF F]) (auto simp: mempool_turn_def fetch_turn_fields)
  qed
qed

lemma spawn_flows:
  assumes "mempool_spawn ME st = Ok n"
  shows "flows ME bench st [] n"
proof -
  have "processor_run ME [] \<lparr>mp_store = st, mp_out = []\<rparr> = (Ok (), \<lparr>mp_store = st, mp_out = []\<rparr>)"
    by (simp add: processor_run_def ret_def)
  then have "processes ME st [] n"
    using assms unfolding processes_def
    by (intro exI [of _ "[]"] exI [of _ "\<lparr>mp_store = st, mp_out = []\<rparr>"])
      (auto simp: mempool_spawn_def quorum_waiter_new_def split: outcome.splits)
  moreover have "collects ME bench [] n"
    using assms unfolding collects_def
    by (intro exI [of _ "[]"]) (auto simp: mempool_spawn_def batch_run_def ret_def transactions_def split: outcome.splits)
  moreover have "awaits_quorums ME n"
    using assms unfolding awaits_quorums_def
    by (intro exI [of _ "[]"])
      (auto simp: mempool_spawn_def mempool_quorum_run_def quorum_run_def ret_def sealed_def batch_maker_new_def split: outcome.splits)
  ultimately show ?thesis by (simp add: flows_def)
qed

lemma run_flows:
  assumes "mempool_spawn ME st = Ok n0"
  shows "\<forall>ev\<in>set evs. answers_ok ME ev \<Longrightarrow> flows ME bench st evs (mempool_node_run ME bench evs n0)"
proof (induction evs rule: rev_induct)
  case Nil
  then show ?case using spawn_flows [OF assms] by (simp add: mempool_node_run_def)
next
  case (snoc ev evs)
  then show ?case using turn_flows [of ME bench st evs _ ev] by (simp add: mempool_node_run_def)
qed

text \<open>What the quorum waiter has taken is delivered, but for the batch it is stuck on.\<close>

lemma awaits_quorums_split:
  assumes live: "mempool_committee_live ME" and A: "awaits_quorums ME n"
  shows "\<exists>stuck. sealed (bm_out (mn_batch_maker n)) = delivered (mn_quorum_waiter n) @ stuck @ map fst (rx_quorum_waiter n)
    \<and> length stuck \<le> 1 \<and> (stuck = [] \<longleftrightarrow> Quorum_waiter_task \<notin> mn_stopped n)"
proof -
  let ?c = "mp_committee ME" and ?me = "mp_name ME"
  obtain qevs r where q: "mempool_quorum_run ME qevs = (r, mn_quorum_waiter n)"
    "r = Ok () \<longleftrightarrow> Quorum_waiter_task \<notin> mn_stopped n"
    "r \<noteq> Ok () \<longrightarrow> (\<exists>q ev. qevs = q @ [ev] \<and> fst (mempool_quorum_run ME q) = Ok ())"
    "concat (map batch_of qevs) @ map fst (rx_quorum_waiter n) = sealed (bm_out (mn_batch_maker n))"
    "\<forall>ev\<in>set qevs. quorum_event_ok ?c ?me ev"
    using A unfolding awaits_quorums_def by blast
  have loop: "mempool_quorum_run ME xs = (if \<forall>ev\<in>set xs. acked ?c ?me ev then Ok () else Diverge,
       quorum_waiter_new\<lparr>delivered := concat (map batch_of (takeWhile (acked ?c ?me) xs))\<rparr>)"
    if "\<forall>ev\<in>set xs. quorum_event_ok ?c ?me ev" for xs
    using quorum_loop [OF _ _ _ _ that, of quorum_waiter_new] live
    by (simp add: mempool_committee_live_def mempool_quorum_run_def quorum_run_def quorum_waiter_new_def)
  show ?thesis
  proof (cases "\<forall>ev\<in>set qevs. acked ?c ?me ev")
    case True
    then have "r = Ok ()" "delivered (mn_quorum_waiter n) = concat (map batch_of qevs)"
      using loop [OF q(5)] q(1) by (auto simp: takeWhile_all)
    then show ?thesis using q(2,4) by (intro exI [of _ "[]"]) simp
  next
    case False
    then have r: "r = Diverge" and d: "delivered (mn_quorum_waiter n) = concat (map batch_of (takeWhile (acked ?c ?me) qevs))"
      using loop [OF q(5)] q(1) by auto
    then obtain xs ev where xs: "qevs = xs @ [ev]" "fst (mempool_quorum_run ME xs) = Ok ()" using q(3) by auto
    then have all: "\<forall>ev\<in>set xs. acked ?c ?me ev" using loop [of xs] q(5) by (auto split: if_splits)
    then have "\<not> acked ?c ?me ev" using False xs(1) by auto
    then have "delivered (mn_quorum_waiter n) = concat (map batch_of xs)" "length (batch_of ev) = 1"
      using d all xs(1) by (auto simp: takeWhile_all takeWhile_append acked_def batch_of_def split: quorum_event.splits)
    then show ?thesis
      using q(2,4) r xs(1) by (intro exI [of _ "batch_of ev"]) auto
  qed
qed

section \<open>Properties\<close>

text \<open>
  C18. Every transaction gets through the mempool, whatever the interleaving. Start a mempool and let frames arrive and
  the tasks take turns in any order, with fewer than 2^64 bytes of transactions (and, with the feature \<open>benchmark\<close>, no
  empty one), peers that answer each batch at most once, and writes of the consensus that put nothing else under the digests of
  batches. Then at any time: the transactions received are, in order, those of the batches sealed so far, those of the
  current batch and those in the channel of the batch maker; the sealed batches are, in order, those whose digests have been announced to
  the consensus, those in the channel of the processor, at most one for which the quorum waiter is stuck,
  and those in its channel; the batches received from other nodes are those announced and those in the channel of their processor; the
  digests announced are an interleaving of the two, and the store holds bytes with each of them.
\<close>

theorem mempool_node_delivers:
  assumes live: "mempool_committee_live ME" and bincode: "mempool_bincode_ok ME" and R: "rocksdb_ok (mp_rocksdb ME)"
    and start: "mempool_spawn ME st = Ok n0" and n: "n = mempool_node_run ME bench evs n0"
    and size: "size_of (received_transactions evs) < 2 ^ 64" and full: "bench \<longrightarrow> [] \<notin> set (received_transactions evs)"
    and answers: "\<forall>ev\<in>set evs. answers_ok ME ev"
    and writes: "\<forall>k v b. Mn_write k v \<in> set evs \<longrightarrow>
      b \<in> set (delivered (mn_quorum_waiter n)) \<union> set (received_frames ME evs) \<longrightarrow>
      digest_bytes (hash32 (mp_dalek ME) b) = k \<longrightarrow> hash32 (mp_dalek ME) v = Digest k"
  shows "\<exists>bs own stuck others.
      concat bs @ current_batch (mn_batch_maker n) @ rx_batch_maker n = received_transactions evs
    \<and> map (frame_of ME) bs = own @ rx_processor n @ stuck @ map fst (rx_quorum_waiter n)
    \<and> length stuck \<le> 1 \<and> (stuck = [] \<longleftrightarrow> Quorum_waiter_task \<notin> mn_stopped n)
    \<and> others @ rx_received n = received_frames ME evs
    \<and> tx_digests n \<in> shuffles (map (hash32 (mp_dalek ME)) own) (map (hash32 (mp_dalek ME)) others)
    \<and> (\<forall>d\<in>set (tx_digests n). \<exists>v. stored ME (mn_store n) d = Some v \<and> hash32 (mp_dalek ME) v = d)"
proof -
  let ?C = "mempool_batch_config ME bench"
  have F: "flows ME bench st evs n" using run_flows [OF start answers] by (simp add: n)
  obtain bevs r1 lost where b: "batch_run ?C bevs = (r1, mn_batch_maker n)"
    "transactions bevs @ rx_batch_maker n @ lost = received_transactions evs"
    "r1 = Ok () \<longrightarrow> lost = []"
    using F unfolding flows_def collects_def by blast
  have "size_of (transactions bevs) \<le> size_of (received_transactions evs)" "set (transactions bevs) \<subseteq> set (received_transactions evs)"
    by (simp_all flip: b(2))
  then have env: "batch_env_ok ?C bevs"
    using size full bincode by (auto simp: batch_env_ok_def mempool_batch_config_def mempool_bincode_ok_def)
  obtain bs where bs: "concat bs @ current_batch (mn_batch_maker n) = transactions bevs"
    "filter no_reset (bm_out (mn_batch_maker n)) = concat (map (seal_effects ?C) bs)" "r1 = Ok ()"
    using batch_maker_loop [OF env] b(1) by auto
  have frames: "sealed (bm_out (mn_batch_maker n)) = map (frame_of ME) bs"
    by (metis bs(2) sealed_filter sealed_effects [OF bincode])
  obtain stuck where st: "map (frame_of ME) bs = delivered (mn_quorum_waiter n) @ stuck @ map fst (rx_quorum_waiter n)"
    "length stuck \<le> 1" "stuck = [] \<longleftrightarrow> Quorum_waiter_task \<notin> mn_stopped n"
    using awaits_quorums_split [OF live, of n] F frames by (auto simp: flows_def)
  obtain pevs own others w where p: "processor_run ME pevs \<lparr>mp_store = st, mp_out = []\<rparr> = (Ok (), w)"
    "mp_store w = mn_store n" "announced (mp_out w) = tx_digests n" "batches pevs \<in> shuffles own others"
    "own @ rx_processor n = delivered (mn_quorum_waiter n)" "others @ rx_received n = received_frames ME evs"
    "\<forall>k v. Processor_write k v \<in> set pevs \<longrightarrow> Mn_write k v \<in> set evs" "Other_processor \<notin> mn_stopped n"
    using F unfolding flows_def processes_def by blast
  have "set (batches pevs) \<subseteq> set (delivered (mn_quorum_waiter n)) \<union> set (received_frames ME evs)"
    using set_shuffles [OF p(4)] p(5,6) by (metis Un_mono set_append Un_upper1)
  then have "writes_ok ME (batches pevs) pevs"
    using writes p(7) unfolding writes_ok_def by blast
  from processor_loop [OF R this, of "\<lparr>mp_store = st, mp_out = []\<rparr>"] p(1)
  have a: "announced (mp_out w) = map (hash32 (mp_dalek ME)) (batches pevs)"
    "\<forall>d\<in>set (announced (mp_out w)). \<exists>v. stored ME (mp_store w) d = Some v \<and> hash32 (mp_dalek ME) v = d"
    by (auto simp: processor_run_def)
  have "tx_digests n \<in> shuffles (map (hash32 (mp_dalek ME)) own) (map (hash32 (mp_dalek ME)) others)"
    using shuffles_map [OF p(4)] a(1) p(3) by simp
  moreover have "concat bs @ current_batch (mn_batch_maker n) @ rx_batch_maker n = received_transactions evs"
    using bs(1,3) b(2,3) by (metis append.assoc append_Nil2)
  moreover have "map (frame_of ME) bs = own @ rx_processor n @ stuck @ map fst (rx_quorum_waiter n)"
    using st(1) p(5) by (metis append.assoc)
  ultimately show ?thesis using st(2,3) p(2,3,6) a(2) by (intro exI conjI) simp_all
qed

end
