(* ===== verification/Mempool_Scenarios.thy ===== *)
theory Mempool_Scenarios
  imports Task_Scenarios Mempool_Node
begin

text \<open>
  A run of the whole mempool in the system of \<open>Task_Scenarios\<close>: three transactions of clients and a batch of another
  node, their tasks interleaved.
\<close>

definition mempool_events :: "mempool_event list" where
  "mempool_events = [Mn_transaction [1], Mn_collect, Mn_transaction [2], Mn_frame [0, 1, 3, 0], Mn_collect,
     Mn_process_received, Mn_quorum [test_key 3, test_key 2], Mn_write [99] [1], Mn_process, Mn_transaction [3]]"

definition mempool_start :: "(bytes \<rightharpoonup> bytes) mempool_node" where
  "mempool_start = (case mempool_spawn (scenario_mempool 1) (store_new Map.empty) of Ok n \<Rightarrow> n)"

definition mempool_end :: "(bytes \<rightharpoonup> bytes) mempool_node" where
  "mempool_end = mempool_node_run (scenario_mempool 1) True mempool_events mempool_start"

lemma mempool_starts: "mempool_spawn (scenario_mempool 1) (store_new Map.empty) = Ok mempool_start"
proof -
  have "mempool_listen (scenario_mempool 1) = Ok (([0, 0, 0, 0], 101), ([0, 0, 0, 0], 201))"
    by (simp add: mempool_listen_def transactions_address_def mempool_address_def test_mempool_authorities)
  then show ?thesis by (simp add: mempool_start_def mempool_spawn_def)
qed

lemmas mempool_eval = mempool_turn_def mn_closed_none mempool_turn_task_def tx_dispatch_def mempool_dispatch_def batch_maker_turn_def
  quorum_turn_def processor_turn_def processor_handle_run batch_handle_def seal_def bm_emit_def reset_timer_def
  mempool_batch_config_def quorum_handle_def quorum_message_def test_mempool_stake test_mempool_threshold
  test_mempool_broadcast dissemination_queue_max_def scenario_ser_mempool_def scenario_de_mempool_def run_defs
  stop_mempool_task_def word_le_nat_alt

lemma mempool_start_eq: "mempool_start = \<lparr>mn_store = store_new Map.empty, mn_batch_maker = batch_maker_new,
    mn_quorum_waiter = quorum_waiter_new, mn_synchronizer = mempool_sync_new (store_new Map.empty), mn_stopped = {},
    rx_batch_maker = [], rx_quorum_waiter = [], rx_processor = [], rx_received = [], rx_requests = [], rx_commands = [],
    tx_digests = [], mn_sent = [], mn_listen = (([0, 0, 0, 0], 101), ([0, 0, 0, 0], 201))\<rparr>"
  by (simp add: mempool_start_def mempool_spawn_def mempool_listen_def transactions_address_def mempool_address_def
      test_mempool_authorities)

lemma notify_effects [simp]: "fold mempool_effect_to (map Mp_notify rs) n = n"
  by (induction rs) simp_all

lemma mempool_end_channels:
  "rx_batch_maker mempool_end = [[3]] \<and> rx_quorum_waiter mempool_end = [] \<and> rx_processor mempool_end = []
    \<and> rx_received mempool_end = [] \<and> mn_stopped mempool_end = {}
    \<and> delivered (mn_quorum_waiter mempool_end) = [[0, 1, 1, 0, 1, 2, 0]]"
  by (simp add: mempool_end_def mempool_start_eq mempool_events_def mempool_node_run_def mempool_eval
      batch_maker_new_def quorum_waiter_new_def)

lemma mempool_arrived:
  "received_transactions mempool_events = [[1], [2], [3]]"
  "received_frames (scenario_mempool 1) mempool_events = [[0, 1, 3, 0]]"
  by (simp_all add: received_transactions_def received_frames_def mempool_events_def mempool_dispatch_def
      scenario_de_mempool_def run_defs received_batches_def)

text \<open>The client's two batched transactions and the batch of the other node have been announced.\<close>

theorem mempool_node_delivers_witness:
  "\<exists>bs. concat bs @ current_batch (mn_batch_maker mempool_end) @ [[3]] = [[1], [2], [3]]
    \<and> tx_digests mempool_end \<in> shuffles (map (hash32 lax_dalek) (map (frame_of (scenario_mempool 1)) bs))
        (map (hash32 lax_dalek) [[0, 1, 3, 0]])"
proof -
  have ok: "\<forall>ev\<in>set mempool_events. answers_ok (scenario_mempool 1) ev"
    by (simp add: mempool_events_def test_mempool_broadcast)
  have "\<forall>k v b. Mn_write k v \<in> set mempool_events \<longrightarrow>
      b \<in> set (delivered (mn_quorum_waiter mempool_end)) \<union> set (received_frames (scenario_mempool 1) mempool_events) \<longrightarrow>
      digest_bytes (hash32 (mp_dalek (scenario_mempool 1)) b) = k \<longrightarrow> hash32 (mp_dalek (scenario_mempool 1)) v = Digest k"
    by (auto simp: mempool_arrived mempool_end_channels) (auto simp: mempool_events_def hash32_def lax_dalek_def)
  from mempool_node_delivers [OF scenario_committee_live scenario_bincode_ok _ mempool_starts mempool_end_def _ _ ok this]
  show ?thesis by (auto simp: map_rocksdb_ok mempool_arrived mempool_end_channels)
qed

end
