(* ===== verification/Node_Availability.thy ===== *)
theory Node_Availability
  imports Consensus_Wiring Availability
begin

text \<open>
  Availability in the node of \<open>Consensus_Node\<close>: in every interleaving, each block that the core has voted for, has
  committed or will take from its loopback channel has all of its payload in the store that the tasks share. What is assumed of the
  mempool, that a digest is in the store when it comes and that no block is written, is what \<open>Full_Node\<close> proves of the mempool of the same node.
\<close>

section \<open>The invariant\<close>

text \<open>All of the payload of a block but for some digests.\<close>

definition covered :: "digest set \<Rightarrow> digest list \<Rightarrow> block \<Rightarrow> bool" where
  "covered A ds b \<longleftrightarrow> set (block_payload b) \<subseteq> A \<union> set ds"

lemma covered_mono: "covered A ds b \<Longrightarrow> A \<subseteq> B \<Longrightarrow> covered B ds b"
  by (auto simp: covered_def)

definition stocked_at :: "('k, 'db) env \<Rightarrow> digest set \<Rightarrow> 'db consensus_node \<Rightarrow> bool" where
  "stocked_at E A n \<longleftrightarrow> (\<forall>d\<in>A. in_store E (cn_store n) d)
     \<and> (\<forall>e\<in>set (out (cn_core n)). backed A e) \<and> blocks_backed E A (my_store (cn_core n))
     \<and> (\<forall>b\<in>set (rx_loopback n) \<union> set (rx_inner n) \<union> set (sync_waiting (cn_synchronizer n)). covered A [] b)
     \<and> (\<forall>ds b. Wait ds b \<in> set (rx_payload_waiter n) \<longrightarrow> covered A ds b)
     \<and> (\<forall>w\<in>set (payload_waiting (cn_waiter n)). covered A (waiter_missing w) (waiter_block w))
     \<and> set (rx_mempool n) \<union> set (prop_buffer (cn_proposer n)) \<subseteq> A"

definition store_shared :: "'db consensus_node \<Rightarrow> bool" where
  "store_shared n \<longleftrightarrow> (Core_task \<notin> cn_stopped n \<longrightarrow> my_store (cn_core n) = cn_store n)"

definition present :: "('k, 'db) env \<Rightarrow> 'db consensus_node \<Rightarrow> digest set" where
  "present E n = {d. in_store E (cn_store n) d}"

definition stocked :: "('k, 'db) env \<Rightarrow> 'db consensus_node \<Rightarrow> bool" where
  "stocked E n \<longleftrightarrow> stocked_at E (present E n) n \<and> store_shared n"

lemma stocked_at_mono:
  assumes "stocked_at E A n" and "A \<subseteq> B" and "\<forall>d\<in>B. in_store E (cn_store n) d"
  shows "stocked_at E B n"
proof -
  have "\<forall>e\<in>set (out (cn_core n)). backed B e" using assms(1,2) by (auto simp: stocked_at_def intro: backed_mono)
  moreover have "blocks_backed E B (my_store (cn_core n))"
    using assms(1,2) unfolding stocked_at_def blocks_backed_def by blast
  moreover have "covered B ds b" if "covered A ds b" for ds b using covered_mono [OF that assms(2)] .
  ultimately show ?thesis using assms unfolding stocked_at_def by blast
qed

lemma stocked_now:
  assumes "stocked_at E A n" and "store_shared n"
  shows "stocked E n"
proof -
  have "A \<subseteq> present E n" using assms(1) by (auto simp: stocked_at_def present_def)
  then have "stocked_at E (present E n) n" by (rule stocked_at_mono [OF assms(1)]) (simp add: present_def)
  with assms(2) show ?thesis by (simp add: stocked_def)
qed

section \<open>The turns keep it\<close>

lemma core_step_stocked:
  assumes R: "rocksdb_ok (rocksdb E)" and B: "bincode_ok E" and S: "stocked_at E (present E n) n"
    and shared: "my_store (cn_core n) = cn_store n" and ev: "event_backed E (present E n) ev"
    and s: "step E now ev (cn_core n) = (r, c)"
  shows "available_at E (present E n) c"
proof -
  have "available_now E (present E n) (cn_core n)"
    using S by (simp add: available_now_def available_at_def stocked_at_def shared present_def)
  from step_available [OF R B this ev s] show ?thesis .
qed

lemma core_turn_stocked:
  assumes R: "rocksdb_ok (rocksdb E)" and B: "bincode_ok E" and S: "stocked_at E (present E n) n"
    and shared: "my_store (cn_core n) = cn_store n" and ev: "event_backed E (present E n) ev"
  shows "stocked E (core_turn E now ev n)"
proof -
  let ?A = "present E n"
  obtain r c where s: "step E now ev (cn_core n) = (r, c)" by (cases "step E now ev (cn_core n)")
  obtain es where es: "out c = out (cn_core n) @ es" using step_grows [OF s] by (auto simp: log_grows_def)
  have t: "core_turn E now ev n = fold core_effect es (stop_task Core_task r (n\<lparr>cn_core := c, cn_store := my_store c\<rparr>))"
    using s es by (simp add: core_turn_def)
  note c = core_step_stocked [OF R B S shared ev s, unfolded available_at_def]
  have backed: "backed ?A e" if "e \<in> set es" for e using c es that by simp
  have inner: "covered ?A [] b" if "To_synchronizer b \<in> set es" for b using backed [OF that] by (simp add: covered_def)
  have wait: "covered ?A ds b" if "To_payload_waiter (Wait ds b) \<in> set es" for ds b
    using backed [OF that] by (simp add: covered_def)
  have "stocked_at E ?A (core_turn E now ev n)"
    unfolding stocked_at_def t using S c inner wait unfolding stocked_at_def
    by (elim conjE, intro conjI) (simp_all add: core_effects_channels ball_Un)
  moreover have "store_shared (core_turn E now ev n)" by (simp add: store_shared_def t)
  ultimately show ?thesis by (rule stocked_now)
qed

lemma shared_write_stocked:
  assumes R: "rocksdb_ok (rocksdb E)" and B: "bincode_ok E" and S: "stocked E n" and v: "\<forall>b. de_block E v \<noteq> Ok b"
  shows "stocked E (shared_write E k v n)"
proof -
  let ?A = "present E n" and ?m = "shared_write E k v n"
  have at: "stocked_at E ?A n" using S by (simp add: stocked_def)
  obtain r c where s: "step E 0 (Other_write k v) (cn_core n) = (r, c)" by (cases "step E 0 (Other_write k v) (cn_core n)")
  have c: "my_store c = store_write (rocksdb E) k v (my_store (cn_core n))"
    using s by (auto simp: step_def handle_def write_store_def modify_def)
  have "\<forall>d\<in>?A. in_store E (cn_store ?m) d" by (simp add: shared_write_def present_def in_store_write [OF R])
  moreover have "(\<forall>e\<in>set (out (cn_core ?m)). backed ?A e) \<and> blocks_backed E ?A (my_store (cn_core ?m))"
  proof (cases "Core_task \<in> cn_stopped n")
    case True
    then show ?thesis using at by (simp add: shared_write_def stocked_at_def)
  next
    case False
    then have "my_store (cn_core n) = cn_store n" using S by (simp add: stocked_def store_shared_def)
    from core_step_stocked [OF R B at this _ s] v show ?thesis
      using False s by (simp add: shared_write_def available_at_def)
  qed
  ultimately have "stocked_at E ?A ?m" using at unfolding stocked_at_def by (simp add: shared_write_def)
  moreover have "store_shared ?m" using S s c by (simp add: store_shared_def stocked_def shared_write_def)
  ultimately show ?thesis by (rule stocked_now)
qed

lemma synchronizer_turn_stocked:
  assumes R: "rocksdb_ok (rocksdb E)" and S: "stocked E n" and T: "sync_tidy E (cn_synchronizer n)"
    and ev: "\<And>b. ev = Sync_block b \<Longrightarrow> covered (present E n) [] b"
  shows "stocked E (synchronizer_turn E P now ev n)"
proof -
  let ?s = "(cn_synchronizer n)\<lparr>my_store := cn_store n\<rparr>"
  obtain r t where s: "sync_handle E (sync_retry_delay P) (now, ev) ?s = (r, t)"
    by (cases "sync_handle E (sync_retry_delay P) (now, ev) ?s")
  have T': "sync_tidy E ?s" using T by (simp add: sync_tidy_def)
  obtain es where g: "set (sync_waiting t) \<subseteq> set (sync_waiting (cn_synchronizer n)) \<union> {b. ev = Sync_block b}"
    and es: "out t = out (cn_synchronizer n) @ es" "\<forall>b. To_loopback b \<in> set es \<longrightarrow> b \<in> set (sync_waiting (cn_synchronizer n))"
    using sync_handle_gives [OF R T' s, unfolded sync_gives_def] by auto
  have t: "synchronizer_turn E P now ev n = fold task_effect es (stop_task Synchronizer_task r (n\<lparr>cn_synchronizer := t\<rparr>))"
    using s es by (simp add: synchronizer_turn_def)
  have at: "stocked_at E (present E n) n" using S by (simp add: stocked_def)
  then have w: "covered (present E n) [] b" if "b \<in> set (sync_waiting (cn_synchronizer n))" for b
    using that by (auto simp: stocked_at_def)
  have "\<forall>b\<in>set (sync_waiting t). covered (present E n) [] b" using g w ev by blast
  then have "stocked_at E (present E n) (synchronizer_turn E P now ev n)"
    using at es(2) w unfolding stocked_at_def t
    by (elim conjE, intro conjI) (simp_all add: task_effects_loopback ball_Un)
  moreover have "store_shared (synchronizer_turn E P now ev n)"
    using S by (auto simp: store_shared_def stocked_def t split: outcome.splits)
  ultimately show ?thesis by (rule stocked_now)
qed

text \<open>A waiter gives its block back when all it waits for is there.\<close>

lemma payload_handle_stocks:
  assumes R: "rocksdb_ok (rocksdb E)" and run: "payload_handle E ev s = (r, t)"
    and A: "\<And>d. in_store E (my_store s) d \<Longrightarrow> d \<in> A"
    and w: "\<forall>w\<in>set (payload_waiting s). covered A (waiter_missing w) (waiter_block w)"
    and ev: "\<And>ds b. ev = Payload_message (Wait ds b) \<Longrightarrow> covered A ds b"
  shows "(\<forall>w\<in>set (payload_waiting t). covered A (waiter_missing w) (waiter_block w))
    \<and> (\<exists>es. out t = out s @ es \<and> (\<forall>b. To_loopback b \<in> set es \<longrightarrow> covered A [] b))"
proof (cases ev)
  case (Payload_message m)
  show ?thesis
  proof (cases m)
    case (Wait ds b)
    then show ?thesis using run w ev
      by (auto simp: Payload_message payload_handle_def payload_wait_def proc_simps Let_def split: if_splits)
  next
    case (Waiter_cleanup k)
    then show ?thesis using run w by (auto simp: Payload_message payload_handle_def payload_cleanup_def modify_def)
  qed
next
  case (Payload_ready pick i)
  have run: "payload_ready E pick i s = (r, t)" using run by (simp add: Payload_ready payload_handle_def)
  from R run show ?thesis
  proof (cases rule: payload_ready_cases)
    case idle
    then show ?thesis using w by auto
  next
    case dropped
    then show ?thesis using w remove_at_subset [of i "payload_waiting s"] by auto
  next
    case given
    then have "covered A [] (waiter_block (payload_waiting s ! i))"
      using w nth_mem [OF given(1)] A unfolding covered_def by fastforce
    then show ?thesis using given w remove_at_subset [of i "payload_waiting s"] by auto
  qed
next
  case (Payload_write k v)
  then show ?thesis using run w by (auto simp: payload_handle_def write_store_def modify_def)
qed

lemma waiter_turn_stocked:
  assumes R: "rocksdb_ok (rocksdb E)" and S: "stocked E n"
    and ev: "\<And>ds b. ev = Payload_message (Wait ds b) \<Longrightarrow> covered (present E n) ds b"
  shows "stocked E (waiter_turn E ev n)"
proof -
  let ?s = "(cn_waiter n)\<lparr>my_store := cn_store n\<rparr>"
  obtain r t where s: "payload_handle E ev ?s = (r, t)" by (cases "payload_handle E ev ?s")
  have at: "stocked_at E (present E n) n" using S by (simp add: stocked_def)
  obtain es where g: "\<forall>w\<in>set (payload_waiting t). covered (present E n) (waiter_missing w) (waiter_block w)"
    and es: "out t = out (cn_waiter n) @ es" "\<forall>b. To_loopback b \<in> set es \<longrightarrow> covered (present E n) [] b"
    using payload_handle_stocks [OF R s, of "present E n"] at ev by (auto simp: stocked_at_def present_def)
  have t: "waiter_turn E ev n = fold task_effect es (stop_task Waiter_task r (n\<lparr>cn_waiter := t\<rparr>))"
    using s es by (simp add: waiter_turn_def)
  have "stocked_at E (present E n) (waiter_turn E ev n)"
    using at es(2) g unfolding stocked_at_def t
    by (elim conjE, intro conjI) (simp_all add: task_effects_loopback ball_Un)
  moreover have "store_shared (waiter_turn E ev n)"
    using S by (auto simp: store_shared_def stocked_def t split: outcome.splits)
  ultimately show ?thesis by (rule stocked_now)
qed

lemma proposer_turn_stocked:
  assumes S: "stocked E n" and ev: "\<And>d. ev = From_mempool d \<Longrightarrow> d \<in> present E n"
  shows "stocked E (proposer_turn E ev n)"
proof -
  obtain r t where s: "proposer_handle E ev (cn_proposer n) = (r, t)" by (cases "proposer_handle E ev (cn_proposer n)")
  obtain es where g: "set (prop_buffer t) \<subseteq> set (prop_buffer (cn_proposer n)) \<union> {d. ev = From_mempool d}"
    and out: "prop_out t = prop_out (cn_proposer n) @ es"
    and es: "\<And>b. Proposed b \<in> set es \<Longrightarrow> block_author b = my_name E
      \<and> set (block_payload b) \<subseteq> set (prop_buffer (cn_proposer n))
      \<and> (\<exists>as. ev = From_core (Make (block_round b) (block_qc b) (block_tc b)) as)"
    using proposer_handle_gives [OF s] by blast
  have t: "proposer_turn E ev n = fold proposed_effect es (stop_task Proposer_task r (n\<lparr>cn_proposer := t\<rparr>))"
    using s out by (simp add: proposer_turn_def)
  have at: "stocked_at E (present E n) n" using S by (simp add: stocked_def)
  then have buffer: "set (prop_buffer (cn_proposer n)) \<subseteq> present E n" by (simp add: stocked_at_def)
  have "covered (present E n) [] b" if "Proposed b \<in> set es" for b
    using es [OF that] buffer unfolding covered_def by auto
  moreover have "set (prop_buffer t) \<subseteq> present E n" using g buffer ev by blast
  ultimately have "stocked_at E (present E n) (proposer_turn E ev n)"
    using at unfolding stocked_at_def t
    by (elim conjE, intro conjI) (simp_all add: proposed_effects_loopback ball_Un)
  moreover have "store_shared (proposer_turn E ev n)"
    using S by (auto simp: store_shared_def stocked_def t split: outcome.splits)
  ultimately show ?thesis by (rule stocked_now)
qed

lemma helper_turn_stocked:
  assumes S: "stocked E n"
  shows "stocked E (helper_turn E x n)"
proof -
  obtain r t where s: "helper_handle E x \<lparr>my_store = cn_store n, out = []\<rparr> = (r, t)"
    by (cases "helper_handle E x \<lparr>my_store = cn_store n, out = []\<rparr>")
  have t: "helper_turn E x n = fold task_effect (out t) (stop_task Helper_task r n)"
    using s by (simp add: helper_turn_def)
  have "\<forall>b. To_loopback b \<notin> set (out t)" using helper_handle_gives [OF s] by auto
  then have "stocked_at E (present E n) (helper_turn E x n)"
    using S unfolding stocked_def stocked_at_def t
    by (elim conjE, intro conjI) (simp_all add: no_loopback_effects ball_Un)
  moreover have "store_shared (helper_turn E x n)"
    using S by (auto simp: store_shared_def stocked_def t split: outcome.splits)
  ultimately show ?thesis by (rule stocked_now)
qed

text \<open>A turn that takes an element of a channel starts from the node without it.\<close>

lemma stocked_pop:
  assumes "stocked E n"
  shows "rx_loopback n = b # bs \<Longrightarrow> stocked E (n\<lparr>rx_loopback := bs\<rparr>) \<and> covered (present E n) [] b"
    and "rx_inner n = b # bs \<Longrightarrow> stocked E (n\<lparr>rx_inner := bs\<rparr>) \<and> covered (present E n) [] b"
    and "rx_payload_waiter n = m # ms \<Longrightarrow> stocked E (n\<lparr>rx_payload_waiter := ms\<rparr>)
      \<and> (\<forall>ds b. m = Wait ds b \<longrightarrow> covered (present E n) ds b)"
    and "rx_mempool n = d # ds \<Longrightarrow> stocked E (n\<lparr>rx_mempool := ds\<rparr>) \<and> d \<in> present E n"
    and "stocked E (n\<lparr>rx_consensus := cs\<rparr>)" and "stocked E (n\<lparr>rx_proposer := ps\<rparr>)" and "stocked E (n\<lparr>rx_helper := hs\<rparr>)"
  using assms by (auto simp: stocked_def stocked_at_def store_shared_def present_def)

lemma present_pop [simp]:
  "present E (n\<lparr>rx_loopback := bs\<rparr>) = present E n" "present E (n\<lparr>rx_inner := bs\<rparr>) = present E n"
  "present E (n\<lparr>rx_payload_waiter := ms\<rparr>) = present E n" "present E (n\<lparr>rx_mempool := ds\<rparr>) = present E n"
  by (simp_all add: present_def)

text \<open>What the mempool of the node must see to.\<close>

fun arrives_stocked :: "('k, 'db) env \<Rightarrow> 'db consensus_node \<Rightarrow> consensus_event \<Rightarrow> bool" where
  "arrives_stocked E n (Cn_digest d) \<longleftrightarrow> in_store E (cn_store n) d"
| "arrives_stocked E n (Cn_write k v) \<longleftrightarrow> (\<forall>b. de_block E v \<noteq> Ok b)"
| "arrives_stocked E n _ \<longleftrightarrow> True"

lemma turn_stocked:
  assumes R: "rocksdb_ok (rocksdb E)" and B: "bincode_ok E" and S: "stocked E n" and T: "sync_tidy E (cn_synchronizer n)"
    and ev: "arrives_stocked E n ev"
  shows "stocked E (consensus_turn E P ev n)"
proof (cases "turn_task ev \<in> Some ` cn_stopped n")
  case True
  then show ?thesis using S by (simp add: consensus_turn_def)
next
  case live: False
  have at: "stocked_at E (present E n) n" using S by (simp add: stocked_def)
  have same: "my_store (cn_core n) = cn_store n" if "turn_task ev = Some Core_task"
    using S live that by (auto simp: stocked_def store_shared_def)
  have core: "stocked E (core_turn E now cev m)"
    if "stocked E m" "turn_task ev = Some Core_task" "cn_core m = cn_core n" "cn_store m = cn_store n"
      "event_backed E (present E m) cev" for now cev m
    using core_turn_stocked [OF R B _ _ that(5)] that(1-4) same by (simp add: stocked_def)
  show ?thesis
  proof (cases ev)
    case (Cn_frame frame)
    then show ?thesis using S
      by (simp add: consensus_turn_def turn_task_def stocked_def stocked_at_def store_shared_def present_def)
  next
    case (Cn_digest d)
    then show ?thesis using S ev
      by (auto simp: consensus_turn_def turn_task_def stocked_def stocked_at_def store_shared_def present_def)
  next
    case (Cn_write k v)
    then show ?thesis using shared_write_stocked [OF R B S] ev live by (simp add: consensus_turn_def turn_task_def)
  next
    case (Cn_message now)
    then show ?thesis using live S stocked_pop(5) [OF S]
      by (auto simp: consensus_turn_def turn_task_def split: list.split intro!: core)
  next
    case (Cn_loopback now)
    then show ?thesis using live S stocked_pop(1) [OF S]
      by (auto simp: consensus_turn_def turn_task_def covered_def split: list.split intro!: core)
  next
    case (Cn_timer now)
    then show ?thesis using live S by (auto simp: consensus_turn_def turn_task_def intro!: core)
  next
    case (Cn_sync_block now)
    then show ?thesis using live S T stocked_pop(2) [OF S]
      by (auto simp: consensus_turn_def turn_task_def covered_def split: list.split intro!: synchronizer_turn_stocked [OF R])
  next
    case (Cn_sync_ready now i)
    then show ?thesis using live T by (auto simp: consensus_turn_def turn_task_def intro!: synchronizer_turn_stocked [OF R S])
  next
    case (Cn_sync_timer now)
    then show ?thesis using live T by (auto simp: consensus_turn_def turn_task_def intro!: synchronizer_turn_stocked [OF R S])
  next
    case Cn_wait
    then show ?thesis using live S stocked_pop(3) [OF S]
      by (auto simp: consensus_turn_def turn_task_def split: list.split intro!: waiter_turn_stocked [OF R])
  next
    case (Cn_wait_ready pick i)
    then show ?thesis using live by (auto simp: consensus_turn_def turn_task_def intro!: waiter_turn_stocked [OF R S])
  next
    case Cn_buffer
    then show ?thesis using live S stocked_pop(4) [OF S]
      by (auto simp: consensus_turn_def turn_task_def split: list.split intro!: proposer_turn_stocked)
  next
    case (Cn_propose answers)
    then show ?thesis using live S stocked_pop(6) [OF S]
      by (auto simp: consensus_turn_def turn_task_def split: list.split intro!: proposer_turn_stocked)
  next
    case Cn_help
    then show ?thesis using live S stocked_pop(7) [OF S]
      by (auto simp: consensus_turn_def turn_task_def split: list.split intro!: helper_turn_stocked)
  qed
qed

section \<open>The start\<close>

lemma spawn_stocked:
  assumes st: "no_blocks E st" and n: "consensus_spawn E P now st = Ok n"
  shows "stocked E n"
proof -
  obtain r c where b: "boot E now (core_new E (timeout_delay P) now st) = (r, c)"
    by (cases "boot E now (core_new E (timeout_delay P) now st)")
  let ?A = "{d. in_store E st d}"
  have "available_at E ?A (core_new E (timeout_delay P) now st)"
    using st by (auto simp: available_at_def core_new_def blocks_backed_def no_blocks_def)
  from quiet_available [OF keepsD [OF quiet_handlers(6) b] this]
  have c: "available_at E ?A c" .
  have backed: "backed ?A e" if "e \<in> set (out c)" for e using c that by (simp add: available_at_def)
  have inner: "covered ?A [] x" if "To_synchronizer x \<in> set (out c)" for x using backed [OF that] by (simp add: covered_def)
  have wait: "covered ?A ds x" if "To_payload_waiter (Wait ds x) \<in> set (out c)" for ds x
    using backed [OF that] by (simp add: covered_def)
  have f: "cn_core n = c" "cn_store n = my_store c" "rx_loopback n = []" "sync_waiting (cn_synchronizer n) = []"
    "payload_waiting (cn_waiter n) = []" "rx_mempool n = []" "prop_buffer (cn_proposer n) = []"
    "set (rx_inner n) = {x. To_synchronizer x \<in> set (out c)}" "set (rx_payload_waiter n) = {x. To_payload_waiter x \<in> set (out c)}"
    using n b
    by (auto simp: consensus_spawn_def core_effects_channels sync_new_def payload_new_def proposer_new_def stop_task_def
        split: option.splits prod.splits outcome.splits)
  have "stocked_at E ?A n"
    unfolding stocked_at_def using c [unfolded available_at_def] inner wait
    by (elim conjE, intro conjI) (simp_all add: f)
  moreover have "store_shared n" by (simp add: store_shared_def f)
  ultimately show ?thesis by (rule stocked_now)
qed

end
