(* ===== verification/Full_Node.thy ===== *)
theory Full_Node
  imports Node_Availability Mempool_Node Node
begin

text \<open>
  The node that \<open>Node::new\<close> of \<open>node/src/node.rs\<close> starts: the mempool of \<open>Mempool_Node\<close> and the consensus of
  \<open>Consensus_Node\<close> over one store, with the channels \<open>tx_mempool_to_consensus\<close> and \<open>tx_consensus_to_mempool\<close> between them. What each
  half needs to be told of the other in its own theory is proved here.
\<close>

section \<open>The node\<close>

text \<open>
  The code from elsewhere that a node uses: the crates and the formats of the consensus (in a \<open>env\<close>, whose other fields the
  node fills), and the formats of the mempool.
\<close>

record ('k, 'db) platform =
  platform_env :: "('k, 'db) env"
  platform_ser :: "mempool_message \<Rightarrow> bytes option"
  platform_de :: "bytes \<Rightarrow> (unit, mempool_message) outcome"
  platform_benchmark :: bool

definition node_consensus_env :: "('k, 'db) platform \<Rightarrow> node \<Rightarrow> ('k, 'db) env" where
  "node_consensus_env F d = (platform_env F)\<lparr>my_name := node_name d, my_secret := node_secret d,
     my_committee := consensus_committee (node_committees d)\<rparr>"

definition node_mempool_env :: "('k, 'db) platform \<Rightarrow> node \<Rightarrow> ('k, 'db) mempool_env" where
  "node_mempool_env F d =
     \<lparr>mp_dalek = dalek (platform_env F), mp_rocksdb = rocksdb (platform_env F),
      ser_mempool = platform_ser F, de_mempool = platform_de F, mp_name = node_name d,
      mp_committee = mempool_committee (node_committees d), mp_parameters = mempool_params (node_params d)\<rparr>"

record 'db full_node =
  fn_mempool :: "'db mempool_node"
  fn_consensus :: "'db consensus_node"

text \<open>The consensus sends \<open>ConsensusMempoolMessage\<close>s, which the synchronizer of the mempool takes.\<close>

fun command_of :: "consensus_mempool_message \<Rightarrow> sync_message" where
  "command_of (Synchronize ds k) = Synchronize_batches ds k"
| "command_of (Mempool_cleanup r) = Cleanup_batches r"

text \<open>\<open>Mempool::spawn\<close> and \<open>Consensus::spawn\<close>, in the order of \<open>Node::new\<close>, with the store just opened.\<close>

definition node_spawn ::
    "('k, 'db) platform \<Rightarrow> node \<Rightarrow> instant \<Rightarrow> 'db store \<Rightarrow> (unit, 'db full_node) outcome" where
  "node_spawn F d now st =
     (case mempool_spawn (node_mempool_env F d) st of
        Ok m \<Rightarrow> (case consensus_spawn (node_consensus_env F d) (consensus_parameters (node_params d)) now st of
            Ok c \<Rightarrow> Ok \<lparr>fn_mempool = fold (mempool_turn (node_mempool_env F d) (platform_benchmark F))
                (map (Mn_command \<circ> command_of) (tx_mempool c)) m, fn_consensus = c\<rparr>
          | Err e \<Rightarrow> Err e | Panic p \<Rightarrow> Panic p | Diverge \<Rightarrow> Diverge)
      | Err e \<Rightarrow> Err e | Panic p \<Rightarrow> Panic p | Diverge \<Rightarrow> Diverge)"

text \<open>The batches that a turn of the mempool writes to the store, each under its digest.\<close>

definition written :: "mempool_event \<Rightarrow> 'db mempool_node \<Rightarrow> bytes list" where
  "written ev m = (if mempool_turn_task ev \<in> Some ` mn_stopped m then []
     else case ev of Mn_process \<Rightarrow> take 1 (rx_processor m) | Mn_process_received \<Rightarrow> take 1 (rx_received m) | _ \<Rightarrow> [])"

text \<open>
  A turn of either half. Digests go from the mempool to the consensus and commands the other way; a write of one half to the store
  is one of the other half. What the halves get from each other does not come from outside.
\<close>

datatype node_event = Mempool_event mempool_event | Consensus_event consensus_event

fun internal :: "node_event \<Rightarrow> bool" where
  "internal (Mempool_event (Mn_command _)) \<longleftrightarrow> True"
| "internal (Mempool_event (Mn_write _ _)) \<longleftrightarrow> True"
| "internal (Consensus_event (Cn_digest _)) \<longleftrightarrow> True"
| "internal (Consensus_event (Cn_write _ _)) \<longleftrightarrow> True"
| "internal _ \<longleftrightarrow> False"

definition mempool_side ::
    "('k, 'db) platform \<Rightarrow> node \<Rightarrow> mempool_event \<Rightarrow> 'db full_node \<Rightarrow> 'db full_node" where
  "mempool_side F d ev n =
     (let m = mempool_turn (node_mempool_env F d) (platform_benchmark F) ev (fn_mempool n)
      in \<lparr>fn_mempool = m,
          fn_consensus = fold (consensus_turn (node_consensus_env F d) (consensus_parameters (node_params d)))
            (map (\<lambda>b. Cn_write (digest_bytes (hash32 (dalek (platform_env F)) b)) b) (written ev (fn_mempool n))
             @ map Cn_digest (gained (tx_digests (fn_mempool n)) (tx_digests m))) (fn_consensus n)\<rparr>)"

definition consensus_side ::
    "('k, 'db) platform \<Rightarrow> node \<Rightarrow> consensus_event \<Rightarrow> 'db full_node \<Rightarrow> 'db full_node" where
  "consensus_side F d ev n =
     (let c = consensus_turn (node_consensus_env F d) (consensus_parameters (node_params d)) ev (fn_consensus n)
      in \<lparr>fn_mempool = (fold (mempool_turn (node_mempool_env F d) (platform_benchmark F))
            (map (Mn_command \<circ> command_of) (gained (tx_mempool (fn_consensus n)) (tx_mempool c))) (fn_mempool n))
              \<lparr>mn_store := cn_store c\<rparr>,
          fn_consensus = c\<rparr>)"

definition node_turn ::
    "('k, 'db) platform \<Rightarrow> node \<Rightarrow> node_event \<Rightarrow> 'db full_node \<Rightarrow> 'db full_node" where
  "node_turn F d ev n =
     (if internal ev then n
      else case ev of Mempool_event e \<Rightarrow> mempool_side F d e n | Consensus_event e \<Rightarrow> consensus_side F d e n)"

inductive node_reach ::
    "('k, 'db) platform \<Rightarrow> node \<Rightarrow> instant \<Rightarrow> 'db store \<Rightarrow> ('db full_node \<Rightarrow> node_event \<Rightarrow> bool) \<Rightarrow> 'db full_node \<Rightarrow> bool"
  for F d now st ok where
  node_start: "node_spawn F d now st = Ok n \<Longrightarrow> node_reach F d now st ok n"
| node_step: "node_reach F d now st ok n \<Longrightarrow> ok n ev \<Longrightarrow> node_reach F d now st ok (node_turn F d ev n)"

section \<open>What the halves give each other\<close>

lemma written_one: "written ev m = [] \<or> (\<exists>b. written ev m = [b])"
  by (cases ev) (auto simp: written_def take_Suc neq_Nil_conv split: list.split)

lemma mempool_turn_gives:
  assumes "\<not> internal (Mempool_event ev)"
  shows "tx_digests (mempool_turn ME bench ev m) = tx_digests m @ map (hash32 (mp_dalek ME)) (written ev m)"
    and "mn_store (mempool_turn ME bench ev m)
      = fold (\<lambda>b. store_write (mp_rocksdb ME) (digest_bytes (hash32 (mp_dalek ME) b)) b) (written ev m) (mn_store m)"
proof -
  have p: "map f (take 1 (x # xs)) = [f x]" for f :: "bytes \<Rightarrow> 'c" and x xs by simp
  note fetch = fetch_turn_fields(1,2) [where ME = ME]
  show "tx_digests (mempool_turn ME bench ev m) = tx_digests m @ map (hash32 (mp_dalek ME)) (written ev m)"
    using assms fetch
    by (cases ev) (auto simp: mempool_turn_def written_def processor_turn_fields request_turn_fields batch_maker_turn_def
        quorum_turn_def split: list.split prod.split)
  show "mn_store (mempool_turn ME bench ev m)
      = fold (\<lambda>b. store_write (mp_rocksdb ME) (digest_bytes (hash32 (mp_dalek ME) b)) b) (written ev m) (mn_store m)"
    using assms fetch
    by (cases ev) (auto simp: mempool_turn_def written_def processor_turn_fields request_turn_fields batch_maker_turn_def
        quorum_turn_def split: list.split prod.split)
qed

lemma env_fields [simp]:
  "rocksdb (node_consensus_env F d) = rocksdb (platform_env F)" "dalek (node_consensus_env F d) = dalek (platform_env F)"
  "de_block (node_consensus_env F d) = de_block (platform_env F)"
  "mp_rocksdb (node_mempool_env F d) = rocksdb (platform_env F)" "mp_dalek (node_mempool_env F d) = dalek (platform_env F)"
  by (simp_all add: node_consensus_env_def node_mempool_env_def)

lemma mempool_side_events:
  assumes "\<not> internal (Mempool_event ev)"
  shows "fn_consensus (mempool_side F d ev n) =
    fold (consensus_turn (node_consensus_env F d) (consensus_parameters (node_params d)))
      (map (\<lambda>b. Cn_write (digest_bytes (hash32 (dalek (platform_env F)) b)) b) (written ev (fn_mempool n))
       @ map (\<lambda>b. Cn_digest (hash32 (dalek (platform_env F)) b)) (written ev (fn_mempool n))) (fn_consensus n)"
  by (simp add: mempool_side_def Let_def comp_def mempool_turn_gives(1) [OF assms])

lemma commands_store:
  "mn_store (fold (mempool_turn ME bench) (map (Mn_command \<circ> f) xs) m) = mn_store m"
  by (induction xs arbitrary: m) (simp_all add: mempool_turn_def mempool_turn_task_def)

text \<open>What arrives: frames whose verified signatures are genuine, and batches that are no blocks.\<close>

definition writes_no_blocks :: "('k, 'db) platform \<Rightarrow> 'db full_node \<Rightarrow> node_event \<Rightarrow> bool" where
  "writes_no_blocks F n ev \<longleftrightarrow> (case ev of
       Mempool_event e \<Rightarrow> \<forall>b\<in>set (written e (fn_mempool n)). \<forall>x. de_block (platform_env F) b \<noteq> Ok x
     | Consensus_event e \<Rightarrow> True)"

definition node_arrives_ok ::
    "('k, 'db) platform \<Rightarrow> node \<Rightarrow> signed \<Rightarrow> 'db full_node \<Rightarrow> node_event \<Rightarrow> bool" where
  "node_arrives_ok F d sg n ev \<longleftrightarrow> writes_no_blocks F n ev
     \<and> (\<forall>e. ev = Consensus_event e \<longrightarrow> arrives_ok (node_consensus_env F d) sg e)"

lemma node_reach_mono:
  assumes "node_reach F d now st ok n" and "\<And>n ev. ok n ev \<Longrightarrow> ok' n ev"
  shows "node_reach F d now st ok' n"
  using assms(1) by induction (auto intro: node_reach.intros assms(2))

section \<open>The invariant\<close>

definition commits_sent :: "'db consensus_node \<Rightarrow> bool" where
  "commits_sent n \<longleftrightarrow> tx_commit n = commits (out (cn_core n))"

lemma core_turn_commits: "commits_sent n \<Longrightarrow> commits_sent (core_turn E now ev n)"
  by (auto simp: commits_sent_def core_turn_def core_effects_channels log_grows_def dest!: step_grows split: prod.split)

lemma notify_no_commits: "commits (map Store_notify xs) = []"
  by (induction xs) (auto simp: commits_def)

lemma turn_commits:
  assumes "commits_sent n"
  shows "commits_sent (consensus_turn E P ev n)"
proof (cases ev)
  case (Cn_write k v)
  then show ?thesis using assms
    by (simp add: consensus_turn_def shared_write_def commits_sent_def step_def handle_def write_store_def modify_def
        notify_no_commits)
qed (use assms in \<open>auto simp: consensus_turn_def commits_sent_def synchronizer_turn_def waiter_turn_def proposer_turn_def
    helper_turn_def split: list.split prod.split intro!: core_turn_commits [unfolded commits_sent_def]\<close>)

definition consensus_ok :: "('k, 'db) env \<Rightarrow> 'db consensus_node \<Rightarrow> bool" where
  "consensus_ok E n \<longleftrightarrow> stocked E n \<and> sync_conserves E n \<and> commits_sent n"

definition node_ok :: "('k, 'db) env \<Rightarrow> 'db full_node \<Rightarrow> bool" where
  "node_ok E n \<longleftrightarrow> consensus_ok E (fn_consensus n) \<and> mn_store (fn_mempool n) = cn_store (fn_consensus n)"

lemma turn_consensus_ok:
  assumes "rocksdb_ok (rocksdb E)" and "bincode_ok E" and "consensus_ok E n" and "arrives_stocked E n ev"
  shows "consensus_ok E (consensus_turn E P ev n)"
  using assms turn_stocked [OF assms(1,2), of n ev P] turn_conserves [OF assms(1), of n P ev] turn_commits [of n E P ev]
  by (simp add: consensus_ok_def sync_conserves_def)

lemma write_turn_store:
  "cn_store (consensus_turn E P (Cn_write k v) n) = store_write (rocksdb E) k v (cn_store n)"
  "cn_store (consensus_turn E P (Cn_digest x) n) = cn_store n"
  by (simp_all add: consensus_turn_def turn_task_def shared_write_def)

lemma node_turn_ok:
  fixes F :: "('k, 'db) platform"
  defines "E \<equiv> platform_env F"
  assumes R: "rocksdb_ok (rocksdb E)" and B: "bincode_ok E" and I: "node_ok (node_consensus_env F d) n"
    and ev: "writes_no_blocks F n ev"
  shows "node_ok (node_consensus_env F d) (node_turn F d ev n)"
proof (cases "internal ev")
  case True
  then show ?thesis using I by (simp add: node_turn_def)
next
  case False
  let ?E = "node_consensus_env F d" and ?P = "consensus_parameters (node_params d)"
  have R': "rocksdb_ok (rocksdb ?E)" and B': "bincode_ok ?E"
    using R B by (simp_all add: E_def bincode_ok_def node_consensus_env_def)
  have C: "consensus_ok ?E (fn_consensus n)" and eq: "mn_store (fn_mempool n) = cn_store (fn_consensus n)"
    using I by (simp_all add: node_ok_def)
  show ?thesis
  proof (cases ev)
    case (Consensus_event e)
    have "arrives_stocked ?E (fn_consensus n) e" using False by (cases e) (simp_all add: Consensus_event)
    from turn_consensus_ok [OF R' B' C this] False show ?thesis
      by (simp add: node_turn_def Consensus_event consensus_side_def node_ok_def Let_def)
  next
    case (Mempool_event e)
    have e: "\<not> internal (Mempool_event e)" using False by (simp add: Mempool_event)
    note gives = mempool_turn_gives(2) [OF e, of "node_mempool_env F d" "platform_benchmark F" "fn_mempool n"]
    have t: "node_turn F d ev n = mempool_side F d e n" using False by (simp add: node_turn_def Mempool_event)
    from written_one [of e "fn_mempool n"] show ?thesis
    proof (elim disjE exE)
      assume "written e (fn_mempool n) = []"
      then show ?thesis using C eq gives mempool_side_events [OF e, of F d n]
        by (simp add: t node_ok_def) (simp add: mempool_side_def Let_def)
    next
      fix b assume b: "written e (fn_mempool n) = [b]"
      let ?h = "hash32 (dalek E) b"
      let ?w = "consensus_turn ?E ?P (Cn_write (digest_bytes ?h) b) (fn_consensus n)"
      have "\<forall>x. de_block ?E b \<noteq> Ok x" using ev b by (simp add: writes_no_blocks_def Mempool_event)
      then have w: "consensus_ok ?E ?w" by (intro turn_consensus_ok [OF R' B' C]) simp
      have "arrives_stocked ?E ?w (Cn_digest ?h)"
        by (simp add: write_turn_store in_store_def st.read_write_if [OF R [unfolded E_def]])
      from turn_consensus_ok [OF R' B' w this]
      have "consensus_ok ?E (consensus_turn ?E ?P (Cn_digest ?h) ?w)" .
      moreover have "fn_consensus (mempool_side F d e n) = consensus_turn ?E ?P (Cn_digest ?h) ?w"
        using mempool_side_events [OF e, of F d n] by (simp add: b E_def)
      moreover have "mn_store (fn_mempool (mempool_side F d e n)) = store_write (rocksdb E) (digest_bytes ?h) b (mn_store (fn_mempool n))"
        using gives by (simp add: b mempool_side_def Let_def E_def)
      ultimately show ?thesis using eq by (simp add: t node_ok_def write_turn_store E_def)
    qed
  qed
qed

lemma spawn_store:
  assumes "consensus_spawn E P now st = Ok c"
  shows "cn_store c = st" and "commits_sent c" and "sync_conserves E c"
proof -
  obtain r s where b: "boot E now (core_new E (timeout_delay P) now st) = (r, s)"
    by (cases "boot E now (core_new E (timeout_delay P) now st)")
  have "my_store s = st" using keepsD [OF quiet_handlers(6) b] by (simp add: quiet_def core_new_def)
  then show "cn_store c = st" "commits_sent c" "sync_conserves E c"
    using assms b
    by (auto simp: consensus_spawn_def commits_sent_def core_effects_channels sync_conserves_def sync_tidy_def sync_new_def
        stop_task_def split: option.splits prod.splits outcome.splits)
qed

lemma node_reach_ok:
  fixes F :: "('k, 'db) platform"
  assumes "node_reach F d now st ok n" and "\<And>n ev. ok n ev \<Longrightarrow> writes_no_blocks F n ev"
    and "rocksdb_ok (rocksdb (platform_env F))" and "bincode_ok (platform_env F)" and st: "no_blocks (platform_env F) st"
  shows "node_ok (node_consensus_env F d) n"
  using assms(1)
proof induction
  case (node_start n)
  obtain m c where m: "mempool_spawn (node_mempool_env F d) st = Ok m"
    and c: "consensus_spawn (node_consensus_env F d) (consensus_parameters (node_params d)) now st = Ok c"
    and n: "n = \<lparr>fn_mempool = fold (mempool_turn (node_mempool_env F d) (platform_benchmark F))
                (map (Mn_command \<circ> command_of) (tx_mempool c)) m, fn_consensus = c\<rparr>"
    using node_start by (auto simp: node_spawn_def split: outcome.splits)
  have "mn_store m = st" using m by (auto simp: mempool_spawn_def split: outcome.splits)
  moreover have "no_blocks (node_consensus_env F d) st" using st by (simp add: no_blocks_def)
  ultimately show ?case
    using spawn_store [OF c] spawn_stocked [OF _ c] by (simp add: n node_ok_def consensus_ok_def commands_store)
next
  case (node_step n ev)
  then show ?case by (intro node_turn_ok assms(2-4)) auto
qed

text \<open>The consensus of a node is a consensus node as \<open>Consensus_Wiring\<close> has it.\<close>

lemma node_turn_consensus:
  assumes "consensus_reach (node_consensus_env F d) (consensus_parameters (node_params d)) now st
      (arrives_ok (node_consensus_env F d) sg) (fn_consensus n)"
    and "sha512_ok (dalek (platform_env F))" and ev: "node_arrives_ok F d sg n ev"
  shows "consensus_reach (node_consensus_env F d) (consensus_parameters (node_params d)) now st
      (arrives_ok (node_consensus_env F d) sg) (fn_consensus (node_turn F d ev n))"
proof (cases "internal ev")
  case True
  then show ?thesis using assms(1) by (simp add: node_turn_def)
next
  case False
  show ?thesis
  proof (cases ev)
    case (Consensus_event e)
    have "arrives_ok (node_consensus_env F d) sg e" using ev by (simp add: node_arrives_ok_def Consensus_event)
    with assms(1) False show ?thesis
      by (simp add: node_turn_def Consensus_event consensus_side_def Let_def reach_turn)
  next
    case (Mempool_event e)
    have e: "\<not> internal (Mempool_event e)" using False by (simp add: Mempool_event)
    have "digest_wf (hash32 (dalek (platform_env F)) b)" for b
      using assms(2) by (simp add: sha512_ok_def digest_wf_def hash32_def)
    moreover have "\<forall>b\<in>set (written e (fn_mempool n)). \<forall>x. de_block (platform_env F) b \<noteq> Ok x"
      using ev by (simp add: node_arrives_ok_def writes_no_blocks_def Mempool_event)
    ultimately show ?thesis
      using False unfolding node_turn_def
      by (simp add: Mempool_event mempool_side_events [OF e] del: fold_append) (intro reach_fold assms(1); auto)
  qed
qed

lemma node_reach_consensus:
  assumes "node_reach F d now st ok n" and "\<And>n ev. ok n ev \<Longrightarrow> node_arrives_ok F d sg n ev"
    and "sha512_ok (dalek (platform_env F))"
  shows "consensus_reach (node_consensus_env F d) (consensus_parameters (node_params d)) now st
      (arrives_ok (node_consensus_env F d) sg) (fn_consensus n)"
  using assms(1)
proof induction
  case (node_start n)
  then show ?case by (auto simp: node_spawn_def split: outcome.splits intro: reach_spawn)
next
  case (node_step n ev)
  then show ?case using node_turn_consensus [OF _ assms(3)] assms(2) by blast
qed

section \<open>Payloads\<close>

lemma node_has_payloads_aux:
  assumes "rocksdb_ok (rocksdb (platform_env F))" and "bincode_ok (platform_env F)" and "no_blocks (platform_env F) st"
    and "node_reach F d now st (writes_no_blocks F) n"
  shows "(\<forall>b v. Signed_vote b v \<in> set (out (cn_core (fn_consensus n))) \<longrightarrow>
        (\<forall>x\<in>set (block_payload b). in_store (platform_env F) (cn_store (fn_consensus n)) x))
    \<and> (\<forall>b\<in>set (tx_commit (fn_consensus n)) \<union> set (rx_loopback (fn_consensus n)).
        \<forall>x\<in>set (block_payload b). in_store (platform_env F) (cn_store (fn_consensus n)) x)
    \<and> mn_store (fn_mempool n) = cn_store (fn_consensus n)"
proof -
  let ?E = "node_consensus_env F d" and ?c = "fn_consensus n"
  have N: "node_ok ?E n" by (rule node_reach_ok [OF assms(4) _ assms(1-3)])
  have at: "stocked_at ?E (present ?E ?c) ?c" using N by (simp add: node_ok_def consensus_ok_def stocked_def)
  have p: "x \<in> present ?E ?c \<Longrightarrow> in_store (platform_env F) (cn_store ?c) x" for x
    by (simp add: present_def in_store_def)
  have e: "backed (present ?E ?c) e" if "e \<in> set (out (cn_core ?c))" for e using at that by (simp add: stocked_at_def)
  have "To_commit b \<in> set (out (cn_core ?c))" if "b \<in> set (tx_commit ?c)" for b
    using N that by (simp add: node_ok_def consensus_ok_def commits_sent_def set_commits)
  then have "set (block_payload b) \<subseteq> present ?E ?c" if "b \<in> set (tx_commit ?c)" for b using e that by fastforce
  moreover have "set (block_payload b) \<subseteq> present ?E ?c" if "b \<in> set (rx_loopback ?c)" for b
    using at that by (auto simp: stocked_at_def covered_def)
  moreover have "set (block_payload b) \<subseteq> present ?E ?c" if "Signed_vote b v \<in> set (out (cn_core ?c))" for b v
    using e [OF that] by simp
  ultimately show ?thesis using N p unfolding node_ok_def by blast
qed

text \<open>An honest authority that runs a whole node.\<close>

definition honest_full_node ::
    "('k, 'db) platform \<Rightarrow> committee \<Rightarrow> signed \<Rightarrow> public_key \<Rightarrow> 'db full_node \<Rightarrow> bool" where
  "honest_full_node F c sg a n \<longleftrightarrow> (\<exists>d now st. node_name d = a \<and> consensus_committee (node_committees d) = c
     \<and> public_key_wf a \<and> trusted (node_consensus_env F d) sg \<and> no_blocks (platform_env F) st
     \<and> node_reach F d now st (node_arrives_ok F d sg) n \<and> node_signed (node_consensus_env F d) sg (fn_consensus n)
     \<and> (\<forall>m. sg a m \<longrightarrow> made_by (out (cn_core (fn_consensus n))) m))"

lemma honest_full_consensus:
  assumes "honest_full_node F c sg a n"
  shows "honest_consensus_node (dalek (platform_env F)) c sg a (fn_consensus n)"
    and "\<And>b v. Signed_vote b v \<in> set (out (cn_core (fn_consensus n))) \<Longrightarrow>
      \<forall>x\<in>set (block_payload b). in_store (platform_env F) (cn_store (fn_consensus n)) x"
    and "collision_free (dalek (platform_env F)) sg"
proof -
  obtain d now st where d: "node_name d = a" "consensus_committee (node_committees d) = c" "public_key_wf a"
    and t: "trusted (node_consensus_env F d) sg" and st: "no_blocks (platform_env F) st"
    and r: "node_reach F d now st (node_arrives_ok F d sg) n"
    and s: "node_signed (node_consensus_env F d) sg (fn_consensus n)" "\<forall>m. sg a m \<longrightarrow> made_by (out (cn_core (fn_consensus n))) m"
    using assms by (auto simp: honest_full_node_def)
  have env: "my_name (node_consensus_env F d) = a" "my_committee (node_consensus_env F d) = c"
    using d by (simp_all add: node_consensus_env_def)
  have ok: "rocksdb_ok (rocksdb (platform_env F))" "bincode_ok (platform_env F)" "sha512_ok (dalek (platform_env F))"
    using t by (simp_all add: trusted_def) (simp add: bincode_ok_def node_consensus_env_def)
  show "collision_free (dalek (platform_env F)) sg" using t by (simp add: trusted_def)
  have "no_blocks (node_consensus_env F d) st" using st by (simp add: no_blocks_def)
  with node_reach_consensus [OF r _ ok(3)] env t d(3) s
  show "honest_consensus_node (dalek (platform_env F)) c sg a (fn_consensus n)"
    unfolding honest_consensus_node_def
    by (intro exI [of _ "node_consensus_env F d"] exI [of _ "consensus_parameters (node_params d)"] exI [of _ now] exI [of _ st])
      simp
  have "node_reach F d now st (writes_no_blocks F) n" by (rule node_reach_mono [OF r]) (simp add: node_arrives_ok_def)
  from node_has_payloads_aux [OF ok(1,2) st this]
  show "\<forall>x\<in>set (block_payload b). in_store (platform_env F) (cn_store (fn_consensus n)) x"
    if "Signed_vote b v \<in> set (out (cn_core (fn_consensus n)))" for b v using that by blast
qed

section \<open>Properties\<close>

text \<open>
  C5. A node votes for and commits only what it has. Let the tasks of the mempool and of the consensus of one node take
  turns in any order, over any frames and transactions, where the node starts without blocks in its store and no batch reads as a block. Then
  each block the core has voted for and each block sent to the application has all of its payload
  in the store, and so has every block on the loopback channel of the core; and both halves see the same store.
\<close>

theorem node_has_payloads:
  assumes "rocksdb_ok (rocksdb (platform_env F))" and "bincode_ok (platform_env F)" and "no_blocks (platform_env F) st"
    and "node_reach F d now st (writes_no_blocks F) n"
  shows "(\<forall>b v. Signed_vote b v \<in> set (out (cn_core (fn_consensus n))) \<longrightarrow>
        (\<forall>x\<in>set (block_payload b). in_store (platform_env F) (cn_store (fn_consensus n)) x))
    \<and> (\<forall>b\<in>set (tx_commit (fn_consensus n)) \<union> set (rx_loopback (fn_consensus n)).
        \<forall>x\<in>set (block_payload b). in_store (platform_env F) (cn_store (fn_consensus n)) x)
    \<and> mn_store (fn_mempool n) = cn_store (fn_consensus n)"
  by (rule node_has_payloads_aux [OF assms])

text \<open>
  C6. What is certified is held. All nodes run the same software; the honest ones start without blocks in their stores, and less than a
  third of the stake is faulty. Whenever there is a certificate for the digest of a signed block, some honest authority
  holds the whole payload of that block in its store.
\<close>

theorem certified_payload_held:
  assumes "committee_ok c" and "finite X" and "3 * weight_of c X < total_stake c"
    and nodes: "\<forall>a\<in>names c - X. honest_full_node F c sg a (node a)"
    and q: "qc_attested c sg q" "\<not> qc_eq q qc_genesis" "qc_hash q = block_digest (dalek (platform_env F)) b"
    and b: "block_wf b" "sg k (block_preimage b)"
  shows "\<exists>a\<in>names c - X. \<forall>x\<in>set (block_payload b). in_store (platform_env F) (cn_store (fn_consensus (node a))) x"
proof -
  let ?D = "dalek (platform_env F)"
  obtain run where run: "\<forall>a\<in>names c - X. honest_node ?D c sg a (run a) \<and> final_core (run a) = cn_core (fn_consensus (node a))"
    using bchoice [of "names c - X" "\<lambda>a r. honest_node ?D c sg a r \<and> final_core r = cn_core (fn_consensus (node a))"]
      honest_consensus_core(1) honest_full_consensus(1) nodes by blast
  have "correct_system ?D c sg X run" using assms(1-3) run by (simp add: correct_system_def)
  from qc_voter [OF this q(1,2)] obtain a y v where a: "a \<in> names c - X" and y: "Signed_vote y v \<in> set (out (final_core (run a)))"
    "block_digest ?D y = qc_hash q" "votable c sg y"
    by metis
  have "collision_free ?D sg" using honest_full_consensus(3) nodes a by blast
  moreover have "hash32 ?D (block_preimage y) = hash32 ?D (block_preimage b)" using y(2) q(3) by (simp add: block_digest_def)
  ultimately have "block_preimage y = block_preimage b"
    using vote_blocks_signed(2) [OF y(3)] b(2) unfolding collision_free_def by blast
  then have "block_payload y = block_payload b"
    using block_preimage_inj [OF vote_blocks_signed(1) [OF y(3)] b(1)] by blast
  moreover have "Signed_vote y v \<in> set (out (cn_core (fn_consensus (node a))))" using y(1) run a by simp
  ultimately show ?thesis using honest_full_consensus(2) [of F c sg a "node a"] nodes a by metis
qed

end
