(* ===== verification/Full_Scenarios.thy ===== *)
theory Full_Scenarios
  imports Node_Scenarios Mempool_Scenarios Full_Node
begin

text \<open>
  Whole nodes at work: a batch of another node comes to the mempool, then a block of round 1 with the digest of the batch as its
  payload to the consensus, and three authorities vote for it.
\<close>

section \<open>The block and its formats\<close>

definition loaded_digest :: digest where
  "loaded_digest = Digest ([4, 0] @ replicate 30 0)"

definition loaded_block :: block where
  "loaded_block = (scenario_block 1)\<lparr>block_payload := [loaded_digest]\<rparr>"

definition loaded_id :: digest where
  "loaded_id = Digest ([104, 1] @ replicate 30 0)"

definition loaded_vote :: "u8 \<Rightarrow> vote" where
  "loaded_vote k = \<lparr>vote_hash = loaded_id, vote_round = 1, vote_author = test_key k, vote_signature = signature_default\<rparr>"

definition loaded_platform :: "(bytes, bytes \<rightharpoonup> bytes) platform" where
  "loaded_platform =
     \<lparr>platform_env = (scenario_env 0)\<lparr>ser_block := (\<lambda>b. if b = loaded_block then Some [9] else None),
        de_block := (\<lambda>v. if v = [9] then Ok loaded_block else Err ()),
        de_msg := (\<lambda>v. if v = [9] then Ok (Propose loaded_block) else Err ())\<rparr>,
      platform_ser = scenario_ser_mempool, platform_de = scenario_de_mempool, platform_benchmark = False\<rparr>"

definition loaded_description :: "u8 \<Rightarrow> node" where
  "loaded_description k = \<lparr>node_name = test_key k, node_secret = SecretKey [],
     node_committees = \<lparr>consensus_committee = test_committee, mempool_committee = test_mempool_committee\<rparr>,
     node_params = node_parameters_default\<rparr>"

abbreviation loaded_env :: "u8 \<Rightarrow> (bytes, bytes \<rightharpoonup> bytes) env" where
  "loaded_env k \<equiv> node_consensus_env loaded_platform (loaded_description k)"

lemma loaded_platform_simps [simp]:
  "dalek (platform_env loaded_platform) = scenario_dalek" "rocksdb (platform_env loaded_platform) = map_rocksdb"
  "de_block (platform_env loaded_platform) v = (if v = [9] then Ok loaded_block else Err ())"
  "platform_ser loaded_platform = scenario_ser_mempool" "platform_de loaded_platform = scenario_de_mempool"
  "my_name (loaded_env k) = test_key k" "my_committee (loaded_env k) = test_committee"
  "my_secret (loaded_env k) = SecretKey []"
  "ser_msg (loaded_env k) m = Some []" "ser_block (loaded_env k) b = (if b = loaded_block then Some [9] else None)"
  "de_msg (loaded_env k) v = (if v = [9] then Ok (Propose loaded_block) else Err ())"
  "consensus_parameters (node_params (loaded_description k)) = parameters_default"
  by (simp_all add: loaded_platform_def node_consensus_env_def loaded_description_def scenario_env_def node_parameters_default_def)

lemma loaded_fields [simp]:
  "block_round loaded_block = 1" "block_author loaded_block = test_key 2" "block_tc loaded_block = None"
  "block_payload loaded_block = [loaded_digest]" "block_qc loaded_block = qc_genesis" "parent loaded_block = digest_default"
  by (simp_all add: loaded_block_def scenario_block_def parent_def qc_genesis_def)

lemma loaded_digests:
  "hash32 scenario_dalek [0, 1, 3, 0] = loaded_digest" "block_digest scenario_dalek loaded_block = loaded_id"
  "hash32 scenario_dalek (vote_preimage loaded_id 1) = Digest ([40, 1] @ replicate 30 0)"
  "digest_bytes loaded_digest = [4, 0] @ replicate 30 0" "digest_bytes loaded_id = [104, 1] @ replicate 30 0"
  by (simp_all add: hash32_def scenario_dalek_def loaded_digest_def block_digest_def loaded_id_def block_preimage_def
      test_key_def le_bytes_def upt_rec qc_genesis_def digest_default_def vote_preimage_def)

lemma loaded_verify:
  "block_verify scenario_dalek test_committee loaded_block = Inr ()"
  "vote_new scenario_dalek loaded_block (test_key k) sk = Some (loaded_vote k)"
  "vote_round (loaded_vote k) = 1" "vote_author (loaded_vote k) = test_key k" "vote_hash (loaded_vote k) = loaded_id"
  by (simp_all add: block_verify_def test_stake qc_eq_def vote_new_def Let_def loaded_digests request_signature_def
      scenario_sign loaded_vote_def)

lemma loaded_vote_verifies: "k \<in> {1, 2, 3} \<Longrightarrow> vote_verify scenario_dalek test_committee (loaded_vote k) = Inr ()"
  by (auto simp: vote_verify_def test_stake loaded_verify)

section \<open>The core\<close>

lemma loaded_core:
  assumes "k \<in> {1, 2, 3}"
  shows "case boot (loaded_env k) 0 (core_new (loaded_env k) 5000 0 (store_new Map.empty)) of (r0, s0) \<Rightarrow>
    case step (loaded_env k) 0 (Other_write (digest_bytes loaded_digest) [0, 1, 3, 0]) s0 of (r1, s1) \<Rightarrow>
    case step (loaded_env k) 1 (Message (Propose loaded_block)) s1 of (r2, s2) \<Rightarrow>
      r0 = Ok () \<and> r1 = Ok () \<and> r2 = Ok () \<and> filter logged (out s2) = [Signed_vote loaded_block (loaded_vote k)]"
  using assms loaded_vote_verifies [OF assms]
  by (elim insertE emptyE)
    (simp add: loaded_digests loaded_verify scenario_leaders scenario_qcs scenario_store genesis_fields scenario_addresses run_defs
      core_defs add_vote_def qc_maker_append_def or_new_def aggregator_new_def cleanup_def Let_def vote_digest_def
      qc_maker_new_def scenario_threshold test_stake map_err_def logged_def)+

section \<open>The nodes\<close>

definition loaded_events :: "node_event list" where
  "loaded_events = [Mempool_event (Mn_frame [0, 1, 3, 0]), Mempool_event Mn_process_received,
     Consensus_event (Cn_frame [9]), Consensus_event (Cn_message 1)]"

definition loaded_start :: "u8 \<Rightarrow> (bytes \<rightharpoonup> bytes) full_node" where
  "loaded_start k = (case node_spawn loaded_platform (loaded_description k) 0 (store_new Map.empty) of Ok n \<Rightarrow> n)"

definition loaded_node :: "u8 \<Rightarrow> (bytes \<rightharpoonup> bytes) full_node" where
  "loaded_node k = fold (node_turn loaded_platform (loaded_description k)) loaded_events (loaded_start k)"

lemma loaded_boot:
  assumes "k \<in> {1, 2, 3}"
  shows "case boot (loaded_env k) 0 (core_new (loaded_env k) 5000 0 (store_new Map.empty)) of (r, s) \<Rightarrow>
    r = Ok () \<and> (\<exists>ms. out s = map To_proposer ms)"
  using assms
  by (elim insertE emptyE)
    (simp add: scenario_leaders run_defs core_defs; metis list.simps(8,9))+

lemma proposer_effects:
  "rx_consensus (fold core_effect (map To_proposer ms) n) = rx_consensus n"
  "tx_mempool (fold core_effect (map To_proposer ms) n) = tx_mempool n"
  by (induction ms arbitrary: n) simp_all

lemma loaded_spawn:
  assumes "k \<in> {1, 2, 3}"
  shows "node_spawn loaded_platform (loaded_description k) 0 (store_new Map.empty) = Ok (loaded_start k)"
    and "rx_consensus (fn_consensus (loaded_start k)) = []" and "cn_stopped (fn_consensus (loaded_start k)) = {}"
    and "cn_proposer (fn_consensus (loaded_start k)) = proposer_new"
    and "boot (loaded_env k) 0 (core_new (loaded_env k) 5000 0 (store_new Map.empty)) = (Ok (), cn_core (fn_consensus (loaded_start k)))"
    and "rx_received (fn_mempool (loaded_start k)) = []" and "mn_stopped (fn_mempool (loaded_start k)) = {}"
proof -
  obtain s ms where s: "boot (loaded_env k) 0 (core_new (loaded_env k) 5000 0 (store_new Map.empty)) = (Ok (), s)"
    "out s = map To_proposer ms"
    using loaded_boot [OF assms] by (auto split: prod.splits)
  have a: "address test_committee (test_key k) = Some ([127, 0, 0, 1], ucast k)" by (rule scenario_address [OF assms])
  have m: "mempool_listen (node_mempool_env loaded_platform (loaded_description k))
      = Ok (([0, 0, 0, 0], 100 + ucast k), ([0, 0, 0, 0], 200 + ucast k))"
    using assms
    by (auto simp: mempool_listen_def transactions_address_def mempool_address_def test_mempool_authorities node_mempool_env_def
        loaded_description_def test_key_def)
  note d = loaded_start_def node_spawn_def consensus_spawn_def mempool_spawn_def parameters_default_def
  show "node_spawn loaded_platform (loaded_description k) 0 (store_new Map.empty) = Ok (loaded_start k)"
    "rx_consensus (fn_consensus (loaded_start k)) = []" "cn_stopped (fn_consensus (loaded_start k)) = {}"
    "cn_proposer (fn_consensus (loaded_start k)) = proposer_new"
    "boot (loaded_env k) 0 (core_new (loaded_env k) 5000 0 (store_new Map.empty)) = (Ok (), cn_core (fn_consensus (loaded_start k)))"
    "rx_received (fn_mempool (loaded_start k)) = []" "mn_stopped (fn_mempool (loaded_start k)) = {}"
    using s a m by (simp_all add: d stop_task_def proposer_effects)
qed

definition loaded_turn :: "u8 \<Rightarrow> node_event \<Rightarrow> (bytes \<rightharpoonup> bytes) full_node \<Rightarrow> (bytes \<rightharpoonup> bytes) full_node" where
  "loaded_turn k = node_turn loaded_platform (loaded_description k)"

lemma loaded_process:
  "loaded_turn k (Mempool_event Mn_process_received) n = mempool_side loaded_platform (loaded_description k) Mn_process_received n"
  by (simp add: loaded_turn_def node_turn_def)

lemma loaded_frame:
  assumes "k \<in> {1, 2, 3}"
  defines "n1 \<equiv> loaded_turn k (Mempool_event (Mn_frame [0, 1, 3, 0])) (loaded_start k)"
  shows "fn_consensus n1 = fn_consensus (loaded_start k)" and "rx_received (fn_mempool n1) = [[0, 1, 3, 0]]"
    and "mn_stopped (fn_mempool n1) = {}" and "written Mn_process_received (fn_mempool n1) = [[0, 1, 3, 0]]"
proof -
  have d: "mempool_dispatch (node_mempool_env loaded_platform (loaded_description k)) {} [0, 1, 3, 0] []
      = (Ok (), [Mp_ack, To_processor [0, 1, 3, 0]])"
    by (simp add: mempool_dispatch_def node_mempool_env_def scenario_de_mempool_def run_defs)
  show *: "fn_consensus n1 = fn_consensus (loaded_start k)" "rx_received (fn_mempool n1) = [[0, 1, 3, 0]]"
    "mn_stopped (fn_mempool n1) = {}"
    using loaded_spawn [OF assms(1)]
    by (simp_all add: mn_closed_none n1_def loaded_turn_def node_turn_def mempool_side_def Let_def mempool_turn_def mempool_turn_task_def d
        written_def gained_def)
  show "written Mn_process_received (fn_mempool n1) = [[0, 1, 3, 0]]" by (simp add: written_def *)
qed

lemma loaded_node_state:
  assumes "k \<in> {1, 2, 3}"
  shows "filter logged (out (cn_core (fn_consensus (loaded_node k)))) = [Signed_vote loaded_block (loaded_vote k)]"
    and "cn_proposer (fn_consensus (loaded_node k)) = proposer_new"
proof -
  let ?E = "loaded_env k" and ?c = "fn_consensus (loaded_start k)"
  let ?n1 = "loaded_turn k (Mempool_event (Mn_frame [0, 1, 3, 0])) (loaded_start k)"
  let ?n2 = "loaded_turn k (Mempool_event Mn_process_received) ?n1"
  note sp = loaded_spawn [OF assms] and fr = loaded_frame [OF assms]
  obtain s1 s2 where s: "step ?E 0 (Other_write (digest_bytes loaded_digest) [0, 1, 3, 0]) (cn_core ?c) = (Ok (), s1)"
    "step ?E 1 (Message (Propose loaded_block)) s1 = (Ok (), s2)"
    "filter logged (out s2) = [Signed_vote loaded_block (loaded_vote k)]"
    using loaded_core [OF assms] by (auto simp: sp(5) split: prod.splits)
  let ?P = parameters_default
  have c2: "fn_consensus ?n2 = consensus_turn ?E ?P (Cn_digest loaded_digest)
      (consensus_turn ?E ?P (Cn_write (digest_bytes loaded_digest) [0, 1, 3, 0]) ?c)"
    using mempool_side_events [of Mn_process_received loaded_platform "loaded_description k" ?n1] fr
    by (simp add: loaded_process loaded_digests(1))
  then have 2: "cn_core (fn_consensus ?n2) = s1" "rx_consensus (fn_consensus ?n2) = []" "cn_stopped (fn_consensus ?n2) = {}"
    "cn_proposer (fn_consensus ?n2) = proposer_new"
    using s(1) sp(2-4) by (simp_all add: consensus_turn_def turn_task_def shared_write_def)
  have "fn_consensus (loaded_node k) = deliver ?E ?P (1, [9]) (fn_consensus ?n2)"
    by (simp add: loaded_node_def loaded_events_def loaded_turn_def [symmetric] deliver_def)
      (simp add: loaded_turn_def node_turn_def consensus_side_def Let_def)
  moreover note deliver_block [of ?E "[9]" loaded_block "fn_consensus ?n2" 1 s2 ?P]
  ultimately show "filter logged (out (cn_core (fn_consensus (loaded_node k)))) = [Signed_vote loaded_block (loaded_vote k)]"
    "cn_proposer (fn_consensus (loaded_node k)) = proposer_new"
    using 2 s(2,3) by simp_all
qed

lemma loaded_log:
  assumes "k \<in> {1, 2, 3}"
  shows "Signed_vote b v \<in> set (out (cn_core (fn_consensus (loaded_node k)))) \<longleftrightarrow> b = loaded_block \<and> v = loaded_vote k"
    and "Signed_timeout t \<notin> set (out (cn_core (fn_consensus (loaded_node k))))"
proof -
  let ?es = "out (cn_core (fn_consensus (loaded_node k)))"
  have iff: "e \<in> set ?es \<longleftrightarrow> e \<in> set (filter logged ?es)" if "logged e" for e using that by simp
  show "Signed_vote b v \<in> set ?es \<longleftrightarrow> b = loaded_block \<and> v = loaded_vote k"
    using iff [of "Signed_vote b v"] unfolding loaded_node_state(1) [OF assms] by (simp add: logged_def)
  show "Signed_timeout t \<notin> set ?es"
    using iff [of "Signed_timeout t"] unfolding loaded_node_state(1) [OF assms] by (simp add: logged_def)
qed

section \<open>What is signed\<close>

definition loaded_signed :: signed where
  "loaded_signed a m \<longleftrightarrow> m = block_preimage loaded_block \<or> m = vote_preimage loaded_id 1"

lemma loaded_wf: "digest_wf loaded_id" "digest_wf loaded_digest" "block_wf loaded_block"
  by (simp_all add: digest_wf_def loaded_id_def loaded_digest_def block_wf_def public_key_wf_def)
    (simp add: loaded_block_def scenario_block_def test_key_def qc_genesis_def digest_default_def digest_wf_def loaded_digest_def)

lemma loaded_trusted: "trusted (loaded_env k) loaded_signed"
proof -
  have "hash32 scenario_dalek (block_preimage loaded_block) = loaded_id" using loaded_digests(2) by (simp add: block_digest_def)
  moreover have "replicate 32 (0 :: u8) = 0 # replicate 31 0" by (simp add: numeral_eq_Suc)
  ultimately have "collision_free scenario_dalek loaded_signed"
    using loaded_digests(3) by (auto simp: collision_free_def loaded_signed_def loaded_id_def digest_default_def)
  then show ?thesis
    by (auto simp: trusted_def test_committee_ok map_rocksdb_ok bincode_ok_def sha512_ok_def) (simp add: scenario_dalek_def)
qed

lemma loaded_genuine: "genuine_message scenario_dalek test_committee loaded_signed (Propose loaded_block)"
  using loaded_wf(3)
  by (simp add: loaded_signed_def genuine_qc_def qc_genesis_def digest_wf_def digest_default_def word_greater_zero_iff)

lemma loaded_reach:
  assumes "k \<in> {1, 2, 3}"
  shows "node_reach loaded_platform (loaded_description k) 0 (store_new Map.empty)
    (node_arrives_ok loaded_platform (loaded_description k) loaded_signed) (loaded_node k)"
  unfolding loaded_node_def loaded_events_def
  using loaded_frame(4) [OF assms] loaded_genuine
  by (simp add: loaded_turn_def)
    (intro node_step node_start loaded_spawn(1) [OF assms]; simp add: node_arrives_ok_def writes_no_blocks_def written_def)

lemma loaded_round: "(1 :: u64) < - 1"
  using scenario_round [of 1] by simp

lemma loaded_honest:
  assumes "k \<in> {1, 2, 3}"
  shows "honest_full_node loaded_platform test_committee loaded_signed (test_key k) (loaded_node k)"
proof -
  let ?c = "fn_consensus (loaded_node k)"
  note log = loaded_log [OF assms]
  have "signed_vote loaded_signed (loaded_vote k)"
    by (simp add: signed_vote_def loaded_verify loaded_wf loaded_signed_def loaded_round)
  then have "node_signed (loaded_env k) loaded_signed ?c"
    using log loaded_node_state(2) [OF assms] by (auto simp: node_signed_def logged_within_def proposer_new_def)
  moreover have "made_by (out (cn_core ?c)) m" if "loaded_signed a m" for a m
    using that log(1) [of loaded_block "loaded_vote k"] loaded_wf(3) loaded_verify(3,5) [of k]
    unfolding loaded_signed_def made_by_def by metis
  moreover have "no_blocks (platform_env loaded_platform) (store_new Map.empty)" by (simp add: no_blocks_def scenario_store)
  ultimately show ?thesis
    unfolding honest_full_node_def using loaded_trusted [of k] loaded_reach [OF assms]
    by (intro exI [of _ "loaded_description k"] exI [of _ 0] exI [of _ "store_new Map.empty"])
      (simp add: loaded_description_def public_key_wf_def test_key_def)
qed

section \<open>Witnesses\<close>

theorem node_has_payloads_witness:
  "\<exists>b v. Signed_vote b v \<in> set (out (cn_core (fn_consensus (loaded_node 1)))) \<and> block_payload b = [loaded_digest]
    \<and> in_store (platform_env loaded_platform) (cn_store (fn_consensus (loaded_node 1))) loaded_digest"
proof -
  have r: "node_reach loaded_platform (loaded_description 1) 0 (store_new Map.empty) (writes_no_blocks loaded_platform) (loaded_node 1)"
    by (rule node_reach_mono [OF loaded_reach]) (simp_all add: node_arrives_ok_def)
  have "bincode_ok (platform_env loaded_platform)"
    using loaded_trusted [of 1] by (simp add: trusted_def bincode_ok_def loaded_platform_def)
  from node_has_payloads [OF _ this _ r] loaded_log(1) [of 1 loaded_block "loaded_vote 1"] show ?thesis
    by (intro exI [of _ loaded_block] exI [of _ "loaded_vote 1"]) (auto simp: map_rocksdb_ok no_blocks_def scenario_store)
qed

theorem certified_payload_held_witness:
  "\<exists>a\<in>names test_committee - {test_key 4}. in_store (platform_env loaded_platform)
     (cn_store (fn_consensus (loaded_node (hd (public_key_bytes a))))) loaded_digest"
proof -
  let ?node = "\<lambda>a. loaded_node (hd (public_key_bytes a))"
  let ?q = "\<lparr>qc_hash = loaded_id, qc_round = 1, qc_votes = map (\<lambda>k. (test_key k, signature_default)) [1, 2, 3]\<rparr>"
  have names: "names test_committee - {test_key 4} = test_key ` {1, 2, 3}"
    by (auto simp: names_def test_committee_authorities)
  have "honest_full_node loaded_platform test_committee loaded_signed (test_key k) (?node (test_key k))" if "k \<in> {1, 2, 3}" for k
    using loaded_honest [OF that] by (simp add: test_key_def)
  then have h: "\<forall>a\<in>names test_committee - {test_key 4}. honest_full_node loaded_platform test_committee loaded_signed a (?node a)"
    unfolding names by blast
  have w: "3 * weight_of test_committee {test_key 4} < total_stake test_committee"
    by (simp add: weight_of_def test_stake test_committee_total)
  have q: "qc_attested test_committee loaded_signed ?q" "\<not> qc_eq ?q qc_genesis"
    "qc_hash ?q = block_digest (dalek (platform_env loaded_platform)) loaded_block"
    by (simp_all add: qc_attested_def quorum_def weight_of_def test_stake test_committee_total loaded_wf loaded_signed_def
        scenario_keys qc_eq_def qc_genesis_def loaded_digests loaded_round scenario_threshold)
  have b: "loaded_signed (test_key 2) (block_preimage loaded_block)" by (simp add: loaded_signed_def)
  from certified_payload_held [OF test_committee_ok _ w h q loaded_wf(3) b] show ?thesis by simp
qed

end
