(* ===== verification/Client.thy ===== *)
theory Client
  imports Batch_Maker
begin

text \<open>
  \<open>node/src/client.rs\<close>: the benchmark client, which sends bursts of transactions that it makes all different, one of
  each burst being a sample whose counter identifies it; and how the log of the batch maker (feature \<open>benchmark\<close>)
  finds the samples again. The frames are what the client writes to its connection; a write may fail.
\<close>

unbundle bit_operations_syntax

section \<open>The client\<close>

text \<open>\<open>BufMut::put_u64\<close> and \<open>u64::from_be_bytes\<close>: most significant byte first.\<close>

definition be_bytes :: "u64 \<Rightarrow> bytes" where
  "be_bytes w = rev (le_bytes w)"

definition from_be_bytes :: "bytes \<Rightarrow> u64" where
  "from_be_bytes bs = foldl (\<lambda>v b. push_bit 8 v OR ucast b) 0 bs"

definition precision :: u64 where
  "precision = 20"

text \<open>\<open>tx.resize(sz, 0)\<close>: zeros are added, or what is too long is cut.\<close>

definition resize :: "nat \<Rightarrow> bytes \<Rightarrow> bytes" where
  "resize sz tx = take sz (tx @ replicate sz 0)"

record client_state =
  client_counter :: u64
  client_r :: u64
  client_sent :: "bytes list"

text \<open>The \<open>x\<close>-th transaction of a burst.\<close>

definition client_tx :: "nat \<Rightarrow> u64 \<Rightarrow> u64 \<Rightarrow> (client_state, unit, unit) proc" where
  "client_tx sz burst x =
     bnd (gets (\<lambda>s. x = client_counter s mod burst)) (\<lambda>sample.
     if sample then modify (\<lambda>s. s\<lparr>client_sent := client_sent s @ [resize sz (0 # be_bytes (client_counter s))]\<rparr>)
     else modify (\<lambda>s. s\<lparr>client_r := client_r s + 1, client_sent := client_sent s @ [resize sz (1 # be_bytes (client_r s + 1))]\<rparr>))"

text \<open>One tick of the interval.\<close>

definition client_burst :: "nat \<Rightarrow> u64 \<Rightarrow> unit \<Rightarrow> (client_state, unit, unit) proc" where
  "client_burst sz rate _ =
     (let burst = rate div precision in
      sq (run_all (client_tx sz burst) (map of_nat [0 ..< unat burst]))
        (modify (\<lambda>s. s\<lparr>client_counter := client_counter s + 1\<rparr>)))"

text \<open>
  \<open>Client::send\<close> over \<open>ticks\<close> ticks, with the random start \<open>r\<close>; \<open>None\<close> is the error that the transactions are
  too small.
\<close>

definition client_send :: "nat \<Rightarrow> u64 \<Rightarrow> u64 \<Rightarrow> nat \<Rightarrow> client_state option" where
  "client_send sz rate r ticks =
     (if sz < 16 then None
      else Some (snd (run_all (client_burst sz rate) (replicate ticks ())
        \<lparr>client_counter = 0, client_r = r, client_sent = []\<rparr>)))"

section \<open>The log of the batch maker\<close>

text \<open>The ids that \<open>seal\<close> logs for a batch.\<close>

definition sample_ids :: "batch \<Rightarrow> u64 list" where
  "sample_ids b = map (\<lambda>tx. from_be_bytes (take 8 (drop 1 tx))) (filter (\<lambda>tx. hd tx = 0 \<and> length tx > 8) b)"

section \<open>Big-endian numbers\<close>

lemma from_be_bytes_le: "from_be_bytes (rev bs) = foldr (\<lambda>b v. push_bit 8 v OR ucast b) bs 0"
  by (simp add: from_be_bytes_def foldr_conv_foldl)

lemma from_be_bytes_step:
  fixes w :: u64
  shows "push_bit 8 (drop_bit (8 * Suc i) w) OR ucast (ucast (drop_bit (8 * i) w) :: u8) = drop_bit (8 * i) w"
  by (rule bit_word_eqI) (auto simp: bit_push_bit_iff bit_drop_bit_eq bit_ucast_iff bit_or_iff algebra_simps)

lemma from_be_bytes: "from_be_bytes (be_bytes w) = w"
proof -
  have "foldr (\<lambda>b v. push_bit 8 v OR ucast b) (map (\<lambda>i. ucast (drop_bit (8 * i) w) :: u8) [i ..< 8]) 0 = drop_bit (8 * i) w"
    if "i \<le> 8" for i
    using that
  proof (induction "8 - i" arbitrary: i)
    case 0
    then have "i = 8" by simp
    moreover have "drop_bit 64 w = 0" by (rule bit_word_eqI) (simp add: bit_drop_bit_eq)
    ultimately show ?case by simp
  next
    case (Suc k)
    then have u: "[i ..< 8] = i # [Suc i ..< 8]" by (simp add: upt_conv_Cons)
    have "foldr (\<lambda>b v. push_bit 8 v OR ucast b) (map (\<lambda>i. ucast (drop_bit (8 * i) w) :: u8) [Suc i ..< 8]) 0
        = drop_bit (8 * Suc i) w"
      by (rule Suc.hyps(1)) (use Suc in simp_all)
    then show ?case using from_be_bytes_step [of i w] by (simp add: u)
  qed
  from this [of 0] show ?thesis by (simp add: be_bytes_def le_bytes_def from_be_bytes_le)
qed

section \<open>What is sent\<close>

definition is_sample :: "bytes \<Rightarrow> bool" where
  "is_sample tx \<longleftrightarrow> hd tx = 0 \<and> length tx > 8"

definition tx_number :: "bytes \<Rightarrow> u64" where
  "tx_number tx = from_be_bytes (take 8 (drop 1 tx))"

definition samples :: "bytes list \<Rightarrow> u64 list" where
  "samples txs = map tx_number (filter is_sample txs)"

definition plains :: "bytes list \<Rightarrow> u64 list" where
  "plains txs = map tx_number (filter (\<lambda>tx. \<not> is_sample tx) txs)"

lemma samples_sample_ids: "sample_ids txs = samples txs"
  by (simp add: sample_ids_def samples_def is_sample_def [abs_def] tx_number_def [abs_def])

lemma samples_append: "samples (a @ b) = samples a @ samples b" "plains (a @ b) = plains a @ plains b"
  by (simp_all add: samples_def plains_def)

lemma resize_tx:
  assumes "16 \<le> sz"
  shows "length (resize sz (t # be_bytes w)) = sz" and "tx_number (resize sz (t # be_bytes w)) = w"
    and "is_sample (resize sz (t # be_bytes w)) \<longleftrightarrow> t = 0"
proof -
  have len: "length (be_bytes w) = 8" by (simp add: be_bytes_def)
  have tx: "resize sz (t # be_bytes w) = t # be_bytes w @ replicate (sz - 9) 0"
    using assms len take_append [of sz "t # be_bytes w" "replicate sz 0"] by (simp add: resize_def)
  show "length (resize sz (t # be_bytes w)) = sz" using assms len unfolding tx by simp
  show "tx_number (resize sz (t # be_bytes w)) = w" unfolding tx tx_number_def using len by (simp add: from_be_bytes)
  show "is_sample (resize sz (t # be_bytes w)) \<longleftrightarrow> t = 0" unfolding tx is_sample_def using len by simp
qed

text \<open>The numbers of \<open>n\<close> standard transactions.\<close>

definition numbers :: "u64 \<Rightarrow> nat \<Rightarrow> u64 list" where
  "numbers r n = map (\<lambda>k. r + of_nat (Suc k)) [0 ..< n]"

lemma numbers_Suc: "numbers r (Suc n) = (r + 1) # numbers (r + 1) n"
  by (simp add: numbers_def map_upt_Suc algebra_simps del: upt_Suc)

lemma numbers_append: "numbers r m @ numbers (r + of_nat m) n = numbers r (m + n)"
proof (induction m arbitrary: r)
  case (Suc m)
  then show ?case using Suc.IH [of "r + 1"] by (simp add: numbers_Suc add.assoc)
qed (simp add: numbers_def)

lemma client_txs_run:
  assumes "16 \<le> sz"
  shows "\<exists>t. run_all (client_tx sz burst) xs s = (Ok (), t) \<and> client_counter t = client_counter s
    \<and> (let n = count_list xs (client_counter s mod burst) in
         client_r t = client_r s + of_nat (length xs - n)
         \<and> samples (client_sent t) = samples (client_sent s) @ replicate n (client_counter s)
         \<and> plains (client_sent t) = plains (client_sent s) @ numbers (client_r s) (length xs - n)
         \<and> length (client_sent t) = length (client_sent s) + length xs
         \<and> ((\<forall>tx\<in>set (client_sent s). length tx = sz) \<longrightarrow> (\<forall>tx\<in>set (client_sent t). length tx = sz)))"
proof (induction xs arbitrary: s)
  case Nil
  then show ?case by (simp add: ret_def numbers_def)
next
  case (Cons x xs)
  let ?c = "client_counter s"
  note tx = resize_tx [OF assms]
  have le: "count_list xs (?c mod burst) \<le> length xs" by (rule count_le_length)
  show ?case
  proof (cases "x = ?c mod burst")
    case True
    let ?s = "s\<lparr>client_sent := client_sent s @ [resize sz (0 # be_bytes ?c)]\<rparr>"
    have h: "client_tx sz burst x s = (Ok (), ?s)" using True by (simp add: client_tx_def proc_simps)
    have "samples (client_sent ?s) = samples (client_sent s) @ [?c]" "plains (client_sent ?s) = plains (client_sent s)"
      using tx by (simp_all add: samples_def plains_def)
    with Cons.IH [of ?s] h True tx(1) show ?thesis by (auto simp: run_sq Let_def)
  next
    case False
    let ?s = "s\<lparr>client_r := client_r s + 1, client_sent := client_sent s @ [resize sz (1 # be_bytes (client_r s + 1))]\<rparr>"
    have h: "client_tx sz burst x s = (Ok (), ?s)" using False by (simp add: client_tx_def proc_simps)
    have "samples (client_sent ?s) = samples (client_sent s)" "plains (client_sent ?s) = plains (client_sent s) @ [client_r s + 1]"
      using tx by (simp_all add: samples_def plains_def)
    moreover have "numbers (client_r s) (Suc (length xs) - count_list xs (?c mod burst))
        = (client_r s + 1) # numbers (client_r s + 1) (length xs - count_list xs (?c mod burst))"
      using le by (simp add: Suc_diff_le numbers_Suc)
    ultimately show ?thesis
      using Cons.IH [of ?s] h False tx(1) le by (auto simp: run_sq Let_def Suc_diff_le)
  qed
qed

lemma count_list_one: "distinct xs \<Longrightarrow> x \<in> set xs \<Longrightarrow> count_list xs x = 1"
  by (induction xs) (auto simp: count_list_0_iff)

lemma of_nat_u64_inj:
  assumes "i < 2 ^ 64" and "j < 2 ^ 64" and "(of_nat i :: u64) = of_nat j"
  shows "i = j"
proof -
  have "unat (of_nat i :: u64) = i" by (rule unat_of_nat_small) (use assms(1) in simp)
  moreover have "unat (of_nat j :: u64) = j" by (rule unat_of_nat_small) (use assms(2) in simp)
  ultimately show ?thesis using assms(3) by metis
qed

lemma burst_sample:
  assumes "0 < (burst :: u64)"
  shows "count_list (map of_nat [0 ..< unat burst]) (c mod burst) = 1"
proof -
  have d: "distinct (map (of_nat :: nat \<Rightarrow> u64) [0 ..< unat burst])"
  proof (subst distinct_map, intro conjI inj_onI)
    fix i j assume "i \<in> set [0 ..< unat burst]" "j \<in> set [0 ..< unat burst]" and eq: "(of_nat i :: u64) = of_nat j"
    moreover have "unat burst < 2 ^ 64" using unsigned_less [of burst] by simp
    ultimately have "i < 2 ^ 64" "j < 2 ^ 64" by simp_all
    then show "i = j" using eq by (rule of_nat_u64_inj)
  qed simp
  have "unat (c mod burst) < unat burst" using assms by (simp add: unat_mod_distrib unat_gt_0)
  then have "c mod burst \<in> set (map of_nat [0 ..< unat burst])" by (force intro: image_eqI [of _ _ "unat (c mod burst)"])
  with d show ?thesis by (simp add: count_list_one)
qed

lemma burst_pos: "20 \<le> (rate :: u64) \<Longrightarrow> 0 < rate div 20"
  by (simp add: word_le_nat_alt word_less_nat_alt unat_div_distrib div_greater_zero_iff)

lemma client_bursts_run:
  assumes "16 \<le> sz" and b: "rate div 20 = b" and pos: "0 < b"
  shows "\<exists>t. run_all (client_burst sz rate) (replicate n ()) s = (Ok (), t)
    \<and> client_counter t = client_counter s + of_nat n
    \<and> samples (client_sent t) = samples (client_sent s) @ map (\<lambda>k. client_counter s + of_nat k) [0 ..< n]
    \<and> plains (client_sent t) = plains (client_sent s) @ numbers (client_r s) (n * (unat b - 1))
    \<and> length (client_sent t) = length (client_sent s) + n * unat b
    \<and> ((\<forall>tx\<in>set (client_sent s). length tx = sz) \<longrightarrow> (\<forall>tx\<in>set (client_sent t). length tx = sz))"
proof (induction n arbitrary: s)
  case 0
  then show ?case by (simp add: ret_def numbers_def)
next
  case (Suc n)
  obtain u where u: "run_all (client_tx sz b) (map of_nat [0 ..< unat b]) s = (Ok (), u)"
      "client_counter u = client_counter s" "client_r u = client_r s + of_nat (unat b - 1)"
      "samples (client_sent u) = samples (client_sent s) @ [client_counter s]"
      "plains (client_sent u) = plains (client_sent s) @ numbers (client_r s) (unat b - 1)"
      "length (client_sent u) = length (client_sent s) + unat b"
      "(\<forall>tx\<in>set (client_sent s). length tx = sz) \<longrightarrow> (\<forall>tx\<in>set (client_sent u). length tx = sz)"
    using client_txs_run [OF assms(1), of b "map of_nat [0 ..< unat b]" s, unfolded burst_sample [OF pos] Let_def]
    by (elim exE conjE) (rule that, simp_all)
  let ?u = "u\<lparr>client_counter := client_counter u + 1\<rparr>"
  have h: "client_burst sz rate () s = (Ok (), ?u)"
    using u(1) by (simp add: client_burst_def precision_def Let_def b run_sq modify_def)
  obtain t where t: "run_all (client_burst sz rate) (replicate n ()) ?u = (Ok (), t)"
      "client_counter t = client_counter ?u + of_nat n"
      "samples (client_sent t) = samples (client_sent ?u) @ map (\<lambda>k. client_counter ?u + of_nat k) [0 ..< n]"
      "plains (client_sent t) = plains (client_sent ?u) @ numbers (client_r ?u) (n * (unat b - 1))"
      "length (client_sent t) = length (client_sent ?u) + n * unat b"
      "(\<forall>tx\<in>set (client_sent ?u). length tx = sz) \<longrightarrow> (\<forall>tx\<in>set (client_sent t). length tx = sz)"
    using Suc.IH [of ?u] by blast
  have cs: "map (\<lambda>k. client_counter s + of_nat k) [0 ..< Suc n]
      = client_counter s # map (\<lambda>k. client_counter ?u + of_nat k) [0 ..< n]"
    unfolding map_upt_Suc by (simp add: u(2) add.assoc)
  have ns: "numbers (client_r s) (unat b - 1) @ numbers (client_r ?u) (n * (unat b - 1))
      = numbers (client_r s) (Suc n * (unat b - 1))"
    using u(3) numbers_append [of "client_r s" "unat b - 1"] by simp
  show ?case
  proof (intro exI [of _ t] conjI)
    show "run_all (client_burst sz rate) (replicate (Suc n) ()) s = (Ok (), t)"
      using h t(1) by (simp add: run_sq)
    show "client_counter t = client_counter s + of_nat (Suc n)" using t(2) u(2) by (simp add: add.assoc)
    show "samples (client_sent t) = samples (client_sent s) @ map (\<lambda>k. client_counter s + of_nat k) [0 ..< Suc n]"
      unfolding cs using t(3) u(4) by simp
    show "plains (client_sent t) = plains (client_sent s) @ numbers (client_r s) (Suc n * (unat b - 1))"
      unfolding ns [symmetric] using t(4) u(5) by simp
    show "length (client_sent t) = length (client_sent s) + Suc n * unat b" using t(5) u(6) by simp
    show "(\<forall>tx\<in>set (client_sent s). length tx = sz) \<longrightarrow> (\<forall>tx\<in>set (client_sent t). length tx = sz)"
    proof -
      have "client_sent ?u = client_sent u" by simp
      then show ?thesis using t(6) u(7) by metis
    qed
  qed
qed

lemma distinct_of_nat:
  assumes "n \<le> 2 ^ 64"
  shows "distinct (map (\<lambda>k. (r :: u64) + of_nat k) [0 ..< n])"
proof (subst distinct_map, intro conjI inj_onI)
  fix i j assume "i \<in> set [0 ..< n]" "j \<in> set [0 ..< n]" and eq: "r + of_nat i = r + of_nat j"
  then have "i < 2 ^ 64" "j < 2 ^ 64" using assms by simp_all
  moreover have "(of_nat i :: u64) = of_nat j" using eq by simp
  ultimately show "i = j" by (rule of_nat_u64_inj)
qed simp

lemma distinct_numbers: "n \<le> 2 ^ 64 \<Longrightarrow> distinct (numbers r n)"
  using distinct_of_nat [of n "r + 1"] by (simp add: numbers_def algebra_simps)

lemma distinct_filters: "distinct (filter P xs) \<Longrightarrow> distinct (filter (\<lambda>x. \<not> P x) xs) \<Longrightarrow> distinct xs"
  by (induction xs) (auto split: if_splits)

section \<open>Properties\<close>

text \<open>
  A client sends what it says. With at least 20 transactions per second and at least 16 bytes each, over \<open>n\<close>
  ticks it sends \<open>n\<close> bursts of a twentieth of the rate, every transaction of the size asked for; they are all
  different as long as the counters do not wrap around; and one of each burst is a sample, so that the ids that the
  batch maker would log for them are 0, 1, ..., in order. A smaller size is refused.
\<close>

theorem client_transactions:
  assumes "20 \<le> rate" and "n * unat (rate div 20) \<le> 2 ^ 64"
  shows "if sz < 16 then client_send sz rate r n = None
    else \<exists>s. client_send sz rate r n = Some s \<and> length (client_sent s) = n * unat (rate div 20)
      \<and> (\<forall>tx\<in>set (client_sent s). length tx = sz) \<and> distinct (client_sent s)
      \<and> sample_ids (client_sent s) = map of_nat [0 ..< n]"
proof (cases "sz < 16")
  case False
  then have sz: "16 \<le> sz" by simp
  obtain t where t: "run_all (client_burst sz rate) (replicate n ()) \<lparr>client_counter = 0, client_r = r, client_sent = []\<rparr> = (Ok (), t)"
    "samples (client_sent t) = map of_nat [0 ..< n]" "plains (client_sent t) = numbers r (n * (unat (rate div 20) - 1))"
    "length (client_sent t) = n * unat (rate div 20)" "\<forall>tx\<in>set (client_sent t). length tx = sz"
    using client_bursts_run [OF sz refl burst_pos [OF assms(1)], of n "\<lparr>client_counter = 0, client_r = r, client_sent = []\<rparr>"]
    by (auto simp: samples_def plains_def)
  have "0 < unat (rate div 20)"
    using burst_pos [OF assms(1)] by (simp add: unat_gt_0)
  then have "n \<le> n * unat (rate div 20)" and "n * (unat (rate div 20) - 1) \<le> n * unat (rate div 20)" by simp_all
  then have n: "n \<le> 2 ^ 64" "n * (unat (rate div 20) - 1) \<le> 2 ^ 64"
    using assms(2) by (blast intro: order.trans)+
  have "distinct (samples (client_sent t))" "distinct (plains (client_sent t))"
    using distinct_of_nat [OF n(1), of 0] distinct_numbers [OF n(2)] by (simp_all add: t)
  then have "distinct (client_sent t)"
    by (auto intro!: distinct_filters [of is_sample] simp: samples_def plains_def distinct_map)
  then show ?thesis using False t by (simp add: client_send_def samples_sample_ids)
qed (simp add: client_send_def)

theorem client_transactions_witness:
  "\<exists>s. client_send 16 40 7 3 = Some s \<and> length (client_sent s) = 6 \<and> distinct (client_sent s)
    \<and> sample_ids (client_sent s) = [0, 1, 2]"
proof -
  have "map of_nat [0 ..< 3] = [0, 1, 2 :: u64]" by (simp add: upt_rec)
  then show ?thesis using client_transactions [of 40 3 16 7] by auto
qed

end
