(* ===== verification/Command_Line.thy ===== *)
theory Command_Line
  imports Full_Scenarios Task_Scenarios Client
begin

text \<open>
  The two programs of \<open>node/src\<close> from their command line on. \<open>main.rs\<close>: the subcommands that write a key file, run a node from its
  files and deploy a testbed, with the whole of \<open>Node::new\<close> behind the last two. \<open>client.rs\<close>: the client that waits for
  its nodes and then sends transactions until a write fails. \<open>clap\<close> parses the arguments, of which only the range
  of \<open>--nodes\<close> is kept; opening a database is a parameter.
\<close>

section \<open>The command line of a node\<close>

datatype command = Keys string | Run string string "string option" string | Deploy u16

record cli =
  cli_verbose :: u8
  cli_command :: command

text \<open>\<open>clap::value_parser!(u16).range(4..)\<close>.\<close>

definition cli_accepted :: "cli \<Rightarrow> bool" where
  "cli_accepted c = (case cli_command c of Deploy nodes \<Rightarrow> 4 \<le> nodes | _ \<Rightarrow> True)"

definition log_level :: "u8 \<Rightarrow> string" where
  "log_level verbose =
     (if verbose = 0 then ''error'' else if verbose = 1 then ''warn'' else if verbose = 2 then ''info''
      else if verbose = 3 then ''debug'' else ''trace'')"

section \<open>Node::new\<close>

text \<open>
  The files are read, the store is opened, and the tasks are started: an error of the files is returned, and what fails
  after that panics. \<open>node_spawn\<close> has no errors.
\<close>

definition start_node ::
    "('k, 'db) platform \<Rightarrow> node_committee json \<Rightarrow> secret json \<Rightarrow> node_parameters json \<Rightarrow> (string \<Rightarrow> 'db store option) \<Rightarrow> instant
      \<Rightarrow> string \<Rightarrow> string \<Rightarrow> string \<Rightarrow> string option \<Rightarrow> (filesys, config_error, node \<times> 'db full_node) proc" where
  "start_node F JC JS JP open_store now committee_file key_file store_path parameters =
     bnd (node_new JC JS JP committee_file key_file parameters) (\<lambda>d.
     bnd (expect ''Failed to create store'' (open_store store_path)) (\<lambda>st.
     case node_spawn F d now st of
       Ok n \<Rightarrow> ret (d, n)
     | Panic p \<Rightarrow> panic p
     | _ \<Rightarrow> (\<lambda>fs. (Diverge, fs))))"

section \<open>The main function of a node\<close>

primrec secrets_new :: "('k, 'g) keygen \<Rightarrow> nat \<Rightarrow> 'g \<Rightarrow> secret list" where
  "secrets_new G 0 g = []"
| "secrets_new G (Suc n) g = (case secret_new G g of (key, g') \<Rightarrow> key # secrets_new G n g')"

definition store_path :: "nat \<Rightarrow> string" where
  "store_path i = ''db_'' @ decimal i"

text \<open>
  What \<open>main\<close> comes to: a key file, a running node, the nodes of a testbed, each in a task of its own that starts or fails
  on its own, or an error in the log.
\<close>

datatype 'db ending =
    Key_file_written
  | Node_runs node "'db full_node"
  | Testbed "(config_error, node \<times> 'db full_node) outcome list"
  | Error_logged string config_error

definition logged_as :: "string \<Rightarrow> (filesys, config_error, 'db ending) proc \<Rightarrow> (filesys, unit, 'db ending) proc" where
  "logged_as text m fs =
     (case m fs of
        (Ok x, fs') \<Rightarrow> (Ok x, fs')
      | (Err e, fs') \<Rightarrow> (Ok (Error_logged text e), fs')
      | (Panic p, fs') \<Rightarrow> (Panic p, fs')
      | (Diverge, fs') \<Rightarrow> (Diverge, fs'))"

definition node_main ::
    "('k, 'db) platform \<Rightarrow> ('s, 'g) keygen \<Rightarrow> node_committee json \<Rightarrow> secret json \<Rightarrow> node_parameters json
      \<Rightarrow> (string \<Rightarrow> 'db store option) \<Rightarrow> 'g \<Rightarrow> instant \<Rightarrow> cli \<Rightarrow> (filesys, unit, 'db ending) proc" where
  "node_main F G JC JS JP open_store g now c =
     (case cli_command c of
        Keys filename \<Rightarrow> logged_as [] (sq (print_key_file G JS g filename) (ret Key_file_written))
      | Run key_file committee_file parameters store \<Rightarrow>
          logged_as [] (bnd (start_node F JC JS JP open_store now committee_file key_file store parameters)
            (\<lambda>(d, n). ret (Node_runs d n)))
      | Deploy nodes \<Rightarrow>
          logged_as ''Failed to deploy testbed: '' (bnd (deploy_testbed JC JS (secrets_new G (unat nodes) g)) (\<lambda>starts.
            gets (\<lambda>fs. Testbed (map (\<lambda>(i, committee_file, key_file).
              fst (start_node F JC JS JP open_store now committee_file key_file (store_path i) None fs)) (enumerate 0 starts))))))"

section \<open>Starting nodes\<close>

lemma boot_total:
  assumes "authorities (my_committee E) \<noteq> []"
  obtains c es where "boot E now s = (Ok (), c)" and "out c = out s @ es" and "\<forall>e\<in>set es. \<exists>m. e = To_proposer m"
proof -
  obtain l where "get_leader (my_committee E) (cur_round s) = Some l" using get_leader_Some [OF assms] by blast
  then have "\<exists>c es. boot E now s = (Ok (), c) \<and> out c = out s @ es \<and> (\<forall>e\<in>set es. \<exists>m. e = To_proposer m)"
    by (auto simp: boot_def propose_if_leader_def leader_def generate_proposal_def emit_def expect_def proc_simps)
  with that show thesis by blast
qed

lemma to_proposer_effects:
  assumes "\<forall>e\<in>set es. \<exists>m. e = To_proposer m"
  shows "cn_stopped (fold core_effect es n) = cn_stopped n" and "tx_mempool (fold core_effect es n) = tx_mempool n"
  using assms by (induction es arbitrary: n) auto

text \<open>A member of both committees starts, with all of its tasks.\<close>

lemma node_spawn_member:
  assumes "node_name d \<in> names (consensus_committee (node_committees d))"
    and "node_name d \<in> mempool_names (mempool_committee (node_committees d))"
  shows "\<exists>n. node_spawn F d now st = Ok n \<and> cn_stopped (fn_consensus n) = {} \<and> mn_stopped (fn_mempool n) = {}"
proof -
  let ?E = "node_consensus_env F d" and ?M = "node_mempool_env F d"
  have "map_of (mempool_authorities (mempool_committee (node_committees d))) (node_name d) \<noteq> None"
    using assms(2) by (simp add: map_of_eq_None_iff mempool_names_def)
  then obtain m where m: "mempool_spawn ?M st = Ok m" "mn_stopped m = {}"
    by (auto simp: mempool_spawn_def mempool_listen_def node_mempool_env_def transactions_address_def mempool_address_def
        case_prod_unfold)
  have E: "my_committee ?E = consensus_committee (node_committees d)" "my_name ?E = node_name d"
    by (simp_all add: node_consensus_env_def)
  let ?s = "core_new ?E (timeout_delay (consensus_parameters (node_params d))) now st"
  have "authorities (my_committee ?E) \<noteq> []" using assms(1) by (auto simp: E names_def)
  then obtain c es where c: "boot ?E now ?s = (Ok (), c)" "out c = out ?s @ es" "\<forall>e\<in>set es. \<exists>m. e = To_proposer m"
    by (rule boot_total)
  have "map_of (authorities (my_committee ?E)) (my_name ?E) \<noteq> None"
    using assms(1) by (simp add: map_of_eq_None_iff names_def E)
  then obtain n where "consensus_spawn ?E (consensus_parameters (node_params d)) now st = Ok n" "cn_stopped n = {}" "tx_mempool n = []"
    using c by (auto simp: consensus_spawn_def address_def to_proposer_effects stop_task_def case_prod_unfold core_new_def)
  with m show ?thesis by (simp add: node_spawn_def)
qed

lemma start_node_run:
  assumes "node_new JC JS JP committee_file key_file parameters fs = (Ok d, fs)" and "open_store path = Some st"
    and "node_name d \<in> names (consensus_committee (node_committees d))"
    and "node_name d \<in> mempool_names (mempool_committee (node_committees d))"
  shows "\<exists>n. start_node F JC JS JP open_store now committee_file key_file path parameters fs = (Ok (d, n), fs)
    \<and> node_spawn F d now st = Ok n \<and> cn_stopped (fn_consensus n) = {} \<and> mn_stopped (fn_mempool n) = {}"
  using node_spawn_member [OF assms(3,4), of F now st] assms(1,2)
  by (auto simp: start_node_def expect_def proc_simps bnd_def)

lemma length_secrets_new [simp]: "length (secrets_new G n g) = n"
  by (induction n arbitrary: g) (auto split: prod.split)

section \<open>Properties\<close>

lemma testbed_quorum:
  assumes "distinct (map secret_name keys)" and "testbed_committee keys = Ok c" and "4 \<le> length keys"
    and "k \<in> names (consensus_committee c)"
  shows "quorum (consensus_committee c) (names (consensus_committee c) - {k})"
proof -
  have "length keys \<le> 40336" using testbed_committee_run(2) [OF assms(1)] assms(2) by (cases "length keys \<le> 40336") auto
  then have c: "names (consensus_committee c) = secret_name ` set keys"
    "\<And>k. stake (consensus_committee c) k = (if k \<in> secret_name ` set keys then 1 else 0)"
    "unat (quorum_threshold (consensus_committee c)) = 2 * length keys div 3 + 1"
    using testbed_committees [OF assms(1)] assms(2) by auto
  have "card (names (consensus_committee c)) = length keys"
    using distinct_card [OF assms(1)] by (simp add: c(1))
  moreover have "weight_of (consensus_committee c) (names (consensus_committee c) - {k}) = card (names (consensus_committee c) - {k})"
    by (simp add: weight_of_def c)
  ultimately show ?thesis using assms(3,4) by (auto simp: quorum_def c(3) card_Diff_singleton_if) (simp add: c(1))
qed

text \<open>
  C39. A deployed testbed works, even with one node down. When \<open>Deploy\<close> is run with a number of nodes that the command line accepts, at most 100, every node
  starts with all of its tasks, from the files written for it: with its own key, in the committees of the testbed. All addresses are
  different, and the authorities that are left without any one of them are a quorum, which is what the least number of 4 is for.
\<close>

theorem deploy_boots:
  assumes "cli_command c = Deploy nodes" and "cli_accepted c" and "nodes \<le> 100" and "keys = secrets_new G (unat nodes) g"
    and "distinct (map secret_name keys)" and "testbed_committee keys = Ok com"
    and "json_ok JC {com}" and "json_ok JS (set keys)" and "\<forall>path. can_write fs path"
    and "\<forall>i. open_store (store_path i) \<noteq> None"
  shows "\<exists>fs' rs. node_main F G JC JS JP open_store g now c fs = (Ok (Testbed rs), fs') \<and> length rs = unat nodes
    \<and> (\<forall>i < unat nodes. \<exists>n. rs ! i = Ok (\<lparr>node_name = secret_name (keys ! i), node_secret = secret_secret (keys ! i),
          node_committees = com, node_params = node_parameters_default\<rparr>, n)
        \<and> cn_stopped (fn_consensus n) = {} \<and> mn_stopped (fn_mempool n) = {})
    \<and> distinct (testbed_addresses com)
    \<and> (\<forall>k\<in>names (consensus_committee com). quorum (consensus_committee com) (names (consensus_committee com) - {k}))"
proof -
  let ?d = "\<lambda>i. \<lparr>node_name = secret_name (keys ! i), node_secret = secret_secret (keys ! i), node_committees = com,
    node_params = node_parameters_default\<rparr>"
  have len: "length keys = unat nodes" using assms(4) by simp
  have n: "4 \<le> length keys" "length keys \<le> 100"
    using assms(1-3) word_le_nat_alt [of 4 nodes] word_le_nat_alt [of nodes 100] by (simp_all add: len cli_accepted_def)
  let ?starts = "map (\<lambda>j. (committee_path, node_file j)) [0 ..< length keys]"
  obtain fs' where fs': "deploy_testbed JC JS keys fs = (Ok ?starts, fs')"
    "\<And>j. j < length keys \<Longrightarrow> node_new JC JS JP committee_path (node_file j) None fs' = (Ok (?d j), fs')"
    using deployed_nodes_start [OF assms(7-9,6), of JP] by auto
  have members: "names (consensus_committee com) = secret_name ` set keys" "mempool_names (mempool_committee com) = secret_name ` set keys"
    using testbed_committees [OF assms(5)] assms(6) n by auto
  let ?boot = "\<lambda>i. start_node F JC JS JP open_store now committee_path (node_file i) (store_path i) None fs'"
  let ?rs = "map (\<lambda>(i, committee_file, key_file). fst (start_node F JC JS JP open_store now committee_file key_file (store_path i) None fs'))
    (enumerate 0 ?starts)"
  have "node_main F G JC JS JP open_store g now c fs = (Ok (Testbed ?rs), fs')"
    using fs'(1) assms(1,4) by (simp add: node_main_def logged_as_def proc_simps bnd_def gets_def)
  moreover have rs: "?rs ! i = fst (?boot i)" if "i < length keys" for i
    using that by (simp add: nth_enumerate_eq)
  have "\<exists>n. ?rs ! i = Ok (?d i, n) \<and> cn_stopped (fn_consensus n) = {} \<and> mn_stopped (fn_mempool n) = {}" if i: "i < length keys" for i
  proof -
    obtain st where "open_store (store_path i) = Some st" using assms(10) by (metis not_None_eq)
    then obtain n where "?boot i = (Ok (?d i, n), fs')" "cn_stopped (fn_consensus n) = {}" "mn_stopped (fn_mempool n) = {}"
      using start_node_run [OF fs'(2) [OF i], of open_store "store_path i" st F now] i by (auto simp: members)
    then show ?thesis unfolding rs [OF i] by simp
  qed
  moreover have "distinct (testbed_addresses com)" using testbed_ports [OF assms(5,6)] n by simp
  moreover have "quorum (consensus_committee com) (names (consensus_committee com) - {k})" if "k \<in> names (consensus_committee com)" for k
    by (rule testbed_quorum [OF assms(5,6) n(1) that])
  ultimately show ?thesis using len by (intro exI [of _ fs'] exI [of _ ?rs]) simp
qed

text \<open>
  C40. A key file starts a node that can sign. After \<open>Keys\<close> has written a new file, \<open>Run\<close> with that file, and a committee file whose
  committees both have the key generated, starts a node with all of its tasks, and what the signature service of that node signs verifies
  under the name of the node.
\<close>

theorem key_file_starts_node:
  assumes "cli_command c = Keys key_file" and "cli_command c' = Run key_file committee_file None path"
    and "secret_new G g = (key, g')" and "keygen_ok (dalek (platform_env F)) G" and "json_ok JS {key}"
    and "can_write fs key_file" and "files fs key_file = None" and "committee_file \<noteq> key_file"
    and "export_read JC committee_file fs = Ok com" and "open_store path = Some st"
    and "secret_name key \<in> names (consensus_committee com)" and "secret_name key \<in> mempool_names (mempool_committee com)"
  shows "\<exists>fs' d n. node_main F G JC JS JP open_store g now c fs = (Ok Key_file_written, fs')
    \<and> node_main F G JC JS JP open_store g'' now' c' fs' = (Ok (Node_runs d n), fs')
    \<and> cn_stopped (fn_consensus n) = {} \<and> mn_stopped (fn_mempool n) = {}
    \<and> node_name d = secret_name key \<and> node_committees d = com
    \<and> key_pair (dalek (platform_env F)) (node_name d) (node_secret d)"
proof -
  let ?d = "\<lparr>node_name = secret_name key, node_secret = secret_secret key, node_committees = com, node_params = node_parameters_default\<rparr>"
  obtain bs where bs: "to_json JS key = Some bs" using json_okD [OF assms(5)] by blast
  let ?fs = "fs\<lparr>files := (files fs)(key_file \<mapsto> bs @ [10])\<rparr>"
  have w: "export_write JS key key_file fs = (Ok (), ?fs)"
    using export_write_run [OF assms(6) bs] assms(7) by (simp add: stale_def)
  then have keys: "node_main F G JC JS JP open_store g now c fs = (Ok Key_file_written, ?fs)"
    using assms(1,3) by (simp add: node_main_def logged_as_def print_key_file_def proc_simps)
  have "export_read JS key_file ?fs = Ok key"
    using export_read_back(1) [OF assms(5) _ bs, of ?fs key_file "[]"] by simp
  moreover have "export_read JC committee_file ?fs = Ok com"
    using assms(8,9) by (simp add: export_read_def)
  ultimately have "node_new JC JS JP committee_file key_file None ?fs = (Ok ?d, ?fs)"
    by (simp add: node_new_def bnd_def ret_def)
  from start_node_run [OF this, of open_store path st F now'] assms(10-12) obtain n where
    "start_node F JC JS JP open_store now' committee_file key_file path None ?fs = (Ok (?d, n), ?fs)"
    "cn_stopped (fn_consensus n) = {}" "mn_stopped (fn_mempool n) = {}" by auto
  then have "node_main F G JC JS JP open_store g'' now' c' ?fs = (Ok (Node_runs ?d n), ?fs)"
    using assms(2) by (simp add: node_main_def logged_as_def proc_simps)
  moreover obtain name secret where kp: "generate_keypair G g = ((name, secret), g')" "key = \<lparr>secret_name = name, secret_secret = secret\<rparr>"
    using assms(3) by (auto simp: secret_new_def split: prod.splits)
  ultimately show ?thesis
    using keys generated_key_pair [OF assms(4) kp(1)] \<open>cn_stopped (fn_consensus n) = {}\<close> \<open>mn_stopped (fn_mempool n) = {}\<close>
    by (intro exI [of _ ?fs] exI [of _ ?d] exI [of _ n]) (simp add: kp(2))
qed

section \<open>The benchmark client\<close>

text \<open>\<open>Cli\<close> of \<open>client.rs\<close>, and the \<open>Client\<close> that is made of it.\<close>

record client_cli =
  cli_target :: socket_addr
  cli_timeout :: u64
  cli_size :: nat
  cli_rate :: u64
  cli_nodes :: "socket_addr list"

record client =
  client_target :: socket_addr
  client_size :: nat
  client_rate :: u64
  client_timeout :: u64
  client_nodes :: "socket_addr list"

definition client_of :: "client_cli \<Rightarrow> client" where
  "client_of cli = \<lparr>client_target = cli_target cli, client_size = cli_size cli, client_rate = cli_rate cli,
     client_timeout = cli_timeout cli, client_nodes = cli_nodes cli\<rparr>"

text \<open>How often a node had to be tried, when its attempts to connect go as listed; \<open>None\<close> while none has succeeded.\<close>

primrec failed_attempts :: "bool list \<Rightarrow> nat option" where
  "failed_attempts [] = None"
| "failed_attempts (online # xs) = (if online then Some 0 else map_option Suc (failed_attempts xs))"

text \<open>
  \<open>Client::wait\<close>: every node is tried again every 10 ms, all of them at a time, and when all have answered the client waits for twice the
  timeout, a product that wraps around. The value is the least time in ms that this takes; \<open>None\<close> when it does not return.
\<close>

definition client_wait :: "client \<Rightarrow> (socket_addr \<Rightarrow> bool list) \<Rightarrow> nat option" where
  "client_wait c attempts =
     (let tried = map (failed_attempts \<circ> attempts) (client_nodes c)
      in if None \<in> set tried then None
         else Some (fold max (map (\<lambda>x. 10 * the x) tried) 0 + unat (2 * client_timeout c)))"

datatype client_error = Too_small | Not_connected socket_addr

text \<open>
  The \<open>main\<close> of \<open>client.rs\<close>, over \<open>ticks\<close> ticks: it waits, then sends on a connection that takes \<open>writes\<close> frames before one
  fails, which ends the client without an error. \<open>None\<close> when it waits for ever.
\<close>

definition client_main ::
    "client_cli \<Rightarrow> (socket_addr \<Rightarrow> bool list) \<Rightarrow> bool \<Rightarrow> u64 \<Rightarrow> nat \<Rightarrow> nat \<Rightarrow> (client_error + bytes list) option" where
  "client_main cli attempts up r ticks writes =
     (let c = client_of cli in map_option (\<lambda>_. case client_send (client_size c) (client_rate c) r ticks of
          None \<Rightarrow> Inl Too_small
        | Some s \<Rightarrow> if up then Inr (take writes (client_sent s)) else Inl (Not_connected (client_target c)))
       (client_wait c attempts))"

lemma failed_attempts_None: "failed_attempts xs = None \<longleftrightarrow> True \<notin> set xs"
  by (induction xs) auto

lemma take_upt_min: "take k [0 ..< n] = [0 ..< min n k]"
  by (rule nth_equalityI) auto

text \<open>
  A client waits for its nodes and sends different transactions. It returns from the wait exactly when every node has
  answered; a size below 16 is an error then; and on a connection, which may fail at any write, what is sent are transactions of the
  size asked for, all different as long as the counters do not wrap around, with samples numbered 0, 1, ... in order.
\<close>

theorem client_runs:
  assumes "20 \<le> cli_rate cli" and "ticks * unat (cli_rate cli div 20) \<le> 2 ^ 64"
  shows "(client_main cli attempts up r ticks writes = None \<longleftrightarrow> (\<exists>a\<in>set (cli_nodes cli). True \<notin> set (attempts a)))
    \<and> (client_main cli attempts up r ticks writes = Some (Inl Too_small) \<longrightarrow> cli_size cli < 16)
    \<and> (\<forall>txs. client_main cli attempts up r ticks writes = Some (Inr txs) \<longrightarrow>
         length txs = min writes (ticks * unat (cli_rate cli div 20)) \<and> (\<forall>tx\<in>set txs. length tx = cli_size cli)
         \<and> distinct txs \<and> (\<exists>k. sample_ids txs = map of_nat [0 ..< k]))"
proof -
  have "client_main cli attempts up r ticks writes = None \<longleftrightarrow> (\<exists>a\<in>set (cli_nodes cli). True \<notin> set (attempts a))"
    by (auto simp: client_main_def Let_def client_of_def client_wait_def image_iff failed_attempts_None eq_commute [of None])
  moreover have "length txs = min writes (ticks * unat (cli_rate cli div 20)) \<and> (\<forall>tx\<in>set txs. length tx = cli_size cli)
      \<and> distinct txs \<and> (\<exists>k. sample_ids txs = map of_nat [0 ..< k])"
    if txs: "client_main cli attempts up r ticks writes = Some (Inr txs)" for txs
  proof -
    obtain s where s: "client_send (cli_size cli) (cli_rate cli) r ticks = Some s" "txs = take writes (client_sent s)"
      using txs by (auto simp: client_main_def Let_def client_of_def split: option.splits if_splits)
    have "\<not> cli_size cli < 16" using s(1) by (auto simp: client_send_def)
    then have t: "length (client_sent s) = ticks * unat (cli_rate cli div 20)" "\<forall>tx\<in>set (client_sent s). length tx = cli_size cli"
      "distinct (client_sent s)" "sample_ids (client_sent s) = map of_nat [0 ..< ticks]"
      using client_transactions [OF assms, of "cli_size cli" r] s(1) by auto
    have "sample_ids (client_sent s) = sample_ids txs @ sample_ids (drop writes (client_sent s))"
      using samples_append(1) [of txs "drop writes (client_sent s)"] by (simp add: s(2) samples_sample_ids)
    then have "sample_ids txs = take (length (sample_ids txs)) (map of_nat [0 ..< ticks])"
      by (simp add: t(4))
    then have "sample_ids txs = map of_nat (take (length (sample_ids txs)) [0 ..< ticks])"
      by (simp only: take_map)
    then have "sample_ids txs = map of_nat [0 ..< min ticks (length (sample_ids txs))]"
      by (simp only: take_upt_min)
    then show ?thesis using t by (auto simp: s(2) min_def dest: in_set_takeD)
  qed
  moreover have "client_send (cli_size cli) (cli_rate cli) r ticks = None \<longleftrightarrow> cli_size cli < 16"
    by (simp add: client_send_def)
  then have "client_main cli attempts up r ticks writes = Some (Inl Too_small) \<longrightarrow> cli_size cli < 16"
    unfolding client_main_def Let_def client_of_def by (cases "client_send (cli_size cli) (cli_rate cli) r ticks") auto
  ultimately show ?thesis by blast
qed

section \<open>Four nodes and a client\<close>

lemma scenario_testbed:
  obtains com where "testbed_committee scenario_keys = Ok com"
    and "names (consensus_committee com) = secret_name ` set scenario_keys"
    and "mempool_names (mempool_committee com) = secret_name ` set scenario_keys"
  using testbed_committees [OF scenario_keys_distinct] by (auto simp: scenario_keys_def)

lemma scenario_secrets_new: "secrets_new scenario_keygen 4 1 = scenario_keys"
  by (simp add: eval_nat_numeral scenario_keys_def scenario_secret_def secret_new_def generate_keypair_def scenario_keygen_def)

lemma scenario_node_keygen: "keygen_ok scenario_dalek scenario_keygen"
  by (auto simp: keygen_ok_def scenario_keygen_def scenario_dalek_def lax_dalek_def Let_def)

definition new_disk :: filesys where
  "new_disk = \<lparr>files = Map.empty, can_write = \<lambda>_. True\<rparr>"

theorem deploy_boots_witness:
  "\<exists>JC fs' rs. node_main loaded_platform scenario_keygen JC scenario_secret_json (scenario_json (\<lambda>_. 0) (\<lambda>_. node_parameters_default))
      (\<lambda>_. Some (store_new Map.empty)) 1 0 \<lparr>cli_verbose = 2, cli_command = Deploy 4\<rparr> new_disk = (Ok (Testbed rs), fs')
    \<and> length rs = 4 \<and> (\<exists>d n. rs ! 2 = Ok (d, n) \<and> node_name d = secret_name (scenario_secret 3) \<and> cn_stopped (fn_consensus n) = {})"
proof -
  obtain com where com: "testbed_committee scenario_keys = Ok com" by (rule scenario_testbed)
  let ?JC = "scenario_json (\<lambda>_. 123) (\<lambda>_. com)" and ?JP = "scenario_json (\<lambda>_. 0) (\<lambda>_. node_parameters_default)"
  have "json_ok ?JC {com}" by (rule scenario_json_ok) simp
  moreover have "json_ok scenario_secret_json (set scenario_keys)"
    using scenario_secret_json_ok by (auto simp: json_ok_def scenario_keys_def)
  ultimately obtain fs' rs where
    "node_main loaded_platform scenario_keygen ?JC scenario_secret_json ?JP (\<lambda>_. Some (store_new Map.empty)) 1 0
       \<lparr>cli_verbose = 2, cli_command = Deploy 4\<rparr> new_disk = (Ok (Testbed rs), fs')" "length rs = 4"
    "\<forall>i < 4. \<exists>n. rs ! i = Ok (\<lparr>node_name = secret_name (scenario_keys ! i), node_secret = secret_secret (scenario_keys ! i),
       node_committees = com, node_params = node_parameters_default\<rparr>, n) \<and> cn_stopped (fn_consensus n) = {}"
    using deploy_boots [of "\<lparr>cli_verbose = 2, cli_command = Deploy 4\<rparr>" 4 scenario_keys scenario_keygen 1 com ?JC scenario_secret_json
        new_disk "\<lambda>_. Some (store_new Map.empty)" loaded_platform ?JP 0] scenario_keys_distinct com
    by (force simp: cli_accepted_def scenario_secrets_new new_disk_def)
  then show ?thesis
    by (intro exI [of _ ?JC] exI [of _ fs'] exI [of _ rs]) (auto simp: scenario_keys_def dest: spec [of _ 2])
qed

theorem key_file_starts_node_witness:
  "\<exists>com fs' d n. node_main loaded_platform scenario_keygen (scenario_json (\<lambda>_. 123) (\<lambda>_. com)) scenario_secret_json
        (scenario_json (\<lambda>_. 0) (\<lambda>_. node_parameters_default)) (\<lambda>_. Some (store_new Map.empty)) 1 0
        \<lparr>cli_verbose = 0, cli_command = Keys ''k.json''\<rparr> (new_disk\<lparr>files := [''c.json'' \<mapsto> [123]]\<rparr>) = (Ok Key_file_written, fs')
    \<and> node_main loaded_platform scenario_keygen (scenario_json (\<lambda>_. 123) (\<lambda>_. com)) scenario_secret_json
        (scenario_json (\<lambda>_. 0) (\<lambda>_. node_parameters_default)) (\<lambda>_. Some (store_new Map.empty)) 7 5
        \<lparr>cli_verbose = 0, cli_command = Run ''k.json'' ''c.json'' None ''db''\<rparr> fs' = (Ok (Node_runs d n), fs')
    \<and> node_name d = secret_name (scenario_secret 1) \<and> key_pair scenario_dalek (node_name d) (node_secret d)"
proof -
  obtain com where com: "testbed_committee scenario_keys = Ok com" "names (consensus_committee com) = secret_name ` set scenario_keys"
    "mempool_names (mempool_committee com) = secret_name ` set scenario_keys" by (rule scenario_testbed)
  have key: "secret_new scenario_keygen 1 = (scenario_secret 1, 2)"
    by (simp add: scenario_secret_def secret_new_def generate_keypair_def scenario_keygen_def)
  have json: "json_ok scenario_secret_json {scenario_secret 1}"
    using scenario_secret_json_ok by (simp add: json_ok_def)
  have member: "secret_name (scenario_secret 1) \<in> secret_name ` set scenario_keys" by (simp add: scenario_keys_def)
  let ?fs = "new_disk\<lparr>files := [''c.json'' \<mapsto> [123]]\<rparr>"
  have read: "export_read (scenario_json (\<lambda>_. 123) (\<lambda>_. com)) ''c.json'' ?fs = Ok com"
    by (simp add: export_read_def scenario_json_def)
  show ?thesis
    using key_file_starts_node [of "\<lparr>cli_verbose = 0, cli_command = Keys ''k.json''\<rparr>" "''k.json''"
        "\<lparr>cli_verbose = 0, cli_command = Run ''k.json'' ''c.json'' None ''db''\<rparr>" "''c.json''" "''db''" scenario_keygen 1 "scenario_secret 1" 2
        loaded_platform scenario_secret_json ?fs "scenario_json (\<lambda>_. 123) (\<lambda>_. com)" com "\<lambda>_. Some (store_new Map.empty)"
        "store_new Map.empty" "scenario_json (\<lambda>_. 0) (\<lambda>_. node_parameters_default)" 0 7 5] key json read scenario_node_keygen member
    by (simp add: com new_disk_def) blast
qed

definition scenario_client :: client_cli where
  "scenario_client = \<lparr>cli_target = ([127, 0, 0, 1], 25000), cli_timeout = 5000, cli_size = 16, cli_rate = 40,
     cli_nodes = [([127, 0, 0, 1], 25000)]\<rparr>"

theorem client_runs_witness:
  "\<exists>txs. client_main scenario_client (\<lambda>_. [False, True]) True 7 3 5 = Some (Inr txs) \<and> length txs = 5 \<and> distinct txs"
proof -
  let ?run = "client_main scenario_client (\<lambda>_. [False, True]) True 7 3 5"
  have "?run \<noteq> None \<and> (\<forall>txs. ?run = Some (Inr txs) \<longrightarrow> length txs = 5 \<and> distinct txs)" "?run \<noteq> Some (Inl Too_small)"
    using client_runs [of scenario_client 3 "\<lambda>_. [False, True]" True 7 5] by (auto simp: scenario_client_def)
  moreover have "?run \<noteq> Some (Inl (Not_connected a))" for a
    by (simp add: client_main_def Let_def split: option.split)
  ultimately show ?thesis by (metis client_error.exhaust not_None_eq sum.exhaust)
qed

end
