(* ===== verification/Spec2Isabelle.thy ===== *)
theory Spec2Isabelle
  imports Chain_Progress View_Change Texts Listener Command_Line
begin

text \<open>
  A model of the HotStuff node of this repository and the theorems that make it correct.

  \<^bold>\<open>The program.\<close> A node is a store (\<open>store/src/lib.rs\<close>), a mempool (\<open>mempool/src\<close>) and a consensus
  (\<open>consensus/src\<close>) that share it, over senders and receivers of length-delimited frames (\<open>network/src\<close>); \<open>crypto/src/lib.rs\<close>
  has the keys and signatures, \<open>node/src\<close> the configuration files, the testbed and a benchmark client. Every
  part is a set of tokio tasks that talk over channels. Clients send transactions to the mempool: the batch maker cuts
  them into batches and broadcasts these, the quorum waiter holds a batch back until a quorum has acknowledged it, the
  processor stores it and announces its digest to the proposer of the consensus. The core of the consensus is a 2-chain HotStuff with
  timeouts: it checks blocks, votes, timeouts and certificates, votes by two safety rules, commits the head of a
  2-chain with its ancestors, and asks the proposer for a block when it leads a round. Blocks whose parent or
  payload is missing wait in the synchronizer and in the payload waiter and come back over a loopback channel.

  \<^bold>\<open>How the code is modelled.\<close> A struct is a record, an enum a datatype, \<open>u64\<close> and the other integers are words of their width
  (release arithmetic, which wraps around), \<open>f64\<close> is a rational rounded to binary64. A method is a procedure: a
  function from a state to an outcome and a state, where the outcome is a value, an error, a panic or divergence
  (\<open>Prelude\<close>). What a method sends is appended to a log of effects in the state, so that
  theorems speak of what is sent and in which order. A task is a function on one event of its \<open>tokio::select!\<close>,
  and a run of it a list of events in any order (\<open>Tasks\<close>); a future that is not ready leaves the state as it is. Clock readings, the
  order in which peers answer and random delays are arguments of the events.

  \<^bold>\<open>What is a parameter.\<close> \<open>dalek\<close> (ed25519, SHA-512, batch verification), \<open>base64\<close>, \<open>rocksdb\<close>, \<open>bincode\<close>, \<open>serde_json\<close> and the
  file system are arguments of the definitions, gathered in the records \<open>dalek\<close>, \<open>rocksdb\<close>, \<open>env\<close> and their like; what a
  theorem relies on of them is a hypothesis with a name: \<open>rocksdb_ok\<close> (a read returns what was written last), \<open>bincode_ok\<close>
  and \<open>json_ok\<close> (reading back), \<open>sha512_ok\<close> (64 bytes), \<open>collision_free\<close> (over the messages that have been signed only). Signatures are
  treated by a relation \<open>sg a m\<close>, which says that authority \<open>a\<close> has signed \<open>m\<close>: what a node is assumed to receive is
  that verified signatures have been made (\<open>genuine_message\<close>), and the correct authorities sign only what their own modelled log shows.
  The two halves of a node share the store without a tag on the values; the theorems on nodes assume that none of the batches that come reads as
  a block, which \<open>bincode\<close> alone does not exclude.

  \<^bold>\<open>Theories and sources.\<close>
  \<^item> \<open>Prelude\<close>, \<open>Tasks\<close>, \<open>Float64\<close>: outcomes and procedures, the calculi for facts that every call keeps (\<open>step_relation\<close>,
    \<open>guarded\<close>), loops of tasks and lists of futures, binary64.
  \<^item> \<open>Crypto\<close>, \<open>Keys\<close>: \<open>crypto/src/lib.rs\<close>. \<open>Store\<close>: \<open>store/src/lib.rs\<close>, with its contract as a locale.
  \<^item> \<open>Config\<close>, \<open>Leader\<close>, \<open>Messages\<close>, \<open>Aggregator\<close>, \<open>Timer\<close>: \<open>config.rs\<close>, \<open>leader.rs\<close>, \<open>messages.rs\<close> with \<open>error.rs\<close>, \<open>aggregator.rs\<close>
    and the four \<open>timer\<close> files of \<open>consensus/src\<close>; \<open>Texts\<close>: how messages are printed; \<open>Wire\<close>: the messages and the receiver's handler of \<open>consensus.rs\<close> and the effects.
  \<^item> \<open>Synchronizer\<close> and \<open>Mempool_Driver\<close> (the calls the core makes), \<open>Core\<close>: \<open>core.rs\<close>, one procedure per method. \<open>Core_Log\<close>
    (the log only grows and orders the signatures), \<open>Core_Safety\<close> (the invariant of the core), \<open>Agreement\<close> (safety across nodes),
    \<open>Core_Properties\<close> (what a commit delivers), \<open>Core_Progress\<close> (what takes a core out of a round), \<open>Chain_Progress\<close> (a run
    without faults, from the start), \<open>Round_Progress\<close> and \<open>View_Change\<close> (a round that succeeds and one that times out, across nodes),
    \<open>Scenario\<close> (four authorities and three blocks, on which the witnesses run).
  \<^item> \<open>Block_Synchronizer\<close>, \<open>Payload_Waiter\<close>, \<open>Proposer\<close> with \<open>Quorum_Acks\<close>, \<open>Helper\<close>: the other tasks of the consensus, of
    \<open>synchronizer.rs\<close>, \<open>mempool.rs\<close>, \<open>proposer.rs\<close> and \<open>helper.rs\<close>. \<open>Consensus_Node\<close>: \<open>Consensus::spawn\<close>, all the tasks
    with their channels and the store they share, in any interleaving; \<open>Consensus_Wiring\<close>: what holds of it.
  \<^item> \<open>Mempool_Config\<close>, \<open>Mempool_Wire\<close>, \<open>Batch_Maker\<close>, \<open>Quorum_Waiter\<close>, \<open>Processor\<close> (with the helper), \<open>Mempool_Synchronizer\<close>, \<open>Mempool\<close>:
    the files of \<open>mempool/src\<close>, in the order in which a transaction passes through them. \<open>Mempool_Node\<close>: \<open>Mempool::spawn\<close>,
    all its tasks with their channels and the shared store, in any interleaving.
  \<^item> \<open>Reliable_Sender\<close>, \<open>Simple_Sender\<close>, \<open>Receiver\<close> (one connection), \<open>Listener\<close> (all connections of a port): \<open>network/src\<close>.
  \<^item> \<open>Node\<close> (files, committees, \<open>deploy_testbed\<close>), \<open>Client\<close> (the transactions), \<open>Command_Line\<close> (both \<open>main\<close> functions, \<open>Node::new\<close>
    as a whole and \<open>Client::wait\<close>): \<open>node/src\<close>.
  \<^item> \<open>Full_Node\<close>: \<open>Node::new\<close>, the mempool and the consensus of one node over one store, with the two channels between them;
    \<open>Availability\<close> and \<open>Node_Availability\<close>: what the core and the consensus need of the mempool to vote only for blocks whose payload they have.
  \<^item> \<open>Task_Scenarios\<close>, \<open>Node_Scenarios\<close>, \<open>Mempool_Scenarios\<close>, \<open>Full_Scenarios\<close>: concrete runs, on which the witnesses rest.

  \<^bold>\<open>What the lemmas show.\<close> For the core, an invariant of every run: certificates, stored blocks, votes, proposals and commits rest on
  what quorums have signed; from it agreement of all honest nodes, by induction on the round of a certificate. For its progress, that a quorum of votes or of timeouts
  takes it out of their round whatever their order, and that a block which reaches a quorum in time commits its grandparent there and becomes
  certified at the next leader, while the timers of a quorum take every core of the committee past a round that makes no progress. For the wiring, that the channels of a node hand the core only what this argument assumes, so that agreement
  holds for nodes whose tasks interleave in any way. For the whole node, that no block is voted for or committed before all of its
  payload is in the store, so that the payload of a certified block is held by an honest node. For the aggregator, that a certificate is made exactly once and verifies elsewhere. For the
  tasks, conservation: a block, digest, batch or message handed to a task is kept, given back or
  dropped for the reason the code gives, once and in order. The reliable connection and the batch maker refine
  abstract queues, and the connection gets every message through once the network lets it. For the quorum threshold, the stakes for which
  its \<open>u32\<close> arithmetic is right. For the timers, bounds and the wrap-around of the exponential one. For the receivers, that
  connections disturb each other only through the tasks behind their handler, and how one connection can end others. For the files, round trips; and from the command line on, that what the subcommands write starts nodes that can sign.

  \<^bold>\<open>Bounds and termination.\<close> The one loop that may not end is the walk up the ancestors in \<open>commit\<close>; it is a
  \<open>partial_function\<close> whose end is proved when rounds decrease along stored parents. All other loops are structural, over the list that the code iterates over. No fuel is used.

  \<^bold>\<open>Not modelled.\<close> Logging (but for the benchmark lines whose arguments may panic, and the texts of messages); the sockets, whose
  accepts, frames and failures are events; the address parsing; the capacity of channels, so that a send never waits; the end of a task as its
  peers in the node see it (the handlers of the receivers panic on the channel of a task that has ended, as the code does; what another task of the node sends to it stays in the channel); the scheduler, of which only the set
  of possible interleavings is kept; the parser of the command line; \<open>Node::analyze_block\<close>, which is empty; the Python scripts of \<open>benchmark\<close>, which deploy and measure nodes; tests.
\<close>

end
